(* ===== verification/Golb_Prelude.thy ===== *)
theory Golb_Prelude
  imports Main "HOL-Library.Word"
begin

text \<open>
  Shared vocabulary of the development: Go's 64-bit \<open>int\<close> with its wrap-around, Go map
  lookups with their zero value, the byte-string functions of package \<open>strings\<close> the
  program calls, decimal and hexadecimal formatting, and the theorem collections the
  component theories extend.

  Go strings are byte strings, so they are modelled as \<^typ>\<open>string\<close>, a list of
  8-bit characters. A \<open>time.Duration\<close> or a monotonic instant is a number of
  nanoseconds, an \<^typ>\<open>int\<close>.
\<close>

named_theorems go_int \<comment> \<open>wrap-around arithmetic of Go's int and int64\<close>
named_theorems heap_simps \<comment> \<open>reads over writes of the backend store\<close>
named_theorems frame_simps \<comment> \<open>what an operation leaves unchanged\<close>
named_theorems wf_intros \<comment> \<open>preservation of component invariants\<close>

type_synonym duration = int
type_synonym instant = int

section \<open>Go's int and int64\<close>

definition int64 :: "int \<Rightarrow> int" where
  "int64 x = (x + 2 ^ 63) mod 2 ^ 64 - 2 ^ 63"

definition is_int64 :: "int \<Rightarrow> bool" where
  "is_int64 x \<longleftrightarrow> - (2 ^ 63) \<le> x \<and> x < 2 ^ 63"

lemma int64_id [go_int]: "is_int64 x \<Longrightarrow> int64 x = x"
  by (simp add: int64_def is_int64_def)

lemma is_int64_int64 [simp, go_int]: "is_int64 (int64 x)"
  using pos_mod_bound [of "2 ^ 64" "x + 2 ^ 63"] pos_mod_sign [of "2 ^ 64" "x + 2 ^ 63"]
  by (simp add: int64_def is_int64_def)

lemma int64_cong: "x mod 2 ^ 64 = y mod 2 ^ 64 \<Longrightarrow> int64 x = int64 y"
  unfolding int64_def by (metis mod_add_left_eq)

lemma int64_mod: "int64 x mod 2 ^ 64 = x mod 2 ^ 64"
  unfolding int64_def by (metis add_diff_cancel_right' mod_diff_left_eq)

lemma int64_add_left [simp, go_int]: "int64 (int64 x + y) = int64 (x + y)"
  by (rule int64_cong) (metis int64_mod mod_add_left_eq)

lemma int64_add_right [simp, go_int]: "int64 (x + int64 y) = int64 (x + y)"
  by (rule int64_cong) (metis int64_mod mod_add_right_eq)

lemma int64_diff_left [simp, go_int]: "int64 (int64 x - y) = int64 (x - y)"
  by (rule int64_cong) (metis int64_mod mod_diff_left_eq)

lemma int64_idem [simp]: "int64 (int64 x) = int64 x"
  by (rule int64_cong) (rule int64_mod)

lemma is_int64_0 [simp]: "is_int64 0"
  by (simp add: is_int64_def)

section \<open>Go maps with zero-valued lookups\<close>

text \<open>\<open>m[k]\<close> of a Go map of integers is 0 where the key is absent.\<close>

definition lookup0 :: "('k \<rightharpoonup> int) \<Rightarrow> 'k \<Rightarrow> int" where
  "lookup0 m k = (case m k of None \<Rightarrow> 0 | Some v \<Rightarrow> v)"

lemma lookup0_upd [simp]: "lookup0 (m(k \<mapsto> v)) k' = (if k' = k then v else lookup0 m k')"
  by (simp add: lookup0_def)

lemma lookup0_empty [simp]: "lookup0 Map.empty k = 0"
  by (simp add: lookup0_def)

lemma lookup0_restrict: "lookup0 (m |` A) k = (if k \<in> A then lookup0 m k else 0)"
  by (simp add: lookup0_def restrict_map_def)

section \<open>Sums as results\<close>

text \<open>A Go \<open>(value, error)\<close> pair is \<open>error + value\<close>; sequencing stops at the first error.\<close>

definition sum_bind :: "'e + 'a \<Rightarrow> ('a \<Rightarrow> 'e + 'b) \<Rightarrow> 'e + 'b" where
  "sum_bind x f = (case x of Inl e \<Rightarrow> Inl e | Inr a \<Rightarrow> f a)"

lemma sum_bind_simps [simp]:
  "sum_bind (Inl e) f = Inl e"
  "sum_bind (Inr a) f = f a"
  by (simp_all add: sum_bind_def)

lemma sum_bind_Inr_iff: "sum_bind x f = Inr b \<longleftrightarrow> (\<exists>a. x = Inr a \<and> f a = Inr b)"
  by (cases x) simp_all

section \<open>Byte strings\<close>

text \<open>\<open>strings.CutPrefix\<close>.\<close>

fun CutPrefix :: "string \<Rightarrow> string \<Rightarrow> string option" where
  "CutPrefix s [] = Some s"
| "CutPrefix [] (p # ps) = None"
| "CutPrefix (c # s) (p # ps) = (if c = p then CutPrefix s ps else None)"

lemma CutPrefix_Some_iff: "CutPrefix s p = Some t \<longleftrightarrow> s = p @ t"
  by (induction s p rule: CutPrefix.induct) auto

lemma CutPrefix_append [simp]: "CutPrefix (p @ t) p = Some t"
  by (simp add: CutPrefix_Some_iff)

text \<open>\<open>strings.Split\<close> by a one-byte separator: always at least one piece.\<close>

fun split_on :: "char \<Rightarrow> string \<Rightarrow> string list" where
  "split_on c [] = [[]]"
| "split_on c (x # xs) =
     (if x = c then [] # split_on c xs
      else (case split_on c xs of [] \<Rightarrow> [[x]] | y # ys \<Rightarrow> (x # y) # ys))"

lemma split_on_nonempty [simp]: "split_on c xs \<noteq> []"
  by (induction xs) (auto split: list.splits)

text \<open>
  \<open>strings.TrimSpace\<close>. The white space of \<open>unicode.IsSpace\<close> is a fixed set of code
  points; a Go string is trimmed of their UTF-8 encodings, listed here.
\<close>

definition space_encodings :: "string list" where
  "space_encodings =
     [''\<newline>'', '' '', [CHR 0x09], [CHR 0x0B], [CHR 0x0C], [CHR 0x0D],
      [CHR 0xC2, CHR 0x85], [CHR 0xC2, CHR 0xA0], [CHR 0xE1, CHR 0x9A, CHR 0x80]]
     @ map (\<lambda>c. [CHR 0xE2, CHR 0x80, c])
         [CHR 0x80, CHR 0x81, CHR 0x82, CHR 0x83, CHR 0x84, CHR 0x85, CHR 0x86,
          CHR 0x87, CHR 0x88, CHR 0x89, CHR 0x8A, CHR 0xA8, CHR 0xA9, CHR 0xAF]
     @ [[CHR 0xE2, CHR 0x81, CHR 0x9F], [CHR 0xE3, CHR 0x80, CHR 0x80]]"

fun cut_any :: "string list \<Rightarrow> string \<Rightarrow> string option" where
  "cut_any [] s = None"
| "cut_any (p # ps) s = (case CutPrefix s p of Some t \<Rightarrow> Some t | None \<Rightarrow> cut_any ps s)"

lemma cut_any_shorter: "cut_any ps s = Some t \<Longrightarrow> [] \<notin> set ps \<Longrightarrow> length t < length s"
  by (induction ps) (auto simp: CutPrefix_Some_iff split: option.splits)

text \<open>A trimming loop strips prefixes while one matches; each match shortens the string.\<close>

fun trim_prefixes :: "nat \<Rightarrow> string list \<Rightarrow> string \<Rightarrow> string" where
  "trim_prefixes 0 ps s = s"
| "trim_prefixes (Suc n) ps s =
     (case cut_any ps s of None \<Rightarrow> s | Some t \<Rightarrow> trim_prefixes n ps t)"

definition TrimLeftSpace :: "string \<Rightarrow> string" where
  "TrimLeftSpace s = trim_prefixes (length s) space_encodings s"

definition TrimSpace :: "string \<Rightarrow> string" where
  "TrimSpace s =
     (let l = TrimLeftSpace s
      in rev (trim_prefixes (length l) (map rev space_encodings) (rev l)))"

lemma trim_prefixes_done:
  assumes "[] \<notin> set ps" and "length s \<le> n"
  shows "cut_any ps (trim_prefixes n ps s) = None"
  using assms
proof (induction n arbitrary: s)
  case 0
  then have "s = []" by simp
  moreover have "cut_any ps [] = None" using \<open>[] \<notin> set ps\<close>
    by (cases "cut_any ps []") (auto dest: cut_any_shorter)
  ultimately show ?case by simp
next
  case (Suc n)
  then show ?case
    by (auto split: option.split dest: cut_any_shorter [THEN less_le_trans])
qed

section \<open>Formatting\<close>

fun digit_char :: "nat \<Rightarrow> char" where
  "digit_char n = char_of ((if n < 10 then 48 else 87) + n)"

text \<open>Digits of a number to a base, most significant first (\<open>strconv.Itoa\<close>, \<open>%d\<close>, \<open>%x\<close>).\<close>

fun show_base :: "nat \<Rightarrow> nat \<Rightarrow> string" where
  "show_base b n =
     (if n < b \<or> b < 2 then [digit_char n] else show_base b (n div b) @ [digit_char (n mod b)])"

declare show_base.simps [simp del]

definition Itoa :: "int \<Rightarrow> string" where
  "Itoa i = (if i < 0 then ''-'' @ show_base 10 (nat (- i)) else show_base 10 (nat i))"

definition hex_byte :: "char \<Rightarrow> string" where
  "hex_byte c = [digit_char (of_char c div 16), digit_char (of_char c mod 16)]"

lemma length_hex [simp]: "length (concat (map hex_byte bs)) = 2 * length bs"
  by (induction bs) (simp_all add: hex_byte_def)

end
