(* ===== verification/Backends.thy ===== *)
theory Backends
  imports Golb_Prelude
begin

text \<open>
  Package \<open>internal/backend\<close>: the \<open>Backend\<close> struct and its accessors, and the store of
  backends. The program shares \<open>*Backend\<close> pointers between the pool, the health checker,
  the admin API and requests in flight, so a pointer is a reference \<^typ>\<open>nat\<close> into a
  store, and every accessor is also an operation on the store.

  Of a \<open>*url.URL\<close> the program reads the scheme, the host and the text \<open>String()\<close>
  returns; the reverse proxy of package \<open>net/http/httputil\<close> also reads path and query.
  The record holds exactly these. \<open>ReverseProxy\<close> is \<open>None\<close> for the nil pointer and
  otherwise holds the target the proxy was built for.
\<close>

record url =
  Scheme :: string
  Host :: string
  Path :: string
  RawQuery :: string
  URLString :: string

record backend =
  URL :: url
  Weight :: int
  alive :: bool
  activeConns :: int
  ReverseProxy :: "url option"

text \<open>\<open>url.Parse\<close>, a parameter wherever it is used: an error or the URL.\<close>

type_synonym url_parser = "string \<Rightarrow> string + url"

type_synonym ref = nat
type_synonym store = "ref \<Rightarrow> backend"

section \<open>Accessors\<close>

definition SetAlive :: "bool \<Rightarrow> backend \<Rightarrow> backend" where
  "SetAlive v b = b\<lparr>alive := v\<rparr>"

definition IsAlive :: "backend \<Rightarrow> bool" where
  "IsAlive b = alive b"

definition SetWeight :: "int \<Rightarrow> backend \<Rightarrow> backend" where
  "SetWeight w b = b\<lparr>Weight := w\<rparr>"

definition GetWeight :: "backend \<Rightarrow> int" where
  "GetWeight b = Weight b"

definition IncrConns :: "backend \<Rightarrow> backend" where
  "IncrConns b = b\<lparr>activeConns := int64 (activeConns b + 1)\<rparr>"

definition DecrConns :: "backend \<Rightarrow> backend" where
  "DecrConns b = b\<lparr>activeConns := int64 (activeConns b - 1)\<rparr>"

definition ActiveConns :: "backend \<Rightarrow> int" where
  "ActiveConns b = activeConns b"

lemmas accessor_defs =
  SetAlive_def IsAlive_def SetWeight_def GetWeight_def IncrConns_def DecrConns_def
  ActiveConns_def

abbreviation url_of :: "backend \<Rightarrow> string" where
  "url_of b \<equiv> URLString (URL b)"

lemma accessor_fields [heap_simps]:
  "URL (SetAlive v b) = URL b" "URL (SetWeight w b) = URL b"
  "URL (IncrConns b) = URL b" "URL (DecrConns b) = URL b"
  "alive (SetAlive v b) = v" "alive (SetWeight w b) = alive b"
  "alive (IncrConns b) = alive b" "alive (DecrConns b) = alive b"
  "Weight (SetAlive v b) = Weight b" "Weight (SetWeight w b) = w"
  "Weight (IncrConns b) = Weight b" "Weight (DecrConns b) = Weight b"
  "ReverseProxy (SetAlive v b) = ReverseProxy b" "ReverseProxy (SetWeight w b) = ReverseProxy b"
  "ReverseProxy (IncrConns b) = ReverseProxy b" "ReverseProxy (DecrConns b) = ReverseProxy b"
  "activeConns (SetAlive v b) = activeConns b" "activeConns (SetWeight w b) = activeConns b"
  by (simp_all add: accessor_defs)

lemma Decr_Incr: "is_int64 (activeConns b) \<Longrightarrow> DecrConns (IncrConns b) = b"
  by (simp add: accessor_defs int64_id)

section \<open>The store\<close>

definition modify :: "ref \<Rightarrow> (backend \<Rightarrow> backend) \<Rightarrow> store \<Rightarrow> store" where
  "modify r f h = h(r := f (h r))"

lemma modify_apply [heap_simps]: "modify r f h r' = (if r' = r then f (h r) else h r')"
  by (simp add: modify_def)

lemma modify_frame:
  assumes "\<And>b. g (f b) = g b"
  shows "g (modify r f h r') = g (h r')"
  using assms by (simp add: modify_def)

text \<open>A plain \<open>http://\<close> backend, as \<open>url.Parse\<close> and the constructors yield it; used in concrete instances.\<close>

definition http_url :: "string \<Rightarrow> url" where
  "http_url h = \<lparr>Scheme = ''http'', Host = h, Path = [], RawQuery = [], URLString = ''http://'' @ h\<rparr>"

definition http_backend :: "string \<Rightarrow> int \<Rightarrow> backend" where
  "http_backend h w =
     \<lparr>URL = http_url h, Weight = w, alive = True, activeConns = 0, ReverseProxy = Some (http_url h)\<rparr>"

section \<open>Connection counting under any interleaving\<close>

text \<open>
  \<open>IncrConns\<close> and \<open>DecrConns\<close> are single atomic additions, so a concurrent run of
  them on one backend is some sequence of the two operations.
\<close>

datatype conn_op = Incr | Decr

fun conn_step :: "conn_op \<Rightarrow> backend \<Rightarrow> backend" where
  "conn_step Incr b = IncrConns b"
| "conn_step Decr b = DecrConns b"

definition conn_run :: "conn_op list \<Rightarrow> backend \<Rightarrow> backend" where
  "conn_run = fold conn_step"

fun conn_delta :: "conn_op \<Rightarrow> int" where
  "conn_delta Incr = 1"
| "conn_delta Decr = - 1"

lemma conn_run_counts:
  "conn_run ops b =
     (if ops = [] then b else b\<lparr>activeConns := int64 (activeConns b + sum_list (map conn_delta ops))\<rparr>)"
proof (induction ops arbitrary: b)
  case Nil
  show ?case by (simp add: conn_run_def)
next
  case (Cons op ops)
  have "conn_run (op # ops) b = conn_run ops (conn_step op b)"
    by (simp add: conn_run_def)
  then show ?case
    by (cases op) (simp_all add: Cons.IH accessor_defs algebra_simps)
qed

end
