(* ===== verification/Metrics.thy ===== *)
theory Metrics
  imports Backends
begin

text \<open>
  Package \<open>internal/metrics\<close>. The Prometheus client is a third-party library: registering
  a collector is the parameter \<open>register\<close> below, and what the package does with a
  collector (\<open>Inc\<close>, \<open>Observe\<close>, \<open>Set\<close>, \<open>Dec\<close> on the series with given label values)
  is recorded as a list of calls, newest first. The package's global variables are one
  record; \<open>None\<close> is a nil collector, on which a call would panic.
\<close>

datatype collector_kind = CounterVec | HistogramVec | GaugeVec

record collector =
  kind :: collector_kind
  metricName :: string
  labels :: "string list"

datatype metric_call =
    CounterInc "collector option" "string list"
  | HistogramObserve "collector option" "string list" duration
  | GaugeSet "collector option" "string list" int
  | GaugeInc "collector option" "string list"
  | GaugeDec "collector option" "string list"

record metrics =
  initialized :: bool
  enabled :: bool
  requestsTotal :: "collector option"
  requestDuration :: "collector option"
  backendUp :: "collector option"
  activeConnections :: "collector option"
  calls :: "metric_call list"

definition metrics0 :: metrics where
  "metrics0 = \<lparr>initialized = False, enabled = False, requestsTotal = None,
     requestDuration = None, backendUp = None, activeConnections = None, calls = []\<rparr>"

section \<open>Registration\<close>

text \<open>What \<open>prometheus.Register\<close> reports: success, the collector already registered, or another error.\<close>

datatype register_result = Registered | AlreadyRegistered collector | RegisterError string

datatype panic = RegistrationPanic string | TypeAssertionPanic

text \<open>
  The three \<open>safeRegister\<close> functions have one body, at the types of the three kinds of
  collector; the type assertion on the existing collector panics at another kind.
\<close>

definition safeRegister :: "(collector \<Rightarrow> register_result) \<Rightarrow> collector \<Rightarrow> panic + collector" where
  "safeRegister register c =
     (case register c of
        Registered \<Rightarrow> Inr c
      | AlreadyRegistered c' \<Rightarrow> if kind c' = kind c then Inr c' else Inl TypeAssertionPanic
      | RegisterError e \<Rightarrow> Inl (RegistrationPanic e))"

definition safeRegisterCounterVec :: "(collector \<Rightarrow> register_result) \<Rightarrow> collector \<Rightarrow> panic + collector" where
  "safeRegisterCounterVec register c = safeRegister register (c\<lparr>kind := CounterVec\<rparr>)"

definition safeRegisterHistogramVec :: "(collector \<Rightarrow> register_result) \<Rightarrow> collector \<Rightarrow> panic + collector" where
  "safeRegisterHistogramVec register c = safeRegister register (c\<lparr>kind := HistogramVec\<rparr>)"

definition safeRegisterGaugeVec :: "(collector \<Rightarrow> register_result) \<Rightarrow> collector \<Rightarrow> panic + collector" where
  "safeRegisterGaugeVec register c = safeRegister register (c\<lparr>kind := GaugeVec\<rparr>)"

text \<open>
  \<open>Init\<close>: a panic leaves the variables assigned so far, so the result is the record and
  the panic that stopped it, if any.
\<close>

definition Init :: "(collector \<Rightarrow> register_result) \<Rightarrow> metrics \<Rightarrow> metrics \<times> panic option" where
  "Init register m =
     (if initialized m then (m, None) else
      let m = m\<lparr>initialized := True\<rparr> in
      case safeRegisterCounterVec register
             \<lparr>kind = CounterVec, metricName = ''golb_requests_total'', labels = [''backend'', ''code'']\<rparr> of
        Inl p \<Rightarrow> (m, Some p)
      | Inr c1 \<Rightarrow> let m = m\<lparr>requestsTotal := Some c1\<rparr> in
      case safeRegisterHistogramVec register
             \<lparr>kind = HistogramVec, metricName = ''golb_request_duration_seconds'', labels = [''backend'']\<rparr> of
        Inl p \<Rightarrow> (m, Some p)
      | Inr c2 \<Rightarrow> let m = m\<lparr>requestDuration := Some c2\<rparr> in
      case safeRegisterGaugeVec register
             \<lparr>kind = GaugeVec, metricName = ''golb_backend_up'', labels = [''backend'']\<rparr> of
        Inl p \<Rightarrow> (m, Some p)
      | Inr c3 \<Rightarrow> let m = m\<lparr>backendUp := Some c3\<rparr> in
      case safeRegisterGaugeVec register
             \<lparr>kind = GaugeVec, metricName = ''golb_active_connections'', labels = [''backend'']\<rparr> of
        Inl p \<Rightarrow> (m, Some p)
      | Inr c4 \<Rightarrow> (m\<lparr>activeConnections := Some c4, enabled := True\<rparr>, None))"

section \<open>Recording\<close>

definition statusCodeLabel :: "int \<Rightarrow> string" where
  "statusCodeLabel code =
     (if code \<ge> 500 then ''5xx''
      else if code \<ge> 400 then ''4xx''
      else if code \<ge> 300 then ''3xx''
      else if code \<ge> 200 then ''2xx''
      else ''other'')"

definition emit :: "metric_call \<Rightarrow> metrics \<Rightarrow> metrics" where
  "emit c m = m\<lparr>calls := c # calls m\<rparr>"

definition RecordRequest :: "string \<Rightarrow> int \<Rightarrow> duration \<Rightarrow> metrics \<Rightarrow> metrics" where
  "RecordRequest b statusCode d m =
     (if \<not> enabled m then m
      else
        let code = statusCodeLabel statusCode;
            m = emit (CounterInc (requestsTotal m) [b, code]) m
        in emit (HistogramObserve (requestDuration m) [b] d) m)"

definition SetBackendUp :: "string \<Rightarrow> bool \<Rightarrow> metrics \<Rightarrow> metrics" where
  "SetBackendUp b up m =
     (if \<not> enabled m then m
      else emit (GaugeSet (backendUp m) [b] (if up then 1 else 0)) m)"

definition IncrActiveConns :: "string \<Rightarrow> metrics \<Rightarrow> metrics" where
  "IncrActiveConns b m = (if \<not> enabled m then m else emit (GaugeInc (activeConnections m) [b]) m)"

definition DecrActiveConns :: "string \<Rightarrow> metrics \<Rightarrow> metrics" where
  "DecrActiveConns b m = (if \<not> enabled m then m else emit (GaugeDec (activeConnections m) [b]) m)"

lemmas metric_op_defs =
  RecordRequest_def SetBackendUp_def IncrActiveConns_def DecrActiveConns_def emit_def Let_def

section \<open>What the exported series show\<close>

text \<open>
  The value of a counter or gauge series is determined by the calls made on it. These
  readings are specification vocabulary, not code.
\<close>

fun counter_value :: "string list \<Rightarrow> metric_call list \<Rightarrow> nat" where
  "counter_value ls [] = 0"
| "counter_value ls (CounterInc c ls' # cs) = (if ls' = ls then 1 else 0) + counter_value ls cs"
| "counter_value ls (_ # cs) = counter_value ls cs"

text \<open>The active-connections gauge of a backend, and the last value set on the up gauge.\<close>

fun active_value :: "string \<Rightarrow> metric_call list \<Rightarrow> int" where
  "active_value b [] = 0"
| "active_value b (GaugeInc c ls # cs) = (if ls = [b] then 1 else 0) + active_value b cs"
| "active_value b (GaugeDec c ls # cs) = active_value b cs - (if ls = [b] then 1 else 0)"
| "active_value b (_ # cs) = active_value b cs"

fun up_value :: "string \<Rightarrow> metric_call list \<Rightarrow> int option" where
  "up_value b [] = None"
| "up_value b (GaugeSet c ls v # cs) = (if ls = [b] then Some v else up_value b cs)"
| "up_value b (_ # cs) = up_value b cs"

section \<open>Well-formedness: no call on a nil or wrongly typed collector\<close>

fun call_ok :: "metric_call \<Rightarrow> bool" where
  "call_ok (CounterInc (Some c) ls) = (kind c = CounterVec)"
| "call_ok (HistogramObserve (Some c) ls d) = (kind c = HistogramVec)"
| "call_ok (GaugeSet (Some c) ls v) = (kind c = GaugeVec)"
| "call_ok (GaugeInc (Some c) ls) = (kind c = GaugeVec)"
| "call_ok (GaugeDec (Some c) ls) = (kind c = GaugeVec)"
| "call_ok _ = False"

definition has_kind :: "collector_kind \<Rightarrow> collector option \<Rightarrow> bool" where
  "has_kind k c = (case c of None \<Rightarrow> False | Some c \<Rightarrow> kind c = k)"

definition metrics_wf :: "metrics \<Rightarrow> bool" where
  "metrics_wf m \<longleftrightarrow>
     (enabled m \<longrightarrow> initialized m \<and> has_kind CounterVec (requestsTotal m) \<and>
        has_kind HistogramVec (requestDuration m) \<and> has_kind GaugeVec (backendUp m) \<and>
        has_kind GaugeVec (activeConnections m)) \<and>
     list_all call_ok (calls m)"

lemma has_kindE: "has_kind k c \<Longrightarrow> (\<And>x. c = Some x \<Longrightarrow> kind x = k \<Longrightarrow> P) \<Longrightarrow> P"
  by (auto simp: has_kind_def split: option.splits)

lemma metrics_wf_0 [wf_intros]: "metrics_wf metrics0"
  by (simp add: metrics_wf_def metrics0_def)

lemma RecordRequest_wf [wf_intros]: "metrics_wf m \<Longrightarrow> metrics_wf (RecordRequest b s d m)"
  by (auto simp: metrics_wf_def metric_op_defs elim!: has_kindE)

lemma SetBackendUp_wf [wf_intros]: "metrics_wf m \<Longrightarrow> metrics_wf (SetBackendUp b up m)"
  by (auto simp: metrics_wf_def metric_op_defs elim!: has_kindE)

lemma IncrActiveConns_wf [wf_intros]: "metrics_wf m \<Longrightarrow> metrics_wf (IncrActiveConns b m)"
  by (auto simp: metrics_wf_def metric_op_defs elim!: has_kindE)

lemma DecrActiveConns_wf [wf_intros]: "metrics_wf m \<Longrightarrow> metrics_wf (DecrActiveConns b m)"
  by (auto simp: metrics_wf_def metric_op_defs elim!: has_kindE)

lemma safeRegister_kind: "safeRegister register c = Inr c' \<Longrightarrow> kind c' = kind c"
  by (auto simp: safeRegister_def split: register_result.splits if_splits)

lemma safeRegister_kinds:
  "safeRegisterCounterVec register c = Inr c' \<Longrightarrow> kind c' = CounterVec"
  "safeRegisterHistogramVec register c = Inr c' \<Longrightarrow> kind c' = HistogramVec"
  "safeRegisterGaugeVec register c = Inr c' \<Longrightarrow> kind c' = GaugeVec"
  by (auto simp: safeRegisterCounterVec_def safeRegisterHistogramVec_def safeRegisterGaugeVec_def
      dest: safeRegister_kind)

lemma Init_wf [wf_intros]: "metrics_wf m \<Longrightarrow> metrics_wf (fst (Init register m))"
  by (auto simp: metrics_wf_def Init_def Let_def has_kind_def
      dest: safeRegister_kinds split: sum.splits)

lemma Init_again: "initialized m \<Longrightarrow> Init register m = (m, None)"
  by (simp add: Init_def)

lemma Init_enables:
  "Init register m = (m', None) \<Longrightarrow> \<not> initialized m \<Longrightarrow> enabled m' \<and> initialized m'"
  by (auto simp: Init_def Let_def split: sum.splits)

lemma Init_panic_disables:
  "Init register m = (m', Some p) \<Longrightarrow> initialized m' \<and> enabled m' = enabled m \<and> calls m' = calls m"
  by (auto simp: Init_def Let_def split: sum.splits if_splits)

lemma metric_op_enabled [frame_simps]:
  "enabled (RecordRequest b s d m) = enabled m"
  "enabled (SetBackendUp b up m) = enabled m"
  "enabled (IncrActiveConns b m) = enabled m"
  "enabled (DecrActiveConns b m) = enabled m"
  by (simp_all add: metric_op_defs)

section \<open>Series readings after each operation\<close>

lemma active_value_ops [simp]:
  "active_value b (calls (RecordRequest b' s d m)) = active_value b (calls m)"
  "active_value b (calls (SetBackendUp b' up m)) = active_value b (calls m)"
  "active_value b (calls (IncrActiveConns b' m)) =
     active_value b (calls m) + (if enabled m \<and> b' = b then 1 else 0)"
  "active_value b (calls (DecrActiveConns b' m)) =
     active_value b (calls m) - (if enabled m \<and> b' = b then 1 else 0)"
  by (simp_all add: metric_op_defs)

lemma up_value_ops [simp]:
  "up_value b (calls (RecordRequest b' s d m)) = up_value b (calls m)"
  "up_value b (calls (SetBackendUp b' up m)) =
     (if enabled m \<and> b' = b then Some (if up then 1 else 0) else up_value b (calls m))"
  "up_value b (calls (IncrActiveConns b' m)) = up_value b (calls m)"
  "up_value b (calls (DecrActiveConns b' m)) = up_value b (calls m)"
  by (simp_all add: metric_op_defs)

lemma counter_value_ops [simp]:
  "counter_value ls (calls (RecordRequest b s d m)) =
     counter_value ls (calls m) + (if enabled m \<and> ls = [b, statusCodeLabel s] then 1 else 0)"
  "counter_value ls (calls (SetBackendUp b up m)) = counter_value ls (calls m)"
  "counter_value ls (calls (IncrActiveConns b m)) = counter_value ls (calls m)"
  "counter_value ls (calls (DecrActiveConns b m)) = counter_value ls (calls m)"
  by (simp_all add: metric_op_defs)


section \<open>Properties\<close>

datatype metric_op =
    OpInit "collector \<Rightarrow> register_result"
  | OpRequest string int duration
  | OpUp string bool
  | OpIncr string
  | OpDecr string

fun metric_step :: "metric_op \<Rightarrow> metrics \<Rightarrow> metrics" where
  "metric_step (OpInit register) m = fst (Init register m)"
| "metric_step (OpRequest b s d) m = RecordRequest b s d m"
| "metric_step (OpUp b up) m = SetBackendUp b up m"
| "metric_step (OpIncr b) m = IncrActiveConns b m"
| "metric_step (OpDecr b) m = DecrActiveConns b m"

text \<open>
  C25: no metric call ever reaches a nil collector or one of the wrong kind. Whatever sequence of
  calls is made on the package from its initial state - \<open>Init\<close> any number of times and at any
  point, with any behaviour of the Prometheus registry, panics of a failed registration included -
  every recorded call is on an existing collector of the right kind.
\<close>

theorem metric_calls_never_nil: "metrics_wf (fold metric_step ops metrics0)"
proof -
  have "metrics_wf m \<Longrightarrow> metrics_wf (fold metric_step ops m)" for m
  proof (induction ops arbitrary: m)
    case (Cons op ops)
    then show ?case by (cases op) (simp_all add: wf_intros)
  qed simp
  then show ?thesis using metrics_wf_0 .
qed

end
