(* ===== verification/Pools.thy ===== *)
theory Pools
  imports Metrics
begin

text \<open>
  Package \<open>internal/pool\<close>. The server pool is a slice of backend pointers. The record
  below is the memory the pool works on: the store of backends, the next unused reference,
  the metrics package's variables, and the pool's slice. Later theories extend it.

  The contract of the pool is that of a map from URL text to backend in which an insertion
  does not overwrite: the locale \<open>url_map\<close>, interpreted here on the pool's operations.
\<close>

record pool_state =
  heap :: store
  fresh :: ref
  mets :: metrics
  backends :: "ref list"

abbreviation ref_url :: "'a pool_state_scheme \<Rightarrow> ref \<Rightarrow> string" where
  "ref_url s r \<equiv> url_of (heap s r)"

section \<open>Operations\<close>

text \<open>\<open>&backend.Backend{...}\<close>: a new reference holding the given struct.\<close>

definition alloc :: "backend \<Rightarrow> 'a pool_state_scheme \<Rightarrow> ref \<times> 'a pool_state_scheme" where
  "alloc b s = (fresh s, s\<lparr>heap := (heap s)(fresh s := b), fresh := Suc (fresh s)\<rparr>)"

definition AddBackend :: "ref \<Rightarrow> 'a pool_state_scheme \<Rightarrow> 'a pool_state_scheme" where
  "AddBackend b s =
     (if \<exists>existing \<in> set (backends s). ref_url s existing = ref_url s b then s
      else s\<lparr>backends := backends s @ [b]\<rparr>)"

definition Backends :: "'a pool_state_scheme \<Rightarrow> ref list" where
  "Backends s = backends s"

text \<open>\<open>Remove\<close>'s loop: drop the first element whose URL is the given text.\<close>

fun remove_loop :: "store \<Rightarrow> string \<Rightarrow> ref list \<Rightarrow> (ref list) option" where
  "remove_loop h rawURL [] = None"
| "remove_loop h rawURL (b # bs) =
     (if url_of (h b) = rawURL then Some bs
      else map_option ((#) b) (remove_loop h rawURL bs))"

definition Remove :: "string \<Rightarrow> 'a pool_state_scheme \<Rightarrow> bool \<times> 'a pool_state_scheme" where
  "Remove rawURL s =
     (case remove_loop (heap s) rawURL (backends s) of
        None \<Rightarrow> (False, s)
      | Some bs \<Rightarrow> (True, s\<lparr>backends := bs\<rparr>))"

fun find_url :: "store \<Rightarrow> string \<Rightarrow> ref list \<Rightarrow> ref option" where
  "find_url h u [] = None"
| "find_url h u (b # bs) = (if url_of (h b) = u then Some b else find_url h u bs)"

definition MarkBackendStatus :: "url \<Rightarrow> bool \<Rightarrow> 'a pool_state_scheme \<Rightarrow> 'a pool_state_scheme" where
  "MarkBackendStatus backendURL v s =
     (case find_url (heap s) (URLString backendURL) (backends s) of
        None \<Rightarrow> s
      | Some b \<Rightarrow> s\<lparr>heap := modify b (SetAlive v) (heap s),
                     mets := SetBackendUp (URLString backendURL) v (mets s)\<rparr>)"

definition BackendURLs :: "'a pool_state_scheme \<Rightarrow> string list" where
  "BackendURLs s = map (ref_url s) (backends s)"

section \<open>The invariant and the view as a map\<close>

definition pool_wf :: "'a pool_state_scheme \<Rightarrow> bool" where
  "pool_wf s \<longleftrightarrow> distinct (BackendURLs s) \<and> (\<forall>r \<in> set (backends s). r < fresh s)"

definition view :: "'a pool_state_scheme \<Rightarrow> string \<Rightarrow> backend option" where
  "view s u = map_option (heap s) (find_url (heap s) u (backends s))"

lemma pool_wf_distinct: "pool_wf s \<Longrightarrow> distinct (backends s)"
  by (auto simp: pool_wf_def BackendURLs_def distinct_map)

lemma find_url_Some:
  "find_url h u bs = Some r \<Longrightarrow> r \<in> set bs \<and> url_of (h r) = u"
  by (induction bs) (auto split: if_splits)

lemma find_url_None: "find_url h u bs = None \<longleftrightarrow> u \<notin> set (map (\<lambda>r. url_of (h r)) bs)"
  by (induction bs) auto

lemma find_url_append:
  "find_url h u (xs @ ys) = (case find_url h u xs of None \<Rightarrow> find_url h u ys | Some r \<Rightarrow> Some r)"
  by (induction xs) auto

lemma find_url_cong:
  "(\<And>r. r \<in> set bs \<Longrightarrow> url_of (h r) = url_of (h' r)) \<Longrightarrow> find_url h u bs = find_url h' u bs"
  by (induction bs) auto

lemma find_url_mem:
  assumes "distinct (map (\<lambda>r. url_of (h r)) bs)" and "r \<in> set bs"
  shows "find_url h (url_of (h r)) bs = Some r"
  using assms by (induction bs) (auto simp: rev_image_eqI)

lemma remove_loop_None: "remove_loop h u bs = None \<longleftrightarrow> u \<notin> set (map (\<lambda>r. url_of (h r)) bs)"
  by (induction bs) auto

lemma remove_loop_filter:
  assumes "distinct (map (\<lambda>r. url_of (h r)) bs)" and "remove_loop h u bs = Some bs'"
  shows "bs' = filter (\<lambda>r. url_of (h r) \<noteq> u) bs"
  using assms
proof (induction bs arbitrary: bs')
  case (Cons b bs)
  show ?case
  proof (cases "url_of (h b) = u")
    case True
    with Cons.prems(1) have "\<forall>r \<in> set bs. url_of (h r) \<noteq> u" by (auto simp: image_iff)
    then show ?thesis using True Cons.prems(2) by (auto simp: filter_id_conv)
  next
    case False
    then show ?thesis using Cons by auto
  qed
qed simp

lemma find_url_filter:
  "find_url h u (filter (\<lambda>r. url_of (h r) \<noteq> v) bs) = (if u = v then None else find_url h u bs)"
  by (induction bs) auto

lemma Remove_backends:
  assumes "pool_wf s"
  shows "snd (Remove u s) = s\<lparr>backends := filter (\<lambda>r. ref_url s r \<noteq> u) (backends s)\<rparr>"
    and "fst (Remove u s) \<longleftrightarrow> u \<in> set (BackendURLs s)"
proof -
  have d: "distinct (map (ref_url s) (backends s))"
    using assms by (simp add: pool_wf_def BackendURLs_def)
  have "snd (Remove u s) = s\<lparr>backends := filter (\<lambda>r. ref_url s r \<noteq> u) (backends s)\<rparr> \<and>
    (fst (Remove u s) \<longleftrightarrow> u \<in> set (BackendURLs s))"
  proof (cases "remove_loop (heap s) u (backends s)")
    case None
    then have "u \<notin> set (BackendURLs s)" by (simp add: remove_loop_None BackendURLs_def)
    then have "filter (\<lambda>r. ref_url s r \<noteq> u) (backends s) = backends s"
      by (auto simp: filter_id_conv BackendURLs_def)
    with None \<open>u \<notin> set (BackendURLs s)\<close> show ?thesis by (simp add: Remove_def)
  next
    case (Some bs)
    then have "u \<in> set (BackendURLs s)"
      by (metis BackendURLs_def option.discI remove_loop_None)
    with Some remove_loop_filter [OF d Some] show ?thesis by (simp add: Remove_def)
  qed
  then show "snd (Remove u s) = s\<lparr>backends := filter (\<lambda>r. ref_url s r \<noteq> u) (backends s)\<rparr>"
    and "fst (Remove u s) \<longleftrightarrow> u \<in> set (BackendURLs s)" by simp_all
qed

section \<open>Preservation of the invariant\<close>

lemma pool_unique:
  "pool_wf s \<Longrightarrow> x \<in> set (backends s) \<Longrightarrow> y \<in> set (backends s) \<Longrightarrow> ref_url s x = ref_url s y \<Longrightarrow> x = y"
  by (auto simp: pool_wf_def BackendURLs_def distinct_map inj_on_def)

lemma pool_wf_Remove [wf_intros]: "pool_wf s \<Longrightarrow> pool_wf (snd (Remove u s))"
  by (simp add: Remove_backends(1)) (auto simp: pool_wf_def BackendURLs_def distinct_map inj_on_def)

lemma pool_wf_AddBackend [wf_intros]: "pool_wf s \<Longrightarrow> r < fresh s \<Longrightarrow> pool_wf (AddBackend r s)"
  by (auto simp: pool_wf_def AddBackend_def BackendURLs_def)

lemma pool_wf_alloc [wf_intros]: "pool_wf s \<Longrightarrow> pool_wf (snd (alloc b s))"
proof -
  assume wf: "pool_wf s"
  then have "fresh s \<notin> set (backends s)" by (auto simp: pool_wf_def)
  then have "map (\<lambda>r. url_of (((heap s)(fresh s := b)) r)) (backends s) = map (ref_url s) (backends s)"
    by (intro map_cong) auto
  with wf show ?thesis
    by (simp add: pool_wf_def alloc_def BackendURLs_def less_Suc_eq del: fun_upd_apply map_eq_conv)
qed

text \<open>Store writes that keep the URLs keep the pool as it is.\<close>

lemma pool_wf_modify [wf_intros]:
  assumes "pool_wf s" and "\<And>b. URL (f b) = URL b"
  shows "pool_wf (s\<lparr>heap := modify r f (heap s)\<rparr>)"
proof -
  have "url_of (modify r f (heap s) x) = ref_url s x" for x
    using assms(2) by (simp add: modify_def)
  with assms(1) show ?thesis by (simp add: pool_wf_def BackendURLs_def)
qed

lemma pool_wf_mets [simp]: "pool_wf (s\<lparr>mets := m\<rparr>) = pool_wf s"
  by (simp add: pool_wf_def BackendURLs_def)

lemma pool_wf_MarkBackendStatus [wf_intros]: "pool_wf s \<Longrightarrow> pool_wf (MarkBackendStatus u v s)"
proof (cases "find_url (heap s) (URLString u) (backends s)")
  case None
  then show "pool_wf s \<Longrightarrow> ?thesis" by (simp add: MarkBackendStatus_def)
next
  case (Some r)
  assume "pool_wf s"
  then have "pool_wf (s\<lparr>heap := modify r (SetAlive v) (heap s)\<rparr>)"
    by (rule pool_wf_modify) (simp add: heap_simps)
  then have "pool_wf (s\<lparr>heap := modify r (SetAlive v) (heap s)\<rparr>
      \<lparr>mets := SetBackendUp (URLString u) v (mets s)\<rparr>)"
    by (simp only: pool_wf_mets)
  with Some show ?thesis by (simp add: MarkBackendStatus_def)
qed

section \<open>The pool as a map\<close>

text \<open>A backend enters the pool as a freshly allocated struct.\<close>

definition register :: "backend \<Rightarrow> 'a pool_state_scheme \<Rightarrow> 'a pool_state_scheme" where
  "register b s = (case alloc b s of (r, s') \<Rightarrow> AddBackend r s')"

lemma view_register:
  assumes "pool_wf s"
  shows "view (register b s) =
    (case view s (url_of b) of None \<Rightarrow> (view s)(url_of b \<mapsto> b) | Some _ \<Rightarrow> view s)"
proof -
  let ?h = "(heap s)(fresh s := b)"
  have nf: "r \<in> set (backends s) \<Longrightarrow> r \<noteq> fresh s" for r
    using assms by (auto simp: pool_wf_def)
  have same: "find_url ?h u (backends s) = find_url (heap s) u (backends s)" for u
    using nf by (intro find_url_cong) simp
  have old: "map_option ?h (find_url ?h u (backends s)) = view s u" for u
    unfolding same view_def
    by (cases "find_url (heap s) u (backends s)") (use nf find_url_Some in fastforce)+
  have mem: "(\<exists>e \<in> set (backends s). url_of (?h e) = url_of b) \<longleftrightarrow> view s (url_of b) \<noteq> None"
    using find_url_None [of ?h "url_of b" "backends s"] unfolding same
    by (simp add: view_def image_iff) (metis nf)
  have reg: "register b s = s\<lparr>heap := ?h, fresh := Suc (fresh s),
      backends := (if view s (url_of b) = None then backends s @ [fresh s] else backends s)\<rparr>"
    using mem by (simp add: register_def alloc_def AddBackend_def)
  have new: "map_option ?h (find_url ?h u (backends s @ [fresh s])) =
      (case view s u of None \<Rightarrow> if u = url_of b then Some b else None | Some e \<Rightarrow> Some e)" for u
    unfolding find_url_append old [symmetric] same by (auto split: option.split)
  show ?thesis
  proof (cases "view s (url_of b)")
    case None
    then have "view (register b s) u = ((view s)(url_of b \<mapsto> b)) u" for u
      using new [of u] unfolding reg view_def [of "_\<lparr>backends := _\<rparr>"]
      by (simp del: fun_upd_apply add: fun_upd_def split: option.split)
    then show ?thesis using None by auto
  next
    case (Some e)
    then have "view (register b s) u = view s u" for u
      using old [of u] unfolding reg view_def [of "_\<lparr>backends := _\<rparr>"] by simp
    then show ?thesis using Some by auto
  qed
qed

lemma pool_wf_register [wf_intros]: "pool_wf s \<Longrightarrow> pool_wf (register b s)"
proof -
  assume "pool_wf s"
  then have "pool_wf (snd (alloc b s))" by (rule pool_wf_alloc)
  then have "pool_wf (AddBackend (fst (alloc b s)) (snd (alloc b s)))"
    by (rule pool_wf_AddBackend) (simp add: alloc_def)
  then show ?thesis by (simp add: register_def case_prod_unfold)
qed

lemma view_Remove: "pool_wf s \<Longrightarrow> view (snd (Remove u s)) = (view s)(u := None)"
  by (rule ext) (simp add: Remove_backends(1) view_def find_url_filter)

lemma dom_view: "dom (view s) = set (BackendURLs s)"
proof -
  have "view s u \<noteq> None \<longleftrightarrow> u \<in> set (BackendURLs s)" for u
    using find_url_None [of "heap s" u "backends s"]
    by (simp only: view_def option.map_disc_iff BackendURLs_def) blast
  then show ?thesis by blast
qed

lemma Remove_found: "pool_wf s \<Longrightarrow> fst (Remove u s) \<longleftrightarrow> view s u \<noteq> None"
  using dom_view [of s] by (auto simp: Remove_backends(2))

lemma view_mem:
  "pool_wf s \<Longrightarrow> r \<in> set (backends s) \<Longrightarrow> view s (ref_url s r) = Some (heap s r)"
  by (simp add: view_def find_url_mem pool_wf_def BackendURLs_def)

lemma view_SomeE:
  assumes "view s u = Some b"
  obtains r where "r \<in> set (backends s)" and "heap s r = b" and "url_of b = u"
  using assms find_url_Some [of "heap s" u "backends s"] by (auto simp: view_def)

lemma view_modify:
  assumes wf: "pool_wf s" and r: "r \<in> set (backends s)" and f: "\<And>b. URL (f b) = URL b"
  shows "view (s\<lparr>heap := modify r f (heap s)\<rparr>) = (view s)(ref_url s r \<mapsto> f (heap s r))"
proof
  fix u
  have eq: "find_url (modify r f (heap s)) u (backends s) = find_url (heap s) u (backends s)"
    by (rule find_url_cong) (simp add: modify_def f)
  show "view (s\<lparr>heap := modify r f (heap s)\<rparr>) u = ((view s)(ref_url s r \<mapsto> f (heap s r))) u"
  proof (cases "find_url (heap s) u (backends s)")
    case None
    then have "u \<noteq> ref_url s r" using r by (auto simp: find_url_None)
    with None eq show ?thesis by (simp add: view_def)
  next
    case (Some x)
    have "find_url (heap s) (ref_url s r) (backends s) = Some r"
      using wf r by (simp add: find_url_mem pool_wf_def BackendURLs_def)
    then have "u = ref_url s r \<longleftrightarrow> x = r"
      using Some find_url_Some [OF Some] by (metis option.inject)
    with Some eq show ?thesis
      by (cases "x = r") (simp_all add: view_def modify_def)
  qed
qed

lemma view_mets [simp]: "view (s\<lparr>mets := m\<rparr>) = view s"
  by (rule ext) (simp add: view_def)

lemma view_MarkBackendStatus:
  assumes "pool_wf s"
  shows "view (MarkBackendStatus u v s) =
    (case view s (URLString u) of None \<Rightarrow> view s
     | Some b \<Rightarrow> (view s)(URLString u \<mapsto> SetAlive v b))"
proof (cases "find_url (heap s) (URLString u) (backends s)")
  case None
  then show ?thesis by (simp add: MarkBackendStatus_def view_def)
next
  case (Some r)
  then have r: "r \<in> set (backends s)" "ref_url s r = URLString u" by (auto dest: find_url_Some)
  have "view (s\<lparr>heap := modify r (SetAlive v) (heap s)\<rparr>) = (view s)(URLString u \<mapsto> SetAlive v (heap s r))"
    using view_modify [OF assms r(1), of "SetAlive v"] r(2) by (simp add: heap_simps)
  moreover have "MarkBackendStatus u v s = s\<lparr>heap := modify r (SetAlive v) (heap s)\<rparr>
      \<lparr>mets := SetBackendUp (URLString u) v (mets s)\<rparr>"
    using Some by (simp add: MarkBackendStatus_def)
  ultimately show ?thesis using Some by (simp only: view_mets) (simp add: view_def)
qed

section \<open>The contract\<close>

locale url_map =
  fixes look :: "'s \<Rightarrow> string \<Rightarrow> 'e option"
    and put :: "'e \<Rightarrow> 's \<Rightarrow> 's"
    and del :: "string \<Rightarrow> 's \<Rightarrow> bool \<times> 's"
    and key :: "'e \<Rightarrow> string"
    and inv :: "'s \<Rightarrow> bool"
  assumes look_put:
    "inv s \<Longrightarrow> look (put e s) = (case look s (key e) of None \<Rightarrow> (look s)(key e \<mapsto> e) | Some _ \<Rightarrow> look s)"
    and look_del: "inv s \<Longrightarrow> look (snd (del u s)) = (look s)(u := None)"
    and del_found: "inv s \<Longrightarrow> fst (del u s) \<longleftrightarrow> look s u \<noteq> None"
    and inv_put: "inv s \<Longrightarrow> inv (put e s)"
    and inv_del: "inv s \<Longrightarrow> inv (snd (del u s))"
begin

lemma put_idem: "inv s \<Longrightarrow> look s (key e) \<noteq> None \<Longrightarrow> look (put e s) = look s"
  by (auto simp: look_put)

lemma put_del_roundtrip:
  "inv s \<Longrightarrow> look s (key e) = None \<Longrightarrow> look (snd (del (key e) (put e s))) = look s"
  by (rule ext) (simp add: look_del look_put inv_put)

lemma del_twice: "inv s \<Longrightarrow> \<not> fst (del u (snd (del u s)))"
  by (simp add: del_found inv_del look_del)

lemma inv_put_all: "inv s \<Longrightarrow> inv (fold put es s)"
  by (induction es arbitrary: s) (simp_all add: inv_put)

lemma inv_del_all: "inv s \<Longrightarrow> inv (fold (\<lambda>u s. snd (del u s)) us s)"
  by (induction us arbitrary: s) (simp_all add: inv_del)

text \<open>Adding a list: earlier entries and entries already there win.\<close>

lemma look_put_all:
  "inv s \<Longrightarrow> look (fold put es s) = map_of (map (\<lambda>e. (key e, e)) es) ++ look s"
proof (induction es arbitrary: s)
  case (Cons e es)
  then have "look (fold put es (put e s)) = map_of (map (\<lambda>e. (key e, e)) es) ++ look (put e s)"
    by (simp add: inv_put)
  moreover have "\<dots> = map_of (map (\<lambda>e. (key e, e)) (e # es)) ++ look s"
    using Cons.prems by (intro ext) (simp add: look_put map_add_def split: option.split)
  ultimately show ?case by (simp only: fold_Cons o_apply)
qed simp

lemma look_del_all: "inv s \<Longrightarrow> look (fold (\<lambda>u s. snd (del u s)) us s) = look s |` (- set us)"
proof (induction us arbitrary: s)
  case (Cons u us)
  then show ?case by (auto simp: inv_del look_del restrict_map_def fun_eq_iff)
next
  case Nil
  show ?case by (simp add: restrict_map_def)
qed

end

interpretation pool: url_map view register Remove url_of pool_wf
  by unfold_locales (auto simp: view_register view_Remove Remove_found intro: wf_intros)

section \<open>Properties\<close>

text \<open>
  C19: the pool refines a map from URL text to backend. Registering a new backend adds it under
  its own URL unless that URL is taken, in which case nothing changes; removing a URL deletes
  exactly that entry and reports whether it was there; and marking a status changes only the
  \<open>alive\<close> flag of the backend with that URL. All three keep the pool free of duplicates.
\<close>

theorem pool_refines_map:
  assumes "pool_wf s"
  shows "view (register b s) =
      (case view s (url_of b) of None \<Rightarrow> (view s)(url_of b \<mapsto> b) | Some _ \<Rightarrow> view s) \<and>
    view (snd (Remove u s)) = (view s)(u := None) \<and>
    (fst (Remove u s) \<longleftrightarrow> u \<in> set (BackendURLs s)) \<and>
    view (MarkBackendStatus w v s) =
      (case view s (URLString w) of None \<Rightarrow> view s
       | Some b' \<Rightarrow> (view s)(URLString w \<mapsto> SetAlive v b')) \<and>
    pool_wf (register b s) \<and> pool_wf (snd (Remove u s)) \<and> pool_wf (MarkBackendStatus w v s)"
  using pool.look_put [OF assms] pool.look_del [OF assms] pool.del_found [OF assms]
    pool.inv_put [OF assms] pool.inv_del [OF assms] view_MarkBackendStatus [OF assms]
    pool_wf_MarkBackendStatus [OF assms] Remove_backends(2) [OF assms]
  by simp


theorem pool_refines_map_witness:
  "view (register (http_backend ''a'' 1)
     \<lparr>heap = (\<lambda>_. http_backend ''unused'' 1), fresh = 0, mets = metrics0, backends = []\<rparr>)
   = [''http://a'' \<mapsto> http_backend ''a'' 1]"
proof -
  let ?s = "\<lparr>heap = (\<lambda>_. http_backend ''unused'' 1), fresh = 0, mets = metrics0, backends = []\<rparr>"
  have "pool_wf ?s" by (simp add: pool_wf_def BackendURLs_def)
  note added = pool_refines_map [OF this, of "http_backend ''a'' 1", THEN conjunct1]
  have "view ?s = Map.empty" by (rule ext) (simp add: view_def)
  moreover have "url_of (http_backend ''a'' 1) = ''http://a''" by (simp add: http_backend_def http_url_def)
  ultimately show ?thesis using added by (simp only: option.case)
qed

end
