(* ===== verification/Algos.thy ===== *)
theory Algos
  imports Backends
begin

text \<open>
  Package \<open>internal/algo\<close>: the \<open>Algorithm\<close> interface and its three implementations. A call
  of \<open>Next\<close> reads the store of backends and returns the chosen reference, if any, and the
  algorithm's new state. The interface's contract is the locale \<open>selection\<close>, interpreted on
  each implementation and on their dispatch; \<open>fair_selection\<close> adds the fairness contract of
  the two rotating algorithms.

  \<open>Next\<close> runs while other goroutines may change liveness; here the store is constant during
  one call, so both liveness checks of the weighted algorithm agree.
\<close>

section \<open>Round robin\<close>

text \<open>The counter is a \<open>uint64\<close>. The loop runs \<open>i\<close> from 0 to \<open>n - 1\<close>.\<close>

record round_robin =
  current :: "64 word"

function rr_loop :: "store \<Rightarrow> ref list \<Rightarrow> nat \<Rightarrow> nat \<Rightarrow> nat option" where
  "rr_loop h backends next i =
     (if i < length backends then
        let idx = (next + i) mod length backends in
        if IsAlive (h (backends ! idx)) then Some idx else rr_loop h backends next (Suc i)
      else None)"
  by pat_completeness auto
termination
  by (relation "measure (\<lambda>(h, bs, nxt, i). length bs - i)") auto

declare rr_loop.simps [simp del]

definition RoundRobin_Next :: "round_robin \<Rightarrow> store \<Rightarrow> ref list \<Rightarrow> ref option \<times> round_robin" where
  "RoundRobin_Next rr h backends =
     (let n = length backends in
      if n = 0 then (None, rr)
      else
        let rr = rr\<lparr>current := current rr + 1\<rparr>;
            nxt = unat (current rr mod of_nat n)
        in case rr_loop h backends nxt 0 of
             None \<Rightarrow> (None, rr)
           | Some idx \<Rightarrow> (Some (backends ! idx), rr\<lparr>current := of_nat idx\<rparr>))"

section \<open>Least connections\<close>

fun lc_loop :: "store \<Rightarrow> ref list \<Rightarrow> ref option \<Rightarrow> int \<Rightarrow> ref option" where
  "lc_loop h [] best bestConns = best"
| "lc_loop h (b # bs) best bestConns =
     (if \<not> IsAlive (h b) then lc_loop h bs best bestConns
      else
        let conns = ActiveConns (h b) in
        if best = None \<or> conns < bestConns then lc_loop h bs (Some b) conns
        else lc_loop h bs best bestConns)"

definition LeastConnections_Next :: "store \<Rightarrow> ref list \<Rightarrow> ref option" where
  "LeastConnections_Next h backends = lc_loop h backends None 0"

section \<open>Smooth weighted round robin\<close>

record weighted_round_robin =
  currentWeights :: "string \<rightharpoonup> int"

definition NewWeightedRoundRobin :: weighted_round_robin where
  "NewWeightedRoundRobin = \<lparr>currentWeights = Map.empty\<rparr>"

definition prune :: "store \<Rightarrow> ref list \<Rightarrow> (string \<rightharpoonup> int) \<Rightarrow> (string \<rightharpoonup> int)" where
  "prune h backends m = m |` set (map (\<lambda>b. url_of (h b)) backends)"

definition effective_weight :: "backend \<Rightarrow> int" where
  "effective_weight b = (let weight = GetWeight b in if weight \<le> 0 then 1 else weight)"

fun accumulate :: "store \<Rightarrow> ref list \<Rightarrow> (string \<rightharpoonup> int) \<Rightarrow> int \<Rightarrow> (string \<rightharpoonup> int) \<times> int" where
  "accumulate h [] m totalWeight = (m, totalWeight)"
| "accumulate h (b # bs) m totalWeight =
     (if \<not> IsAlive (h b) then accumulate h bs m totalWeight
      else
        let weight = effective_weight (h b); key = url_of (h b) in
        accumulate h bs (m(key \<mapsto> int64 (lookup0 m key + weight))) (int64 (totalWeight + weight)))"

fun heaviest :: "store \<Rightarrow> (string \<rightharpoonup> int) \<Rightarrow> ref list \<Rightarrow> ref option \<Rightarrow> ref option" where
  "heaviest h m [] best = best"
| "heaviest h m (b # bs) best =
     (if \<not> IsAlive (h b) then heaviest h m bs best
      else
        case best of
          None \<Rightarrow> heaviest h m bs (Some b)
        | Some c \<Rightarrow>
            if lookup0 m (url_of (h b)) > lookup0 m (url_of (h c)) then heaviest h m bs (Some b)
            else heaviest h m bs best)"

definition WeightedRoundRobin_Next ::
  "weighted_round_robin \<Rightarrow> store \<Rightarrow> ref list \<Rightarrow> ref option \<times> weighted_round_robin" where
  "WeightedRoundRobin_Next w h backends =
     (case accumulate h backends (prune h backends (currentWeights w)) 0 of
        (m, totalWeight) \<Rightarrow>
          (case heaviest h m backends None of
             None \<Rightarrow> (None, w\<lparr>currentWeights := m\<rparr>)
           | Some best \<Rightarrow>
               let key = url_of (h best) in
               (Some best, w\<lparr>currentWeights := m(key \<mapsto> int64 (lookup0 m key - totalWeight))\<rparr>)))"

section \<open>The interface\<close>

datatype algorithm =
    RoundRobin round_robin
  | LeastConnections
  | WeightedRoundRobin weighted_round_robin

fun Name :: "algorithm \<Rightarrow> string" where
  "Name (RoundRobin rr) = ''round_robin''"
| "Name LeastConnections = ''least_connections''"
| "Name (WeightedRoundRobin w) = ''weighted_round_robin''"

definition New :: "string \<Rightarrow> string + algorithm" where
  "New name =
     (if name = ''round_robin'' then Inr (RoundRobin \<lparr>current = 0\<rparr>)
      else if name = ''least_connections'' then Inr LeastConnections
      else if name = ''weighted_round_robin'' then Inr (WeightedRoundRobin NewWeightedRoundRobin)
      else Inl (''unknown algorithm '' @ name
             @ '': must be round_robin, least_connections, or weighted_round_robin''))"

fun Next :: "algorithm \<Rightarrow> store \<Rightarrow> ref list \<Rightarrow> ref option \<times> algorithm" where
  "Next (RoundRobin rr) h bs = map_prod id RoundRobin (RoundRobin_Next rr h bs)"
| "Next LeastConnections h bs = (LeastConnections_Next h bs, LeastConnections)"
| "Next (WeightedRoundRobin w) h bs = map_prod id WeightedRoundRobin (WeightedRoundRobin_Next w h bs)"

lemma New_Name: "\<exists>a'. New (Name a) = Inr a' \<and> Name a' = Name a"
  by (cases a) (simp_all add: New_def)

lemma New_valid: "New name = Inr a \<Longrightarrow> Name a = name"
  by (auto simp: New_def split: if_splits)

lemma New_error: "(\<exists>e. New name = Inl e) \<longleftrightarrow>
    name \<notin> {''round_robin'', ''least_connections'', ''weighted_round_robin''}"
  by (auto simp: New_def)

lemma Name_Next: "Name (snd (Next a h bs)) = Name a"
  by (cases a) (simp_all add: map_prod_def case_prod_unfold)

section \<open>The contracts\<close>

text \<open>A sequence of calls on an unchanging store.\<close>

fun picks :: "('a \<Rightarrow> store \<Rightarrow> ref list \<Rightarrow> ref option \<times> 'a) \<Rightarrow> nat \<Rightarrow> 'a \<Rightarrow> store \<Rightarrow> ref list
    \<Rightarrow> ref option list \<times> 'a" where
  "picks nxt 0 a h bs = ([], a)"
| "picks nxt (Suc k) a h bs =
     (case nxt a h bs of (r, a') \<Rightarrow> case picks nxt k a' h bs of (rs, a'') \<Rightarrow> (r # rs, a''))"

lemma picks_add:
  "picks nxt (j + k) a h bs =
     (case picks nxt j a h bs of (rs, a') \<Rightarrow> case picks nxt k a' h bs of (rs', a'') \<Rightarrow> (rs @ rs', a''))"
  by (induction j arbitrary: a) (auto split: prod.splits)

lemma picks_Suc_snoc:
  "picks nxt (Suc k) a h bs =
     (case picks nxt k a h bs of (rs, a') \<Rightarrow> case nxt a' h bs of (r, a'') \<Rightarrow> (rs @ [r], a''))"
  using picks_add [of nxt k 1 a h bs] by (auto split: prod.splits)

lemma length_picks [simp]: "length (fst (picks nxt k a h bs)) = k"
  by (induction k arbitrary: a) (simp_all add: case_prod_unfold)

definition alive_of :: "store \<Rightarrow> ref list \<Rightarrow> ref list" where
  "alive_of h bs = filter (\<lambda>b. IsAlive (h b)) bs"

lemma set_alive_of: "r \<in> set (alive_of h bs) \<longleftrightarrow> r \<in> set bs \<and> IsAlive (h r)"
  by (auto simp: alive_of_def)

locale selection =
  fixes nxt :: "'a \<Rightarrow> store \<Rightarrow> ref list \<Rightarrow> ref option \<times> 'a"
  assumes nxt_sound: "fst (nxt a h bs) = Some r \<Longrightarrow> r \<in> set (alive_of h bs)"
    and nxt_complete: "alive_of h bs \<noteq> [] \<Longrightarrow> fst (nxt a h bs) \<noteq> None"
begin

lemma nxt_None_iff: "fst (nxt a h bs) = None \<longleftrightarrow> (\<forall>r \<in> set bs. \<not> IsAlive (h r))"
proof
  assume "fst (nxt a h bs) = None"
  then have "alive_of h bs = []" using nxt_complete by metis
  then show "\<forall>r \<in> set bs. \<not> IsAlive (h r)" by (simp add: alive_of_def filter_empty_conv)
next
  assume "\<forall>r \<in> set bs. \<not> IsAlive (h r)"
  then show "fst (nxt a h bs) = None"
    using nxt_sound by (metis not_Some_eq set_alive_of)
qed

lemma picks_all_Some:
  "alive_of h bs \<noteq> [] \<Longrightarrow> set (fst (picks nxt k a h bs)) \<subseteq> Some ` set (alive_of h bs)"
proof (induction k arbitrary: a)
  case (Suc k)
  obtain r a' where step: "nxt a h bs = (r, a')" by fastforce
  then have "r \<in> Some ` set (alive_of h bs)"
    using nxt_sound [of a h bs] nxt_complete [OF Suc.prems, of a] by auto
  with Suc.IH [OF Suc.prems, of a'] step show ?case by (simp add: case_prod_unfold)
qed simp

end

text \<open>
  Fairness: from a steady state, one period of calls picks every alive backend exactly as often
  as its share and ends in a steady state again.
\<close>

locale fair_selection = selection +
  fixes steady :: "'a \<Rightarrow> store \<Rightarrow> ref list \<Rightarrow> bool"
    and share :: "store \<Rightarrow> ref \<Rightarrow> nat"
  assumes period:
    "steady a h bs \<Longrightarrow> n = sum_list (map (share h) (alive_of h bs)) \<Longrightarrow>
       steady (snd (picks nxt n a h bs)) h bs \<and>
       (\<forall>b \<in> set (alive_of h bs). count_list (fst (picks nxt n a h bs)) (Some b) = share h b)"
begin

lemma periods:
  assumes "steady a h bs" and n: "n = sum_list (map (share h) (alive_of h bs))"
    and b: "b \<in> set (alive_of h bs)"
  shows "count_list (fst (picks nxt (k * n) a h bs)) (Some b) = k * share h b"
  using assms(1)
proof (induction k arbitrary: a)
  case (Suc k)
  obtain rs a' where run: "picks nxt n a h bs = (rs, a')" by fastforce
  with period [OF Suc.prems n] b have "steady a' h bs" "count_list rs (Some b) = share h b" by auto
  moreover have "picks nxt (Suc k * n) a h bs =
      (case picks nxt (k * n) a' h bs of (rs', a'') \<Rightarrow> (rs @ rs', a''))"
    using run by (simp add: picks_add)
  ultimately show ?case using Suc.IH [of a'] by (simp add: case_prod_unfold)
qed simp

end

section \<open>Round robin: which backend comes next\<close>

lemma find_hd_filter: "find P xs = (case filter P xs of [] \<Rightarrow> None | x # _ \<Rightarrow> Some x)"
  by (induction xs) auto

lemma filter_rotate:
  "filter P (rotate k xs) = rotate (length (filter P (take (k mod length xs) xs))) (filter P xs)"
proof -
  have "filter P xs = filter P (take (k mod length xs) xs) @ filter P (drop (k mod length xs) xs)"
    by (metis append_take_drop_id filter_append)
  then show ?thesis by (metis filter_append rotate_append rotate_drop_take)
qed

lemma count_list_distinct: "distinct xs \<Longrightarrow> count_list xs x = (if x \<in> set xs then 1 else 0)"
  by (induction xs) auto

text \<open>The positions of the alive backends, in order.\<close>

definition alive_idx :: "store \<Rightarrow> ref list \<Rightarrow> nat list" where
  "alive_idx h bs = filter (\<lambda>i. IsAlive (h (bs ! i))) [0..<length bs]"

lemma alive_of_idx: "alive_of h bs = map ((!) bs) (alive_idx h bs)"
proof -
  have "alive_of h (map ((!) bs) [0..<length bs]) = map ((!) bs) (alive_idx h bs)"
    by (simp add: alive_of_def alive_idx_def filter_map comp_def)
  then show ?thesis by (simp add: map_nth)
qed

lemma alive_idx_simps [simp]:
  "distinct (alive_idx h bs)"
  "i \<in> set (alive_idx h bs) \<longleftrightarrow> i < length bs \<and> IsAlive (h (bs ! i))"
  by (auto simp: alive_idx_def)

lemma rr_loop_find:
  "i \<le> length bs \<Longrightarrow> rr_loop h bs k i =
     find (\<lambda>idx. IsAlive (h (bs ! idx))) (map (\<lambda>j. (k + j) mod length bs) [i..<length bs])"
proof (induction h bs k i rule: rr_loop.induct)
  case (1 h bs k i)
  show ?case
  proof (cases "i < length bs")
    case True
    then have "[i..<length bs] = i # [Suc i..<length bs]" by (rule upt_conv_Cons)
    with True 1 show ?thesis by (simp add: rr_loop.simps [of h bs k i] Let_def)
  next
    case False
    then show ?thesis by (simp add: rr_loop.simps [of h bs k i])
  qed
qed

lemma map_mod_rotate: "map (\<lambda>j. (k + j) mod n) [0..<n] = rotate k [0..<n]"
  by (rule nth_equalityI) (auto simp: nth_rotate)

lemma rr_loop_rotate:
  "rr_loop h bs k 0 =
     (if alive_idx h bs = [] then None
      else Some (hd (rotate (length (filter (\<lambda>i. IsAlive (h (bs ! i))) [0..<k mod length bs]))
                   (alive_idx h bs))))"
proof (cases "bs = []")
  case True
  then show ?thesis by (simp add: rr_loop_find alive_idx_def)
next
  case False
  then have "take (k mod length bs) [0..<length bs] = [0..<k mod length bs]"
    by (simp add: take_upt)
  then have "filter (\<lambda>i. IsAlive (h (bs ! i))) (rotate k [0..<length bs]) =
      rotate (length (filter (\<lambda>i. IsAlive (h (bs ! i))) [0..<k mod length bs])) (alive_idx h bs)"
    by (simp add: filter_rotate alive_idx_def)
  then show ?thesis
    by (auto simp: rr_loop_find map_mod_rotate find_hd_filter split: list.split)
qed

text \<open>The number of alive positions up to the \<open>j\<close>-th one is \<open>j + 1\<close>.\<close>

lemma alive_rank:
  assumes "j < length (alive_idx h bs)" and x: "x = alive_idx h bs ! j"
  shows "length (filter (\<lambda>i. IsAlive (h (bs ! i))) [0..<Suc x]) = Suc j"
proof -
  let ?P = "\<lambda>i. IsAlive (h (bs ! i))"
  have "x \<in> set (alive_idx h bs)" unfolding x using assms(1) by (rule nth_mem)
  then have n: "x < length bs" "?P x" by simp_all
  then have "[0..<length bs] = [0..<x] @ x # [Suc x..<length bs]"
    using upt_add_eq_append [of 0 x "length bs - x"] by (simp add: upt_conv_Cons)
  then have split: "alive_idx h bs = filter ?P [0..<x] @ x # filter ?P [Suc x..<length bs]"
    using n(2) by (simp add: alive_idx_def)
  then have "alive_idx h bs ! length (filter ?P [0..<x]) = x" by simp
  moreover have "length (filter ?P [0..<x]) < length (alive_idx h bs)" by (simp add: split)
  ultimately have "length (filter ?P [0..<x]) = j"
    using assms nth_eq_iff_index_eq [OF alive_idx_simps(1)] by metis
  with n(2) show ?thesis by simp
qed

lemma rr_loop_next:
  assumes "j < length (alive_idx h bs)"
  shows "rr_loop h bs (Suc (alive_idx h bs ! j) mod length bs) 0 =
    Some (alive_idx h bs ! (Suc j mod length (alive_idx h bs)))"
proof -
  let ?L = "alive_idx h bs" and ?n = "length bs"
  let ?x = "?L ! j" and ?r = "\<lambda>k. length (filter (\<lambda>i. IsAlive (h (bs ! i))) [0..<k])"
  have ne: "?L \<noteq> []" using assms by auto
  have x: "?x < ?n" using nth_mem [OF assms] by simp
  have "?r (Suc ?x mod ?n) mod length ?L = Suc j mod length ?L"
  proof (cases "Suc ?x = ?n")
    case True
    then have "Suc j = length ?L"
      using alive_rank [OF assms refl] by (simp add: alive_idx_def)
    with True show ?thesis by simp
  next
    case False
    with x alive_rank [OF assms refl] show ?thesis by simp
  qed
  then show ?thesis using ne by (simp add: rr_loop_rotate hd_rotate_conv_nth)
qed

lemma rr_loop_props:
  "rr_loop h bs k 0 = Some i \<Longrightarrow> i < length bs \<and> IsAlive (h (bs ! i))"
proof -
  assume "rr_loop h bs k 0 = Some i"
  then have "alive_idx h bs \<noteq> []"
    and "i = hd (rotate (length (filter (\<lambda>i. IsAlive (h (bs ! i))) [0..<k mod length bs])) (alive_idx h bs))"
    by (simp_all add: rr_loop_rotate split: if_splits)
  then have "i \<in> set (alive_idx h bs)"
    by (metis hd_in_set rotate_is_Nil_conv set_rotate)
  then show ?thesis by simp
qed

interpretation rr: selection RoundRobin_Next
proof
  fix a h bs r
  assume "fst (RoundRobin_Next a h bs) = Some r"
  then show "r \<in> set (alive_of h bs)"
    by (auto simp: RoundRobin_Next_def Let_def set_alive_of dest: rr_loop_props
        split: if_splits option.splits)
next
  fix a h bs
  assume "alive_of h bs \<noteq> []"
  then have "alive_idx h bs \<noteq> []" by (simp add: alive_of_idx)
  then have "rr_loop h bs k 0 \<noteq> None" for k by (simp add: rr_loop_rotate)
  moreover have "bs \<noteq> []" using \<open>alive_of h bs \<noteq> []\<close> by (auto simp: alive_of_def)
  ultimately show "fst (RoundRobin_Next a h bs) \<noteq> None"
    by (auto simp: RoundRobin_Next_def Let_def split: option.splits)
qed

text \<open>
  The sequence of picks from any counter value: after the first pick, at some alive position,
  the following ones go round the alive positions in order.
\<close>

definition at_index :: "round_robin \<Rightarrow> store \<Rightarrow> ref list \<Rightarrow> nat \<Rightarrow> bool" where
  "at_index rr h bs j \<longleftrightarrow> length bs < 2 ^ 63 \<and> j < length (alive_idx h bs) \<and>
     current rr = of_nat (alive_idx h bs ! j)"

lemma rr_first:
  assumes "length bs < 2 ^ 63" and "alive_idx h bs \<noteq> []"
  obtains j rr' where "RoundRobin_Next rr h bs = (Some (bs ! (alive_idx h bs ! j)), rr')"
    and "at_index rr' h bs j"
proof -
  let ?k = "unat ((current rr + 1) mod of_nat (length bs))"
  have bs: "length bs \<noteq> 0" using assms(2) by (auto simp: alive_idx_def)
  obtain i where i: "rr_loop h bs ?k 0 = Some i" using assms(2) by (simp add: rr_loop_rotate)
  then have "i \<in> set (alive_idx h bs)" using rr_loop_props by simp
  then obtain j where j: "j < length (alive_idx h bs)" "alive_idx h bs ! j = i"
    by (auto simp: in_set_conv_nth simp del: alive_idx_simps)
  show ?thesis
  proof (rule that)
    show "RoundRobin_Next rr h bs = (Some (bs ! (alive_idx h bs ! j)), rr\<lparr>current := of_nat i\<rparr>)"
      using i j bs by (simp add: RoundRobin_Next_def Let_def)
    show "at_index (rr\<lparr>current := of_nat i\<rparr>) h bs j"
      using j assms(1) by (simp add: at_index_def)
  qed
qed

lemma rr_step:
  assumes "at_index rr h bs j"
  obtains rr' where
    "RoundRobin_Next rr h bs = (Some (bs ! (alive_idx h bs ! (Suc j mod length (alive_idx h bs)))), rr')"
    and "at_index rr' h bs (Suc j mod length (alive_idx h bs))"
proof -
  let ?L = "alive_idx h bs" and ?n = "length bs"
  from assms have n: "?n < 2 ^ 63" and j: "j < length ?L" and c: "current rr = of_nat (?L ! j)"
    by (simp_all add: at_index_def)
  have x: "?L ! j < ?n" using nth_mem [OF j] by simp
  then have "unat (of_nat (Suc (?L ! j)) :: 64 word) = Suc (?L ! j)"
    using n by (subst unat_of_nat) simp
  moreover have "unat (of_nat ?n :: 64 word) = ?n"
    using n by (subst unat_of_nat) simp
  ultimately have "unat ((current rr + 1) mod of_nat ?n) = Suc (?L ! j) mod ?n"
    by (simp add: c unat_mod add.commute)
  then have "RoundRobin_Next rr h bs =
      (Some (bs ! (?L ! (Suc j mod length ?L))), rr\<lparr>current := of_nat (?L ! (Suc j mod length ?L))\<rparr>)"
    using x by (auto simp: RoundRobin_Next_def Let_def rr_loop_next [OF j])
  then show ?thesis
    by (rule that) (use n j in \<open>auto simp: at_index_def intro: mod_less_divisor\<close>)
qed

lemma rr_picks:
  assumes "at_index rr h bs j"
  shows "fst (picks RoundRobin_Next k rr h bs) =
      map (\<lambda>i. Some (bs ! (alive_idx h bs ! ((j + Suc i) mod length (alive_idx h bs))))) [0..<k]
    \<and> (0 < k \<longrightarrow> at_index (snd (picks RoundRobin_Next k rr h bs)) h bs ((j + k) mod length (alive_idx h bs)))"
    (is "?P k")
proof (induction k)
  case 0
  show ?case by simp
next
  case (Suc k)
  let ?L = "alive_idx h bs"
  obtain rs rr' where run: "picks RoundRobin_Next k rr h bs = (rs, rr')" by fastforce
  have at: "at_index rr' h bs ((j + k) mod length ?L)"
    using Suc.IH run assms by (cases k) (auto simp: at_index_def)
  obtain rr'' where "RoundRobin_Next rr' h bs =
      (Some (bs ! (?L ! (Suc ((j + k) mod length ?L) mod length ?L))), rr'')"
    and "at_index rr'' h bs (Suc ((j + k) mod length ?L) mod length ?L)"
    using rr_step [OF at] by blast
  then show ?case
    using Suc.IH run by (simp only: picks_Suc_snoc) (simp add: mod_Suc_eq)
qed

text \<open>A list read cyclically, for as many steps as it is long, is a rotation of it.\<close>

lemma map_cycle: "map (\<lambda>i. f (xs ! ((j + i) mod length xs))) [0..<length xs] = map f (rotate j xs)"
  by (rule nth_equalityI) (auto simp: nth_rotate)

definition rr_steady :: "round_robin \<Rightarrow> store \<Rightarrow> ref list \<Rightarrow> bool" where
  "rr_steady rr h bs \<longleftrightarrow> distinct bs \<and> (\<exists>j. at_index rr h bs j)"

definition rr_share :: "store \<Rightarrow> ref \<Rightarrow> nat" where
  "rr_share h b = 1"

lemma distinct_alive_of: "distinct bs \<Longrightarrow> distinct (alive_of h bs)"
  by (simp add: alive_of_def)

lemma rr_window:
  assumes "distinct bs" and "at_index rr h bs j"
    and b: "b \<in> set (alive_of h bs)" and m: "m = length (alive_of h bs)"
  shows "count_list (fst (picks RoundRobin_Next m rr h bs)) (Some b) = 1"
proof -
  let ?L = "alive_idx h bs"
  have m': "m = length ?L" using m by (simp add: alive_of_idx)
  have "fst (picks RoundRobin_Next m rr h bs) = map (\<lambda>i. Some (bs ! i)) (rotate (Suc j) ?L)"
    using rr_picks [OF assms(2), of m]
      map_cycle [where f = "\<lambda>i. Some (bs ! i)" and xs = ?L and j = "Suc j"] by (simp add: m')
  also have "\<dots> = rotate (Suc j) (map Some (alive_of h bs))"
    by (simp add: alive_of_idx rotate_map comp_def)
  finally have eq: "fst (picks RoundRobin_Next m rr h bs) = rotate (Suc j) (map Some (alive_of h bs))" .
  moreover have "distinct (rotate (Suc j) (map Some (alive_of h bs)))"
    using distinct_alive_of [OF assms(1)] by (simp add: distinct_map del: rotate_Suc)
  ultimately show ?thesis using b by (simp add: count_list_distinct del: rotate_Suc)
qed

interpretation rr: fair_selection RoundRobin_Next rr_steady rr_share
proof
  fix a h bs n
  assume st: "rr_steady a h bs" and "n = sum_list (map (rr_share h) (alive_of h bs))"
  then have n: "n = length (alive_of h bs)"
    by (induction "alive_of h bs") (simp_all add: rr_share_def [abs_def] sum_list_triv)
  from st obtain j where d: "distinct bs" and j: "at_index a h bs j" by (auto simp: rr_steady_def)
  then have "0 < n" using n by (auto simp: at_index_def alive_of_idx)
  then have "rr_steady (snd (picks RoundRobin_Next n a h bs)) h bs"
    using rr_picks [OF j, of n] d by (auto simp: rr_steady_def)
  then show "rr_steady (snd (picks RoundRobin_Next n a h bs)) h bs \<and>
    (\<forall>b \<in> set (alive_of h bs). count_list (fst (picks RoundRobin_Next n a h bs)) (Some b) = rr_share h b)"
    using rr_window [OF d j _ n] by (simp add: rr_share_def)
qed

section \<open>Least connections: the first alive backend with the fewest connections\<close>

lemma arg_min_list_le: "x \<in> set xs \<Longrightarrow> f (arg_min_list f xs) \<le> (f x :: int)"
  by (cases "xs = []") (auto simp: f_arg_min_list_f)

lemma arg_min_list_Cons:
  "xs \<noteq> [] \<Longrightarrow> arg_min_list f (x # xs) =
     (if f x \<le> f (arg_min_list f xs) then x else arg_min_list (f :: 'a \<Rightarrow> int) xs)"
  by (cases xs) (simp_all add: Let_def)

lemma arg_min_list_skip:
  assumes "f c \<le> (f b :: int)"
  shows "arg_min_list f (c # b # xs) = arg_min_list f (c # xs)"
proof (cases "xs = []")
  case True
  with assms show ?thesis by simp
next
  case False
  with assms show ?thesis by (simp add: arg_min_list_Cons)
qed

lemma arg_min_list_drop:
  assumes "(f b :: int) < f c"
  shows "arg_min_list f (c # b # xs) = arg_min_list f (b # xs)"
  using assms arg_min_list_le [of b "b # xs" f] by (simp add: arg_min_list_Cons del: arg_min_list.simps)

lemma lc_loop_best:
  "lc_loop h bs (Some c) (ActiveConns (h c)) =
     Some (arg_min_list (\<lambda>b. ActiveConns (h b)) (c # alive_of h bs))"
proof (induction bs arbitrary: c)
  case (Cons b bs)
  show ?case
  proof (cases "IsAlive (h b) \<and> ActiveConns (h b) < ActiveConns (h c)")
    case True
    then show ?thesis
      using Cons.IH [of b] arg_min_list_drop [of "\<lambda>b. ActiveConns (h b)" b c "alive_of h bs"]
      by (simp add: alive_of_def)
  next
    case False
    then show ?thesis
      using Cons.IH [of c] arg_min_list_skip [of "\<lambda>b. ActiveConns (h b)" c b "alive_of h bs"]
      by (auto simp: alive_of_def Let_def)
  qed
qed (simp add: alive_of_def)

lemma LeastConnections_eq:
  "LeastConnections_Next h bs =
     (if alive_of h bs = [] then None
      else Some (arg_min_list (\<lambda>b. ActiveConns (h b)) (alive_of h bs)))"
proof -
  have "lc_loop h bs None k =
     (if alive_of h bs = [] then None
      else Some (arg_min_list (\<lambda>b. ActiveConns (h b)) (alive_of h bs)))" for k
    by (induction bs) (simp_all add: alive_of_def [symmetric] lc_loop_best Let_def,
        simp_all add: alive_of_def)
  then show ?thesis by (simp add: LeastConnections_Next_def)
qed

interpretation lc: selection "\<lambda>(_::unit) h bs. (LeastConnections_Next h bs, ())"
  by unfold_locales (auto simp: LeastConnections_eq arg_min_list_in split: if_splits)

section \<open>Weighted round robin: the weights after one call\<close>

definition cw :: "weighted_round_robin \<Rightarrow> store \<Rightarrow> ref \<Rightarrow> int" where
  "cw w h b = lookup0 (currentWeights w) (url_of (h b))"

definition total_weight :: "store \<Rightarrow> ref list \<Rightarrow> int" where
  "total_weight h bs = sum_list (map (\<lambda>b. effective_weight (h b)) (alive_of h bs))"

lemma effective_weight_pos: "0 < effective_weight b"
  by (simp add: effective_weight_def Let_def)

lemma accumulate_total:
  "is_int64 t \<Longrightarrow> snd (accumulate h bs m t) = int64 (t + total_weight h bs)"
  by (induction bs arbitrary: m t)
    (simp_all add: total_weight_def alive_of_def Let_def int64_id algebra_simps)

lemma accumulate_out:
  "k \<notin> (\<lambda>b. url_of (h b)) ` set (alive_of h bs) \<Longrightarrow> lookup0 (fst (accumulate h bs m t)) k = lookup0 m k"
  by (induction bs arbitrary: m t) (auto simp: alive_of_def Let_def)

lemma accumulate_in:
  assumes "distinct (map (\<lambda>b. url_of (h b)) bs)" and "b \<in> set (alive_of h bs)"
  shows "lookup0 (fst (accumulate h bs m t)) (url_of (h b)) =
    int64 (lookup0 m (url_of (h b)) + effective_weight (h b))"
  using assms
proof (induction bs arbitrary: m t)
  case (Cons a bs)
  show ?case
  proof (cases "b = a")
    case True
    then have "url_of (h a) \<notin> (\<lambda>b. url_of (h b)) ` set (alive_of h bs)"
      using Cons.prems(1) by (auto simp: alive_of_def)
    with True Cons.prems(2) show ?thesis
      by (simp add: Let_def accumulate_out set_alive_of)
  next
    case False
    then have b: "b \<in> set (alive_of h bs)"
      using Cons.prems by (auto simp: set_alive_of)
    then have "url_of (h b) \<in> (\<lambda>b. url_of (h b)) ` set bs"
      by (auto simp: set_alive_of)
    then have "url_of (h b) \<noteq> url_of (h a)" using Cons.prems(1) by auto
    with Cons.IH [OF _ b] Cons.prems(1) show ?thesis by (simp add: Let_def)
  qed
qed (simp add: alive_of_def)

lemma dom_accumulate:
  "dom (fst (accumulate h bs m t)) \<subseteq> dom m \<union> set (map (\<lambda>b. url_of (h b)) bs)"
proof (induction bs arbitrary: m t)
  case (Cons a bs)
  show ?case
  proof (cases "IsAlive (h a)")
    case True
    let ?m = "m(url_of (h a) \<mapsto> int64 (lookup0 m (url_of (h a)) + effective_weight (h a)))"
    have "dom (fst (accumulate h bs ?m (int64 (t + effective_weight (h a))))) \<subseteq>
        dom ?m \<union> set (map (\<lambda>b. url_of (h b)) bs)" by (rule Cons.IH)
    with True show ?thesis by (auto simp: Let_def)
  next
    case False
    with Cons.IH [of m t] show ?thesis by auto
  qed
qed simp

lemma heaviest_None: "heaviest h m bs best = None \<longleftrightarrow> best = None \<and> alive_of h bs = []"
  by (induction bs arbitrary: best) (auto simp: alive_of_def split: option.splits)

lemma heaviest_Some:
  assumes "heaviest h m bs best = Some r"
  shows "r \<in> set_option best \<union> set (alive_of h bs) \<and>
    (\<forall>b \<in> set_option best \<union> set (alive_of h bs). lookup0 m (url_of (h b)) \<le> lookup0 m (url_of (h r)))"
  using assms
proof (induction bs arbitrary: best)
  case (Cons a bs)
  show ?case
  proof (cases "IsAlive (h a)")
    case False
    then show ?thesis using Cons by (simp add: alive_of_def)
  next
    case True
    then show ?thesis
      using Cons.prems Cons.IH [of "Some a"] Cons.IH [of best]
      by (fastforce simp: alive_of_def split: option.splits if_splits)
  qed
qed (simp add: alive_of_def)

interpretation wrr: selection WeightedRoundRobin_Next
proof
  fix a h bs r
  assume "fst (WeightedRoundRobin_Next a h bs) = Some r"
  then show "r \<in> set (alive_of h bs)"
    by (auto simp: WeightedRoundRobin_Next_def Let_def dest!: heaviest_Some
        split: prod.splits option.splits)
next
  fix a h bs
  assume "alive_of h bs \<noteq> []"
  then show "fst (WeightedRoundRobin_Next a h bs) \<noteq> None"
    by (auto simp: WeightedRoundRobin_Next_def Let_def heaviest_None split: prod.splits option.splits)
qed

interpretation any: selection Next
proof
  fix a h bs r
  assume "fst (Next a h bs) = Some r"
  then show "r \<in> set (alive_of h bs)"
    using rr.nxt_sound wrr.nxt_sound lc.nxt_sound by (cases a) auto
next
  fix a h bs
  assume "alive_of h bs \<noteq> []"
  then show "fst (Next a h bs) \<noteq> None"
    using rr.nxt_complete wrr.nxt_complete lc.nxt_complete by (cases a) auto
qed

section \<open>Weighted round robin: no drift, no overflow, exact shares\<close>

text \<open>
  The invariant of a rotation over an unchanging set of alive backends: the current weights of
  the alive backends sum to 0 and none is below \<open>1 - W\<close>, where \<open>W\<close> is their total weight. The
  bound \<open>W * n < 2 ^ 63\<close> keeps every intermediate value inside Go's \<open>int\<close>.
\<close>

definition wrr_range :: "store \<Rightarrow> ref list \<Rightarrow> bool" where
  "wrr_range h bs \<longleftrightarrow> distinct (map (\<lambda>b. url_of (h b)) bs) \<and> alive_of h bs \<noteq> [] \<and>
     total_weight h bs * int (length (alive_of h bs)) < 2 ^ 63"

definition wrr_inv :: "weighted_round_robin \<Rightarrow> store \<Rightarrow> ref list \<Rightarrow> bool" where
  "wrr_inv w h bs \<longleftrightarrow> wrr_range h bs \<and>
     (\<forall>b \<in> set (alive_of h bs). 1 - total_weight h bs \<le> cw w h b) \<and>
     sum_list (map (cw w h) (alive_of h bs)) = 0"

lemma sum_list_lower:
  assumes "\<And>y. y \<in> set xs \<Longrightarrow> l \<le> (f y :: int)"
  shows "l * int (length xs) \<le> sum_list (map f xs)"
  using assms by (induction xs) (force simp: algebra_simps)+

lemma sum_list_single_upper:
  assumes "x \<in> set xs" and "\<And>y. y \<in> set xs \<Longrightarrow> l \<le> (f y :: int)"
  shows "f x + l * (int (length xs) - 1) \<le> sum_list (map f xs)"
proof -
  obtain ys zs where xs: "xs = ys @ x # zs" using assms(1) by (auto simp: in_set_conv_decomp)
  have "l * int (length ys) \<le> sum_list (map f ys)" "l * int (length zs) \<le> sum_list (map f zs)"
    using assms(2) xs by (auto intro: sum_list_lower)
  then show ?thesis by (simp add: xs algebra_simps)
qed

lemma total_weight_pos: "alive_of h bs \<noteq> [] \<Longrightarrow> 0 < total_weight h bs"
  using sum_list_lower [of "alive_of h bs" 1 "\<lambda>b. effective_weight (h b)"]
    effective_weight_pos [THEN zless_imp_add1_zle]
  by (cases "alive_of h bs") (auto simp: total_weight_def)

lemma wrr_inv_bounds:
  assumes "wrr_inv w h bs" and b: "b \<in> set (alive_of h bs)"
  shows "- (2 ^ 63) \<le> cw w h b" and "cw w h b + effective_weight (h b) < 2 ^ 63"
    and "total_weight h bs < 2 ^ 63"
proof -
  let ?A = "alive_of h bs" and ?W = "total_weight h bs"
  have inv: "\<And>y. y \<in> set ?A \<Longrightarrow> 1 - ?W \<le> cw w h y" "sum_list (map (cw w h) ?A) = 0"
    and r: "?W * int (length ?A) < 2 ^ 63" and ne: "?A \<noteq> []"
    using assms(1) by (auto simp: wrr_inv_def wrr_range_def)
  have W: "0 < ?W" using ne by (rule total_weight_pos)
  have n: "1 \<le> int (length ?A)" using ne by (cases ?A) auto
  have le: "?W \<le> ?W * int (length ?A)" using W n by simp
  with r show *: "?W < 2 ^ 63" by simp
  with inv(1) [OF b] show "- (2 ^ 63) \<le> cw w h b" by simp
  have "cw w h b + (1 - ?W) * (int (length ?A) - 1) \<le> 0"
    using sum_list_single_upper [where f = "cw w h", OF b inv(1)] inv(2) by simp
  then have "cw w h b + ?W \<le> ?W * int (length ?A)" using n by (simp add: algebra_simps)
  moreover have "effective_weight (h b) \<le> ?W"
    using sum_list_single_upper [where f = "\<lambda>b. effective_weight (h b)" and l = 0, OF b
      less_imp_le [OF effective_weight_pos]] by (simp add: total_weight_def)
  ultimately show "cw w h b + effective_weight (h b) < 2 ^ 63" using r by simp
qed

lemma sum_list_if_single:
  "distinct xs \<Longrightarrow> r \<in> set xs \<Longrightarrow>
     sum_list (map (\<lambda>b. f b - (if b = r then W else 0)) xs) = sum_list (map f xs) - (W :: int)"
proof (induction xs)
  case (Cons x xs)
  then show ?case
  proof (cases "x = r")
    case True
    with Cons.prems have "map (\<lambda>b. f b - (if b = r then W else 0)) xs = map f xs" by auto
    with True show ?thesis by (simp del: map_eq_conv)
  qed auto
qed simp

lemma wrr_distinct: "wrr_range h bs \<Longrightarrow> distinct (alive_of h bs)"
  by (auto simp: wrr_range_def alive_of_def distinct_map)

lemma wrr_url_inj:
  "wrr_range h bs \<Longrightarrow> b \<in> set (alive_of h bs) \<Longrightarrow> r \<in> set (alive_of h bs) \<Longrightarrow>
     url_of (h b) = url_of (h r) \<longleftrightarrow> b = r"
  by (auto simp: wrr_range_def set_alive_of distinct_map inj_on_def)

lemma wrr_step:
  assumes inv: "wrr_inv w h bs"
  obtains r w' where "WeightedRoundRobin_Next w h bs = (Some r, w')" and "r \<in> set (alive_of h bs)"
    and "\<And>b. b \<in> set (alive_of h bs) \<Longrightarrow>
      cw w' h b = cw w h b + effective_weight (h b) - (if b = r then total_weight h bs else 0)"
    and "wrr_inv w' h bs"
proof -
  let ?A = "alive_of h bs" and ?W = "total_weight h bs"
  let ?acc = "accumulate h bs (prune h bs (currentWeights w)) 0"
  let ?m = "fst ?acc"
  have rng: "wrr_range h bs" and d: "distinct (map (\<lambda>b. url_of (h b)) bs)" and ne: "?A \<noteq> []"
    using inv by (auto simp: wrr_inv_def wrr_range_def)
  have W: "0 < ?W" using ne by (rule total_weight_pos)
  have W64: "?W < 2 ^ 63" using wrr_inv_bounds(3) [OF inv] ne by (meson list.set_sel(1))
  have total: "snd ?acc = ?W"
    using W W64 by (simp add: accumulate_total int64_id is_int64_def)
  have add: "lookup0 ?m (url_of (h b)) = cw w h b + effective_weight (h b)" if b: "b \<in> set ?A" for b
  proof -
    have "lookup0 (prune h bs (currentWeights w)) (url_of (h b)) = cw w h b"
      using b by (auto simp: prune_def lookup0_restrict cw_def set_alive_of)
    moreover have "is_int64 (cw w h b + effective_weight (h b))"
      using wrr_inv_bounds [OF inv b] effective_weight_pos [of "h b"] by (simp add: is_int64_def)
    ultimately show ?thesis using accumulate_in [OF d b] by (simp add: int64_id)
  qed
  obtain r where r: "heaviest h ?m bs None = Some r"
    using ne heaviest_None by (metis not_Some_eq)
  then have rA: "r \<in> set ?A" and max: "\<And>b. b \<in> set ?A \<Longrightarrow>
      lookup0 ?m (url_of (h b)) \<le> lookup0 ?m (url_of (h r))"
    using heaviest_Some [OF r] by auto
  define w' where "w' = w\<lparr>currentWeights := ?m(url_of (h r) \<mapsto> int64 (lookup0 ?m (url_of (h r)) - ?W))\<rparr>"
  have nx: "WeightedRoundRobin_Next w h bs = (Some r, w')"
    using r total by (simp add: WeightedRoundRobin_Next_def w'_def Let_def case_prod_unfold)
  have sum: "sum_list (map (\<lambda>b. cw w h b + effective_weight (h b)) ?A) = ?W"
    using inv by (simp add: wrr_inv_def sum_list_addf total_weight_def)
  have pos: "1 \<le> cw w h r + effective_weight (h r)"
  proof (rule ccontr)
    assume "\<not> ?thesis"
    then have "cw w h b + effective_weight (h b) \<le> 0" if "b \<in> set ?A" for b
      using max [OF that] add [OF that] add [OF rA] by simp
    then have "sum_list (map (\<lambda>b. cw w h b + effective_weight (h b)) ?A) \<le> 0"
      by (intro sum_list_nonpos) auto
    with sum W show False by simp
  qed
  have "is_int64 (cw w h r + effective_weight (h r) - ?W)"
    using pos W64 W wrr_inv_bounds(2) [OF inv rA] by (simp add: is_int64_def)
  then have cw': "cw w' h b = cw w h b + effective_weight (h b) - (if b = r then ?W else 0)"
    if "b \<in> set ?A" for b
    using add [OF that] add [OF rA] wrr_url_inj [OF rng that rA]
    by (simp add: cw_def w'_def int64_id)
  have "sum_list (map (cw w' h) ?A) =
      sum_list (map (\<lambda>b. cw w h b + effective_weight (h b) - (if b = r then ?W else 0)) ?A)"
    using cw' by (intro arg_cong [where f = sum_list] map_cong) auto
  also have "\<dots> = 0" using sum_list_if_single [OF wrr_distinct [OF rng] rA] sum by simp
  finally have sum': "sum_list (map (cw w' h) ?A) = 0" .
  have "1 - ?W \<le> cw w' h b" if "b \<in> set ?A" for b
    using cw' [OF that] pos inv that effective_weight_pos [of "h b"] by (auto simp: wrr_inv_def)
  with sum' rng have "wrr_inv w' h bs" by (simp add: wrr_inv_def)
  with nx rA cw' show ?thesis by (rule that)
qed

lemma wrr_run:
  assumes "wrr_inv w h bs"
  shows "wrr_inv (snd (picks WeightedRoundRobin_Next k w h bs)) h bs \<and>
    (\<forall>b \<in> set (alive_of h bs). cw (snd (picks WeightedRoundRobin_Next k w h bs)) h b =
       cw w h b + int k * effective_weight (h b)
       - total_weight h bs * int (count_list (fst (picks WeightedRoundRobin_Next k w h bs)) (Some b)))"
  using assms
proof (induction k arbitrary: w)
  case (Suc k)
  obtain r w' where step: "WeightedRoundRobin_Next w h bs = (Some r, w')" and "wrr_inv w' h bs"
    and "\<And>b. b \<in> set (alive_of h bs) \<Longrightarrow>
      cw w' h b = cw w h b + effective_weight (h b) - (if b = r then total_weight h bs else 0)"
    using wrr_step [OF Suc.prems] by metis
  with Suc.IH [of w'] show ?case by (auto simp: case_prod_unfold algebra_simps)
qed simp

definition wrr_steady :: "weighted_round_robin \<Rightarrow> store \<Rightarrow> ref list \<Rightarrow> bool" where
  "wrr_steady w h bs \<longleftrightarrow> wrr_range h bs \<and> (\<forall>b \<in> set (alive_of h bs). cw w h b = 0)"

definition wrr_share :: "store \<Rightarrow> ref \<Rightarrow> nat" where
  "wrr_share h b = nat (effective_weight (h b))"

lemma wrr_steady_inv: "wrr_steady w h bs \<Longrightarrow> wrr_inv w h bs"
proof -
  assume st: "wrr_steady w h bs"
  then have "map (cw w h) (alive_of h bs) = map (\<lambda>_. 0) (alive_of h bs)"
    by (simp add: wrr_steady_def)
  moreover have "0 < total_weight h bs"
    using st by (auto simp: wrr_steady_def wrr_range_def intro: total_weight_pos)
  ultimately show ?thesis using st
    by (auto simp: wrr_steady_def wrr_inv_def simp del: map_eq_conv)
qed

lemma wrr_share_total: "int (sum_list (map (wrr_share h) (alive_of h bs))) = total_weight h bs"
proof -
  have "int (sum_list (map (wrr_share h) xs)) = sum_list (map (\<lambda>b. effective_weight (h b)) xs)" for xs
    by (induction xs) (simp_all add: wrr_share_def effective_weight_pos less_imp_le)
  then show ?thesis by (simp add: total_weight_def)
qed

text \<open>After \<open>W\<close> calls every current weight is a multiple of \<open>W\<close> above \<open>- W\<close>, and they sum to 0.\<close>

lemma wrr_period:
  assumes st: "wrr_steady w h bs" and k: "int k = total_weight h bs"
    and b: "b \<in> set (alive_of h bs)"
  shows "int (count_list (fst (picks WeightedRoundRobin_Next k w h bs)) (Some b)) = effective_weight (h b)"
proof -
  let ?A = "alive_of h bs" and ?W = "total_weight h bs"
  let ?run = "picks WeightedRoundRobin_Next k w h bs"
  let ?d = "\<lambda>b. effective_weight (h b) - int (count_list (fst ?run) (Some b))"
  have W: "0 < ?W" using st by (auto simp: wrr_steady_def wrr_range_def intro: total_weight_pos)
  note run = wrr_run [OF wrr_steady_inv [OF st], of k]
  have eq: "cw (snd ?run) h a = ?W * ?d a" if "a \<in> set ?A" for a
    using run st that k by (simp add: wrr_steady_def algebra_simps)
  have nonneg: "0 \<le> ?d a" if "a \<in> set ?A" for a
  proof -
    have "- ?W < ?W * ?d a" using run eq [OF that] that by (auto simp: wrr_inv_def)
    then have "?W * (- 1) < ?W * ?d a" by simp
    then have "- 1 < ?d a" using W mult_less_cancel_left_pos by blast
    then show ?thesis by simp
  qed
  have "sum_list (map (\<lambda>a. ?W * ?d a) ?A) = sum_list (map (cw (snd ?run) h) ?A)"
    using eq by (intro arg_cong [where f = sum_list] map_cong) auto
  then have "?W * sum_list (map ?d ?A) = 0"
    using run by (simp add: wrr_inv_def sum_list_const_mult)
  then have "sum_list (map ?d ?A) = 0" using W by simp
  then have "?d b = 0"
    using sum_list_nonneg_eq_0_iff [of "map ?d ?A"] nonneg b
    by (metis (no_types, lifting) image_eqI image_iff list.set_map)
  then show ?thesis by simp
qed

interpretation wrr: fair_selection WeightedRoundRobin_Next wrr_steady wrr_share
proof
  fix w h bs n
  assume st: "wrr_steady w h bs" and "n = sum_list (map (wrr_share h) (alive_of h bs))"
  then have n: "int n = total_weight h bs" by (simp add: wrr_share_total)
  have count: "int (count_list (fst (picks WeightedRoundRobin_Next n w h bs)) (Some b)) = effective_weight (h b)"
    if "b \<in> set (alive_of h bs)" for b using wrr_period [OF st n that] .
  then have "cw (snd (picks WeightedRoundRobin_Next n w h bs)) h b = 0" if "b \<in> set (alive_of h bs)" for b
    using wrr_run [OF wrr_steady_inv [OF st], of n] st that n by (simp add: wrr_steady_def)
  then have "wrr_steady (snd (picks WeightedRoundRobin_Next n w h bs)) h bs"
    using st by (simp add: wrr_steady_def)
  moreover have "count_list (fst (picks WeightedRoundRobin_Next n w h bs)) (Some b) = wrr_share h b"
    if "b \<in> set (alive_of h bs)" for b
    using count [OF that] by (simp add: wrr_share_def)
  ultimately show "wrr_steady (snd (picks WeightedRoundRobin_Next n w h bs)) h bs \<and>
    (\<forall>b \<in> set (alive_of h bs).
       count_list (fst (picks WeightedRoundRobin_Next n w h bs)) (Some b) = wrr_share h b)" by blast
qed

lemma rr_picks_any:
  assumes n: "length bs < 2 ^ 63" and ne: "alive_idx h bs \<noteq> []"
  obtains j where "\<And>k. fst (picks RoundRobin_Next k rr h bs) =
    map (\<lambda>i. Some (bs ! (alive_idx h bs ! ((j + i) mod length (alive_idx h bs))))) [0..<k]"
proof -
  let ?L = "alive_idx h bs"
  obtain j rr' where first: "RoundRobin_Next rr h bs = (Some (bs ! (?L ! j)), rr')"
    and at: "at_index rr' h bs j" using rr_first [OF n ne] by metis
  have "fst (picks RoundRobin_Next k rr h bs) = map (\<lambda>i. Some (bs ! (?L ! ((j + i) mod length ?L)))) [0..<k]" for k
  proof (cases k)
    case (Suc k')
    have "[0..<Suc k'] = 0 # map Suc [0..<k']" by (simp add: map_Suc_upt upt_conv_Cons)
    moreover have "j mod length ?L = j" using at by (simp add: at_index_def)
    ultimately show ?thesis
      using rr_picks [OF at, of k'] first Suc by (simp add: case_prod_unfold comp_def)
  qed simp
  then show ?thesis by (rule that)
qed

section \<open>Properties\<close>

text \<open>
  C11: whichever algorithm is configured and whatever its state, \<open>Next\<close> returns an alive
  backend of the list it is given, returns nil exactly when none of them is alive, and stays
  the algorithm it was. The names accepted by \<open>New\<close> are exactly the three documented ones and
  \<open>Name\<close> returns the name the algorithm was made with.
\<close>

theorem Next_selects_alive:
  "(\<forall>r. fst (Next a h bs) = Some r \<longrightarrow> r \<in> set bs \<and> IsAlive (h r)) \<and>
   (fst (Next a h bs) = None \<longleftrightarrow> (\<forall>r \<in> set bs. \<not> IsAlive (h r))) \<and>
   Name (snd (Next a h bs)) = Name a \<and>
   (\<forall>name a'. New name = Inr a' \<longrightarrow> Name a' = name) \<and>
   ((\<exists>e. New name = Inl e) \<longleftrightarrow>
      name \<notin> {''round_robin'', ''least_connections'', ''weighted_round_robin''})"
  using any.nxt_sound [of a h bs] any.nxt_None_iff [of a h bs] Name_Next [of a h bs]
    New_valid New_error [of name] set_alive_of [of _ h bs] by blast

theorem Next_selects_alive_witness:
  "fst (Next (RoundRobin \<lparr>current = 7\<rparr>) (\<lambda>_. http_backend ''a'' 1) [0]) = Some 0"
proof -
  let ?n = "fst (Next (RoundRobin \<lparr>current = 7\<rparr>) (\<lambda>_. http_backend ''a'' 1) [0])"
  have "IsAlive (http_backend ''a'' 1)" by (simp add: IsAlive_def http_backend_def)
  then have "?n \<noteq> None"
    using Next_selects_alive [of "RoundRobin \<lparr>current = 7\<rparr>" "\<lambda>_. http_backend ''a'' 1" "[0]" "[]"] by auto
  moreover have "?n = Some r \<Longrightarrow> r = 0" for r
    using Next_selects_alive [of "RoundRobin \<lparr>current = 7\<rparr>" "\<lambda>_. http_backend ''a'' 1" "[0]" "[]"] by auto
  ultimately show ?thesis by blast
qed

text \<open>
  C12: round robin is fair from any counter value, the wrap-around of the \<open>uint64\<close> included, and
  with any set of dead backends: after any number \<open>s\<close> of calls, the next \<open>m\<close> calls, \<open>m\<close> the
  number of alive backends, pick each alive backend exactly once.
\<close>

theorem RoundRobin_fair:
  assumes "distinct bs" and "length bs < 2 ^ 63"
    and "b \<in> set (alive_of h bs)" and "m = length (alive_of h bs)"
  shows "count_list (drop s (fst (picks RoundRobin_Next (s + m) rr h bs))) (Some b) = 1"
proof -
  let ?L = "alive_idx h bs"
  have "?L \<noteq> []" using assms(3) by (auto simp: alive_of_idx)
  then obtain j where seq: "\<And>k. fst (picks RoundRobin_Next k rr h bs) =
      map (\<lambda>i. Some (bs ! (?L ! ((j + i) mod length ?L)))) [0..<k]"
    using rr_picks_any [OF assms(2)] by metis
  have "drop s [0..<s + m] = map (\<lambda>i. s + i) [0..<m]" by (simp add: map_add_upt drop_upt add.commute)
  then have "drop s (fst (picks RoundRobin_Next (s + m) rr h bs)) =
      map (\<lambda>i. Some (bs ! (?L ! ((j + s + i) mod length ?L)))) [0..<length ?L]"
    using assms(4) by (simp add: seq drop_map comp_def add.assoc alive_of_idx)
  also have "\<dots> = rotate (j + s) (map Some (alive_of h bs))"
    using map_cycle [where f = "\<lambda>i. Some (bs ! i)" and xs = ?L and j = "j + s"]
    by (simp add: alive_of_idx rotate_map comp_def)
  finally show ?thesis
    using assms(3) distinct_alive_of [OF assms(1)] by (simp add: count_list_distinct distinct_map)
qed

theorem RoundRobin_fair_witness:
  "count_list (drop 5 (fst (picks RoundRobin_Next (5 + 2) \<lparr>current = - 1\<rparr>
     ((\<lambda>_. http_backend ''a'' 1)(1 := SetAlive False (http_backend ''b'' 1))) [0, 1, 2]))) (Some 2) = 1"
  by (rule RoundRobin_fair) (simp_all add: alive_of_def http_backend_def accessor_defs)

text \<open>
  C13: least connections returns, among the alive backends, the first in registration order of
  those with the fewest active connections, and nil when none is alive.
\<close>

theorem LeastConnections_minimal:
  "(LeastConnections_Next h bs = None \<longleftrightarrow> alive_of h bs = []) \<and>
   (\<forall>r. LeastConnections_Next h bs = Some r \<longrightarrow>
      (\<exists>i < length (alive_of h bs). r = alive_of h bs ! i \<and>
         (\<forall>j < length (alive_of h bs). ActiveConns (h r) \<le> ActiveConns (h (alive_of h bs ! j))) \<and>
         (\<forall>j < i. ActiveConns (h r) < ActiveConns (h (alive_of h bs ! j)))))"
proof -
  have first: "\<exists>i < length xs. arg_min_list f xs = xs ! i \<and> (\<forall>j < i. f (arg_min_list f xs) < f (xs ! j))"
    if "xs \<noteq> []" for xs and f :: "ref \<Rightarrow> int"
    using that
  proof (induction xs)
    case (Cons x xs)
    show ?case
    proof (cases "xs = [] \<or> f x \<le> f (arg_min_list f xs)")
      case True
      then have "arg_min_list f (x # xs) = (x # xs) ! 0" by (cases "xs = []") (simp_all add: arg_min_list_Cons)
      then show ?thesis by blast
    next
      case False
      then obtain i where "i < length xs" "arg_min_list f xs = xs ! i"
        "\<forall>j < i. f (arg_min_list f xs) < f (xs ! j)" using Cons.IH by blast
      with False show ?thesis
        by (intro exI [of _ "Suc i"]) (auto simp: arg_min_list_Cons less_Suc_eq_0_disj)
    qed
  qed simp
  let ?c = "\<lambda>b. ActiveConns (h b)" and ?A = "alive_of h bs"
  have "\<forall>j < length ?A. ?c (arg_min_list ?c ?A) \<le> ?c (?A ! j)"
    by (intro allI impI arg_min_list_le [of _ ?A ?c]) simp
  then show ?thesis
    using first [of ?A ?c] unfolding LeastConnections_eq by (cases "?A = []") auto
qed

theorem LeastConnections_minimal_witness:
  "\<exists>i < length (alive_of (\<lambda>_. http_backend ''a'' 1) [3]). 3 = alive_of (\<lambda>_. http_backend ''a'' 1) [3] ! i"
  using LeastConnections_minimal [of "\<lambda>_. http_backend ''a'' 1" "[3]"]
  by (simp add: LeastConnections_Next_def alive_of_def http_backend_def accessor_defs)

text \<open>
  C10: smooth weighted round robin gives exact shares. From the initial state and with a stable
  set of alive backends of total weight \<open>W\<close>, in \<open>k * W\<close> calls each alive backend is chosen
  exactly \<open>k\<close> times its weight (a weight of 0 or less counting as 1); in any number \<open>n\<close> of calls
  none is ever a full turn ahead of its ideal share \<open>n * weight / W\<close>; and no intermediate value
  leaves the 64-bit range as long as \<open>W\<close> times the number of alive backends does not.
\<close>

theorem WeightedRoundRobin_exact_shares:
  assumes "wrr_range h bs" and b: "b \<in> set (alive_of h bs)"
    and W: "int W = total_weight h bs"
  shows "int (count_list (fst (picks WeightedRoundRobin_Next (k * W) NewWeightedRoundRobin h bs)) (Some b))
      = int k * effective_weight (h b)
    \<and> int W * int (count_list (fst (picks WeightedRoundRobin_Next n NewWeightedRoundRobin h bs)) (Some b))
      < int n * effective_weight (h b) + int W"
proof -
  let ?w = "NewWeightedRoundRobin"
  have st: "wrr_steady ?w h bs"
    using assms(1) by (simp add: wrr_steady_def cw_def NewWeightedRoundRobin_def)
  have "W = sum_list (map (wrr_share h) (alive_of h bs))" using W wrr_share_total [of h bs] by linarith
  then have "count_list (fst (picks WeightedRoundRobin_Next (k * W) ?w h bs)) (Some b) = k * wrr_share h b"
    using wrr.periods [OF st _ b] by simp
  moreover have "int (wrr_share h b) = effective_weight (h b)"
    by (simp add: wrr_share_def effective_weight_pos less_imp_le)
  moreover have "1 - int W \<le> 0 + int n * effective_weight (h b)
      - int W * int (count_list (fst (picks WeightedRoundRobin_Next n ?w h bs)) (Some b))"
    using wrr_run [OF wrr_steady_inv [OF st], of n] b st W by (auto simp: wrr_inv_def wrr_steady_def)
  ultimately show ?thesis by simp
qed

theorem WeightedRoundRobin_exact_shares_witness:
  "int (count_list (fst (picks WeightedRoundRobin_Next (1 * 4) NewWeightedRoundRobin
     ((\<lambda>_. http_backend ''a'' 3)(1 := http_backend ''b'' 0)) [0, 1])) (Some 0)) = 3"
  using WeightedRoundRobin_exact_shares
    [of "(\<lambda>_. http_backend ''a'' 3)(1 := http_backend ''b'' 0)" "[0, 1]" 0 4 1 0]
  by (simp add: wrr_range_def total_weight_def effective_weight_def alive_of_def http_backend_def
      http_url_def accessor_defs)

end
