(* ===== verification/Breakers.thy ===== *)
theory Breakers
  imports Golb_Prelude "HOL-Library.Sublist"
begin

text \<open>
  Package \<open>internal/circuitbreaker\<close>: the per-backend circuit breaker and the registry that
  creates breakers on demand. Every method holds the breaker's mutex for its whole body, so a
  method is one atomic step; the time \<open>time.Now\<close> returns is the argument \<open>now\<close>.

  The locale \<open>admission\<close> is what the proxy relies on: the non-mutating check \<open>Eligible\<close> and
  the consuming call \<open>Allow\<close> agree, and a refusal changes nothing.
\<close>

section \<open>The breaker\<close>

text \<open>\<open>State\<close> is an \<open>int\<close> with three named constants; the fourth constructor is any other value.\<close>

datatype State = Closed | Open | HalfOpen | OtherState int

fun State_String :: "State \<Rightarrow> string" where
  "State_String Closed = ''closed''"
| "State_String Open = ''open''"
| "State_String HalfOpen = ''half-open''"
| "State_String (OtherState _) = ''unknown''"

record cb_config =
  FailureThreshold :: int
  SuccessThreshold :: int
  Timeout :: duration

record breaker =
  state :: State
  failures :: int
  successes :: int
  failureThreshold :: int
  successThreshold :: int
  timeout :: duration
  lastFailure :: instant
  halfOpenPermit :: bool

definition Millisecond :: duration where
  "Millisecond = 1000000"

definition NewBreaker :: "int \<Rightarrow> int \<Rightarrow> duration \<Rightarrow> breaker" where
  "NewBreaker ft st tm =
     \<lparr>state = Closed, failures = 0, successes = 0,
      failureThreshold = (if ft < 1 then 1 else ft),
      successThreshold = (if st < 1 then 1 else st),
      timeout = (if tm < Millisecond then Millisecond else tm),
      lastFailure = 0, halfOpenPermit = False\<rparr>"

text \<open>\<open>CompareAndSwap(true, false)\<close> on the permit.\<close>

definition take_permit :: "breaker \<Rightarrow> bool \<times> breaker" where
  "take_permit b = (halfOpenPermit b, b\<lparr>halfOpenPermit := False\<rparr>)"

definition Allow :: "instant \<Rightarrow> breaker \<Rightarrow> bool \<times> breaker" where
  "Allow now b =
     (case state b of
        Closed \<Rightarrow> (True, b)
      | Open \<Rightarrow>
          if now - lastFailure b \<ge> timeout b
          then take_permit (b\<lparr>state := HalfOpen, halfOpenPermit := True\<rparr>)
          else (False, b)
      | HalfOpen \<Rightarrow> take_permit b
      | OtherState _ \<Rightarrow> (True, b))"

definition RecordSuccess :: "breaker \<Rightarrow> breaker" where
  "RecordSuccess b =
     (case state b of
        HalfOpen \<Rightarrow>
          let b = b\<lparr>successes := int64 (successes b + 1)\<rparr>;
              b = (if successes b \<ge> successThreshold b
                   then b\<lparr>state := Closed, failures := 0, successes := 0\<rparr> else b)
          in b\<lparr>halfOpenPermit := True\<rparr>
      | Closed \<Rightarrow> b\<lparr>failures := 0\<rparr>
      | _ \<Rightarrow> b)"

definition RecordFailure :: "instant \<Rightarrow> breaker \<Rightarrow> breaker" where
  "RecordFailure now b =
     (case state b of
        Closed \<Rightarrow>
          let b = b\<lparr>failures := int64 (failures b + 1)\<rparr> in
          if failures b \<ge> failureThreshold b
          then b\<lparr>state := Open, lastFailure := now, failures := 0, successes := 0\<rparr>
          else b
      | HalfOpen \<Rightarrow> b\<lparr>state := Open, lastFailure := now, failures := 0, successes := 0\<rparr>
      | _ \<Rightarrow> b)"

definition Breaker_State :: "breaker \<Rightarrow> State" where
  "Breaker_State b = state b"

definition Eligible :: "instant \<Rightarrow> breaker \<Rightarrow> bool" where
  "Eligible now b =
     (case state b of
        Closed \<Rightarrow> True
      | Open \<Rightarrow> now - lastFailure b \<ge> timeout b
      | HalfOpen \<Rightarrow> halfOpenPermit b
      | OtherState _ \<Rightarrow> True)"

lemmas breaker_ops = Allow_def take_permit_def RecordSuccess_def RecordFailure_def Eligible_def Let_def

section \<open>The registry\<close>

record registry =
  breakers :: "string \<rightharpoonup> breaker"
  cfg :: cb_config

definition NewRegistry :: "cb_config \<Rightarrow> registry" where
  "NewRegistry c = \<lparr>breakers = Map.empty, cfg = c\<rparr>"

definition Get :: "string \<Rightarrow> registry \<Rightarrow> breaker \<times> registry" where
  "Get backendURL r =
     (case breakers r backendURL of
        Some cb \<Rightarrow> (cb, r)
      | None \<Rightarrow>
          let cb = NewBreaker (FailureThreshold (cfg r)) (SuccessThreshold (cfg r)) (Timeout (cfg r))
          in (cb, r\<lparr>breakers := (breakers r)(backendURL \<mapsto> cb)\<rparr>))"

definition registry_Remove :: "string \<Rightarrow> registry \<Rightarrow> registry" where
  "registry_Remove backendURL r = r\<lparr>breakers := (breakers r)(backendURL := None)\<rparr>"

text \<open>
  \<open>Get\<close> returns a pointer into the registry, so a call \<open>r.Get(u).Op()\<close> updates the breaker
  stored under \<open>u\<close>.
\<close>

definition on_breaker :: "string \<Rightarrow> (breaker \<Rightarrow> 'a \<times> breaker) \<Rightarrow> registry \<Rightarrow> 'a \<times> registry" where
  "on_breaker u f r =
     (case Get u r of (cb, r') \<Rightarrow>
        case f cb of (x, cb') \<Rightarrow> (x, r'\<lparr>breakers := (breakers r')(u \<mapsto> cb')\<rparr>))"

definition registry_Eligible :: "instant \<Rightarrow> string \<Rightarrow> registry \<Rightarrow> bool \<times> registry" where
  "registry_Eligible now u = on_breaker u (\<lambda>b. (Eligible now b, b))"

definition registry_Allow :: "instant \<Rightarrow> string \<Rightarrow> registry \<Rightarrow> bool \<times> registry" where
  "registry_Allow now u = on_breaker u (Allow now)"

definition registry_RecordSuccess :: "string \<Rightarrow> registry \<Rightarrow> registry" where
  "registry_RecordSuccess u r = snd (on_breaker u (\<lambda>b. ((), RecordSuccess b)) r)"

definition registry_RecordFailure :: "instant \<Rightarrow> string \<Rightarrow> registry \<Rightarrow> registry" where
  "registry_RecordFailure now u r = snd (on_breaker u (\<lambda>b. ((), RecordFailure now b)) r)"

text \<open>The breaker a backend has, created or not yet created.\<close>

definition breaker_at :: "registry \<Rightarrow> string \<Rightarrow> breaker" where
  "breaker_at r u =
     (case breakers r u of
        Some cb \<Rightarrow> cb
      | None \<Rightarrow> NewBreaker (FailureThreshold (cfg r)) (SuccessThreshold (cfg r)) (Timeout (cfg r)))"

lemma Get_breaker_at: "fst (Get u r) = breaker_at r u" "breaker_at (snd (Get u r)) = breaker_at r"
  "cfg (snd (Get u r)) = cfg r"
  by (auto simp: Get_def breaker_at_def Let_def fun_eq_iff split: option.splits)

lemma on_breaker_at:
  "fst (on_breaker u f r) = fst (f (breaker_at r u))"
  "breaker_at (snd (on_breaker u f r)) = (breaker_at r)(u := snd (f (breaker_at r u)))"
  "cfg (snd (on_breaker u f r)) = cfg r"
proof -
  show "fst (on_breaker u f r) = fst (f (breaker_at r u))" and "cfg (snd (on_breaker u f r)) = cfg r"
    by (simp_all add: on_breaker_def case_prod_unfold Get_breaker_at)
  have "breaker_at (snd (on_breaker u f r)) v = ((breaker_at r)(u := snd (f (breaker_at r u)))) v" for v
    by (auto simp: on_breaker_def Get_def breaker_at_def Let_def case_prod_unfold split: option.splits)
  then show "breaker_at (snd (on_breaker u f r)) = (breaker_at r)(u := snd (f (breaker_at r u)))" by blast
qed

lemma registry_ops_at [simp]:
  "fst (registry_Eligible now u r) = Eligible now (breaker_at r u)"
  "breaker_at (snd (registry_Eligible now u r)) = breaker_at r"
  "fst (registry_Allow now u r) = fst (Allow now (breaker_at r u))"
  "breaker_at (snd (registry_Allow now u r)) = (breaker_at r)(u := snd (Allow now (breaker_at r u)))"
  "breaker_at (registry_RecordSuccess u r) = (breaker_at r)(u := RecordSuccess (breaker_at r u))"
  "breaker_at (registry_RecordFailure now u r) = (breaker_at r)(u := RecordFailure now (breaker_at r u))"
  by (simp_all add: registry_Eligible_def registry_Allow_def registry_RecordSuccess_def
      registry_RecordFailure_def on_breaker_at fun_upd_idem)

section \<open>The admission contract\<close>

text \<open>Calls at given times, with what each was granted.\<close>

fun takes :: "(instant \<Rightarrow> 's \<Rightarrow> bool \<times> 's) \<Rightarrow> instant list \<Rightarrow> 's \<Rightarrow> bool list \<times> 's" where
  "takes tk [] s = ([], s)"
| "takes tk (t # ts) s = (case tk t s of (g, s') \<Rightarrow> case takes tk ts s' of (gs, s'') \<Rightarrow> (g # gs, s''))"

locale admission =
  fixes check :: "instant \<Rightarrow> 's \<Rightarrow> bool"
    and take :: "instant \<Rightarrow> 's \<Rightarrow> bool \<times> 's"
  assumes agree: "fst (take t s) \<longleftrightarrow> check t s"
    and refuse_pure: "\<not> check t s \<Longrightarrow> snd (take t s) = s"
begin

lemma refused_again: "\<not> fst (take t s) \<Longrightarrow> fst (take t (snd (take t s))) = fst (take t s)"
  by (simp add: agree refuse_pure)

lemma takes_refused:
  "(\<And>t. t \<in> set ts \<Longrightarrow> \<not> check t s) \<Longrightarrow> takes take ts s = (replicate (length ts) False, s)"
proof (induction ts)
  case (Cons t ts)
  then have "take t s = (False, s)" using agree [of t s] refuse_pure [of t s] by (cases "take t s") auto
  with Cons show ?case by simp
qed simp

text \<open>What a check just before the call promised is what the call grants.\<close>

lemma check_then_take: "check t s \<Longrightarrow> \<exists>s'. take t s = (True, s')"
  using agree [of t s] by (cases "take t s") auto

end

interpretation cb: admission Eligible Allow
  by unfold_locales (auto simp: breaker_ops split: State.splits)

section \<open>The invariant\<close>

text \<open>
  The counters stay below their thresholds, so neither ever wraps around; a closed breaker
  counts no successes, an open one counts nothing, a half-open one counts no failures.
\<close>

definition breaker_inv :: "breaker \<Rightarrow> bool" where
  "breaker_inv b \<longleftrightarrow>
     1 \<le> failureThreshold b \<and> failureThreshold b < 2 ^ 63 \<and>
     1 \<le> successThreshold b \<and> successThreshold b < 2 ^ 63 \<and> Millisecond \<le> timeout b \<and>
     0 \<le> failures b \<and> failures b < failureThreshold b \<and>
     0 \<le> successes b \<and> successes b < successThreshold b \<and>
     (state b \<noteq> Closed \<longrightarrow> failures b = 0) \<and> (state b \<noteq> HalfOpen \<longrightarrow> successes b = 0) \<and>
     (\<forall>n. state b \<noteq> OtherState n)"

lemma breaker_inv_incr:
  "breaker_inv b \<Longrightarrow> int64 (failures b + 1) = failures b + 1"
  "breaker_inv b \<Longrightarrow> int64 (successes b + 1) = successes b + 1"
  by (auto simp: breaker_inv_def is_int64_def intro!: int64_id)

lemma breaker_inv_New [wf_intros]:
  "ft < 2 ^ 63 \<Longrightarrow> st < 2 ^ 63 \<Longrightarrow> breaker_inv (NewBreaker ft st tm)"
  by (simp add: breaker_inv_def NewBreaker_def)

lemma breaker_inv_Allow [wf_intros]: "breaker_inv b \<Longrightarrow> breaker_inv (snd (Allow now b))"
  by (auto simp: breaker_inv_def Allow_def take_permit_def split: State.splits)

lemma breaker_inv_RecordSuccess [wf_intros]: "breaker_inv b \<Longrightarrow> breaker_inv (RecordSuccess b)"
  using breaker_inv_incr(2) [of b]
  by (auto simp: RecordSuccess_def Let_def split: State.splits) (auto simp: breaker_inv_def)

lemma breaker_inv_RecordFailure [wf_intros]: "breaker_inv b \<Longrightarrow> breaker_inv (RecordFailure now b)"
  using breaker_inv_incr(1) [of b]
  by (auto simp: RecordFailure_def Let_def split: State.splits) (auto simp: breaker_inv_def)

lemma breaker_thresholds [simp]:
  "failureThreshold (snd (Allow now b)) = failureThreshold b"
  "successThreshold (snd (Allow now b)) = successThreshold b"
  "timeout (snd (Allow now b)) = timeout b"
  "failureThreshold (RecordSuccess b) = failureThreshold b"
  "successThreshold (RecordSuccess b) = successThreshold b"
  "timeout (RecordSuccess b) = timeout b"
  "failureThreshold (RecordFailure now b) = failureThreshold b"
  "successThreshold (RecordFailure now b) = successThreshold b"
  "timeout (RecordFailure now b) = timeout b"
  by (auto simp: breaker_ops split: State.splits)

section \<open>Tripping: exactly at a run of consecutive failures\<close>

text \<open>Outcomes reported to a breaker: \<open>None\<close> a success, \<open>Some t\<close> a failure at time \<open>t\<close>.\<close>

fun record_outcome :: "instant option \<Rightarrow> breaker \<Rightarrow> breaker" where
  "record_outcome None b = RecordSuccess b"
| "record_outcome (Some now) b = RecordFailure now b"

definition record_all :: "instant option list \<Rightarrow> breaker \<Rightarrow> breaker" where
  "record_all os b = fold record_outcome os b"

lemma record_all_simps [simp]:
  "record_all [] b = b"
  "record_all (x # os) b = record_all os (record_outcome x b)"
  by (simp_all add: record_all_def)

lemma record_outcome_Open: "state b = Open \<Longrightarrow> record_outcome x b = b"
  by (cases x) (simp_all add: breaker_ops)

lemma record_all_Open: "state b = Open \<Longrightarrow> record_all os b = b"
  by (induction os) (simp_all add: record_outcome_Open)

lemma sublist_around:
  assumes "sublist ps (xs @ a # ys)" and "a \<notin> set ps"
  shows "sublist ps xs \<or> sublist ps ys"
proof -
  obtain us vs where eq: "us @ ps @ vs = xs @ a # ys" using assms(1) by (auto simp: sublist_def)
  show ?thesis
  proof (cases "length us + length ps \<le> length xs")
    case True
    then have "take (length us + length ps) (us @ ps @ vs) = take (length us + length ps) xs"
      by (simp only: eq) simp
    then have "us @ ps = take (length us + length ps) xs" by simp
    then have "xs = us @ ps @ drop (length us + length ps) xs" by (metis append.assoc append_take_drop_id)
    then show ?thesis by (metis sublist_appendI)
  next
    case False
    have "length xs < length us"
    proof (rule ccontr)
      assume "\<not> length xs < length us"
      then have lt: "length xs - length us < length ps" using False by linarith
      then have "(us @ ps @ vs) ! length xs = ps ! (length xs - length us)"
        using \<open>\<not> length xs < length us\<close> by (simp add: nth_append)
      with lt have "a \<in> set ps" by (metis eq nth_append_length nth_mem)
      with assms(2) show False ..
    qed
    then have "drop (Suc (length xs)) (us @ ps @ vs) = drop (Suc (length xs)) us @ ps @ vs" by simp
    then have "ys = drop (Suc (length xs)) us @ ps @ vs" by (simp add: eq)
    then show ?thesis by (metis sublist_appendI)
  qed
qed

lemma trips_iff:
  assumes "breaker_inv b" and "state b = Closed"
  shows "state (record_all os b) = Closed \<longleftrightarrow>
    \<not> sublist (replicate (nat (failureThreshold b)) True)
       (replicate (nat (failures b)) True @ map (\<lambda>x. x \<noteq> None) os)"
  using assms
proof (induction os arbitrary: b)
  case Nil
  then have "nat (failures b) < nat (failureThreshold b)" by (auto simp: breaker_inv_def)
  then have "\<not> sublist (replicate (nat (failureThreshold b)) True) (replicate (nat (failures b)) True)"
    by (metis length_replicate not_less sublist_length_le)
  with Nil.prems(2) show ?case by simp
next
  case (Cons x os)
  let ?k = "nat (failureThreshold b)" and ?f = "nat (failures b)"
  note inv = Cons.prems(1)
  have lt: "?f < ?k" "0 < ?k" using inv by (auto simp: breaker_inv_def)
  show ?case
  proof (cases x)
    case None
    have "record_outcome x b = b\<lparr>failures := 0\<rparr>" using None Cons.prems(2) by (simp add: breaker_ops)
    moreover have "breaker_inv (b\<lparr>failures := 0\<rparr>)" using inv by (auto simp: breaker_inv_def)
    moreover have "sublist (replicate ?k True) (replicate ?f True @ False # map (\<lambda>x. x \<noteq> None) os) \<longleftrightarrow>
        sublist (replicate ?k True) (map (\<lambda>x. x \<noteq> None) os)"
    proof
      assume "sublist (replicate ?k True) (replicate ?f True @ False # map (\<lambda>x. x \<noteq> None) os)"
      then have "sublist (replicate ?k True) (replicate ?f True) \<or>
          sublist (replicate ?k True) (map (\<lambda>x. x \<noteq> None) os)"
        by (rule sublist_around) simp
      with lt show "sublist (replicate ?k True) (map (\<lambda>x. x \<noteq> None) os)"
        by (metis length_replicate not_less sublist_length_le)
    next
      assume "sublist (replicate ?k True) (map (\<lambda>x. x \<noteq> None) os)"
      then obtain u v where "map (\<lambda>x. x \<noteq> None) os = u @ replicate ?k True @ v"
        by (auto simp: sublist_def)
      then have "replicate ?f True @ False # map (\<lambda>x. x \<noteq> None) os =
          (replicate ?f True @ False # u) @ replicate ?k True @ v" by simp
      then show "sublist (replicate ?k True) (replicate ?f True @ False # map (\<lambda>x. x \<noteq> None) os)"
        by (simp only: sublist_appendI)
    qed
    ultimately show ?thesis using Cons.IH [of "b\<lparr>failures := 0\<rparr>"] Cons.prems(2) None by simp
  next
    case (Some t)
    note incr = breaker_inv_incr(1) [OF inv]
    have rep: "replicate ?f True @ True # map (\<lambda>x. x \<noteq> None) os =
        replicate (Suc ?f) True @ map (\<lambda>x. x \<noteq> None) os"
      by (simp add: replicate_app_Cons_same)
    show ?thesis
    proof (cases "failures b + 1 \<ge> failureThreshold b")
      case True
      then have "state (record_outcome x b) = Open" using Some Cons.prems(2) incr by (simp add: breaker_ops)
      then have "state (record_all (x # os) b) = Open" by (simp add: record_all_Open)
      moreover have "Suc ?f = ?k" using True inv by (auto simp: breaker_inv_def)
      then have "sublist (replicate ?k True) (replicate ?f True @ True # map (\<lambda>x. x \<noteq> None) os)"
        using sublist_appendI [of "replicate ?k True" "[]" "map (\<lambda>x. x \<noteq> None) os"]
        by (simp only: rep append_Nil)
      ultimately show ?thesis using Some by simp
    next
      case False
      then have "record_outcome x b = b\<lparr>failures := failures b + 1\<rparr>"
        using Some Cons.prems(2) incr by (simp add: breaker_ops)
      moreover have "breaker_inv (b\<lparr>failures := failures b + 1\<rparr>)"
        using False inv Cons.prems(2) by (auto simp: breaker_inv_def)
      moreover have "nat (failures b + 1) = Suc ?f" using inv by (auto simp: breaker_inv_def)
      ultimately show ?thesis
        using Cons.IH [of "b\<lparr>failures := failures b + 1\<rparr>"] Cons.prems(2) Some
        by (simp add: replicate_app_Cons_same)
    qed
  qed
qed

section \<open>Open and half-open\<close>

lemma Allow_HalfOpen_once:
  "state b = HalfOpen \<Longrightarrow> \<not> halfOpenPermit b \<Longrightarrow> takes Allow ts b = (replicate (length ts) False, b)"
  by (rule cb.takes_refused) (simp add: Eligible_def)

lemma one_grant:
  assumes "state b = Open \<or> state b = HalfOpen"
  shows "count_list (fst (takes Allow ts b)) True \<le> 1"
  using assms
proof (induction ts arbitrary: b)
  case (Cons t ts)
  have none: "count_list (replicate n False) True = 0" for n by (induction n) auto
  show ?case
  proof (cases "Eligible t b")
    case True
    then have "fst (Allow t b)" by (simp add: cb.agree)
    moreover have "state (snd (Allow t b)) = HalfOpen" "\<not> halfOpenPermit (snd (Allow t b))"
      using True Cons.prems by (auto simp: breaker_ops)
    ultimately show ?thesis
      using Allow_HalfOpen_once [of "snd (Allow t b)" ts] none
      by (simp add: case_prod_unfold)
  next
    case False
    then have "Allow t b = (False, b)"
      using cb.agree [of t b] cb.refuse_pure [of t b] by (cases "Allow t b") auto
    with Cons show ?thesis by (simp add: case_prod_unfold)
  qed
qed simp

text \<open>One successful probe: the request is admitted and its success recorded.\<close>

definition probe_ok :: "instant \<Rightarrow> breaker \<Rightarrow> breaker" where
  "probe_ok t b = RecordSuccess (snd (Allow t b))"

lemma probe_ok_HalfOpen:
  assumes "breaker_inv b" and "state b = HalfOpen"
  shows "probe_ok t b =
    (if successes b + 1 = successThreshold b
     then b\<lparr>state := Closed, failures := 0, successes := 0, halfOpenPermit := True\<rparr>
     else b\<lparr>successes := successes b + 1, halfOpenPermit := True\<rparr>)"
  using assms breaker_inv_incr(2) [of b]
  by (auto simp: probe_ok_def breaker_ops breaker_inv_def)

lemma probes_HalfOpen:
  assumes "breaker_inv b" and "state b = HalfOpen" and "ts \<noteq> []"
    and "successes b + int (length ts) \<le> successThreshold b"
  shows "fold probe_ok ts b =
    (if successes b + int (length ts) = successThreshold b
     then b\<lparr>state := Closed, failures := 0, successes := 0, halfOpenPermit := True\<rparr>
     else b\<lparr>successes := successes b + int (length ts), halfOpenPermit := True\<rparr>)"
  using assms
proof (induction ts arbitrary: b)
  case (Cons t ts)
  show ?case
  proof (cases "ts = []")
    case True
    with Cons.prems show ?thesis by (simp add: probe_ok_HalfOpen)
  next
    case False
    let ?b = "b\<lparr>successes := successes b + 1, halfOpenPermit := True\<rparr>"
    have "probe_ok t b = ?b" using Cons.prems False by (cases ts) (auto simp: probe_ok_HalfOpen)
    moreover have "breaker_inv ?b" using Cons.prems False by (cases ts) (auto simp: breaker_inv_def)
    ultimately show ?thesis using Cons.IH [of ?b] Cons.prems False by (simp add: algebra_simps)
  qed
qed simp

section \<open>Requests around a breaker\<close>

text \<open>
  The breaker with the requests admitted and not yet finished: \<open>regular\<close> those admitted while it
  was closed, \<open>probing\<close> those admitted by the half-open permit. A request may report before it is
  finished (the error handler reports a failure, and the frame of the attempt its outcome after
  that); it finishes by reporting a success or a failure, or without reporting anything (the reverse proxy panics with
  \<open>http.ErrAbortHandler\<close> when the response body cannot be copied, and the caller's recording
  code is skipped).
\<close>

record cb_system =
  brk :: breaker
  clock :: instant
  regular :: nat
  probing :: nat

definition cb_start :: "cb_config \<Rightarrow> cb_system" where
  "cb_start c = \<lparr>brk = NewBreaker (FailureThreshold c) (SuccessThreshold c) (Timeout c),
     clock = 0, regular = 0, probing = 0\<rparr>"

datatype finish = Success | Failure | Vanish

fun finish_on :: "finish \<Rightarrow> instant \<Rightarrow> breaker \<Rightarrow> breaker" where
  "finish_on Success t b = RecordSuccess b"
| "finish_on Failure t b = RecordFailure t b"
| "finish_on Vanish t b = b"

inductive cb_step :: "cb_system \<Rightarrow> cb_system \<Rightarrow> bool" where
  tick: "0 \<le> d \<Longrightarrow> cb_step s (s\<lparr>clock := clock s + d\<rparr>)"
| admit_regular: "state (brk s) = Closed \<Longrightarrow> Allow (clock s) (brk s) = (True, b) \<Longrightarrow>
    cb_step s (s\<lparr>brk := b, regular := Suc (regular s)\<rparr>)"
| admit_probe: "state (brk s) \<noteq> Closed \<Longrightarrow> Allow (clock s) (brk s) = (True, b) \<Longrightarrow>
    cb_step s (s\<lparr>brk := b, probing := Suc (probing s)\<rparr>)"
| refuse: "Allow (clock s) (brk s) = (False, b) \<Longrightarrow> cb_step s (s\<lparr>brk := b\<rparr>)"
| finish_regular: "regular s = Suc n \<Longrightarrow>
    cb_step s (s\<lparr>brk := finish_on f (clock s) (brk s), regular := n\<rparr>)"
| report_regular: "regular s > 0 \<Longrightarrow> cb_step s (s\<lparr>brk := finish_on f (clock s) (brk s)\<rparr>)"
| report_probe: "probing s > 0 \<Longrightarrow> cb_step s (s\<lparr>brk := finish_on f (clock s) (brk s)\<rparr>)"
| finish_probe: "probing s = Suc n \<Longrightarrow>
    cb_step s (s\<lparr>brk := finish_on f (clock s) (brk s), probing := n\<rparr>)"

inductive cb_reachable :: "cb_config \<Rightarrow> cb_system \<Rightarrow> bool" for c where
  start: "cb_reachable c (cb_start c)"
| step: "cb_reachable c s \<Longrightarrow> cb_step s t \<Longrightarrow> cb_reachable c t"

inductive_cases cb_stepE: "cb_step s t"

lemma breaker_inv_finish [wf_intros]: "breaker_inv b \<Longrightarrow> breaker_inv (finish_on f t b)"
  by (cases f) (auto intro: wf_intros)

lemma cb_step_inv: "cb_step s t \<Longrightarrow> breaker_inv (brk s) \<Longrightarrow> breaker_inv (brk t)"
  by (erule cb_step.cases)
    (auto intro: wf_intros, (metis breaker_inv_Allow snd_conv)+)

lemma cb_reachable_inv:
  assumes "cb_reachable c s" and "FailureThreshold c < 2 ^ 63" and "SuccessThreshold c < 2 ^ 63"
  shows "breaker_inv (brk s)"
  using assms(1)
proof (induction rule: cb_reachable.induct)
  case start
  show ?case using assms(2,3) by (simp add: cb_start_def breaker_inv_New)
next
  case (step s t)
  then show ?case by (blast intro: cb_step_inv)
qed




section \<open>Properties\<close>

text \<open>
  In every state a breaker can reach, whatever requests come, in whatever order they
  finish and report, its counters stay within their thresholds (so they never wrap around), its
  state is one of the three named ones, failures are counted only while it is closed and
  successes only while it is half-open.
\<close>

theorem breaker_invariant:
  assumes "cb_reachable c s" and "FailureThreshold c < 2 ^ 63" and "SuccessThreshold c < 2 ^ 63"
  shows "breaker_inv (brk s)"
  using assms by (rule cb_reachable_inv)

theorem breaker_invariant_witness:
  "breaker_inv (brk (cb_start \<lparr>FailureThreshold = 5, SuccessThreshold = 2, Timeout = 30000000000\<rparr>))"
  by (rule breaker_invariant [OF cb_reachable.start]) simp_all

text \<open>
  C14: a closed breaker trips exactly when \<open>failureThreshold\<close> consecutive failures are
  reported: after any sequence of outcomes a new breaker is still closed if and only if the
  sequence holds no run of that many failures without a success in between.
\<close>

theorem breaker_trips_at_threshold:
  assumes "1 \<le> ft" and "ft < 2 ^ 63" and "st < 2 ^ 63"
  shows "Breaker_State (record_all os (NewBreaker ft st tm)) = Closed \<longleftrightarrow>
    \<not> sublist (replicate (nat ft) True) (map (\<lambda>x. x \<noteq> None) os)"
  using trips_iff [of "NewBreaker ft st tm" os] breaker_inv_New [of ft st tm] assms
  by (simp add: NewBreaker_def Breaker_State_def)

theorem breaker_trips_at_threshold_witness:
  "Breaker_State (record_all [Some 1, Some 2, None, Some 3, Some 4] (NewBreaker 3 2 0)) = Closed"
proof -
  have "\<not> sublist [True, True, True] [True, True, False, True, True]" by code_simp
  then show ?thesis
    using breaker_trips_at_threshold [of 3 2 "[Some 1, Some 2, None, Some 3, Some 4]" 0]
    by (simp add: numeral_3_eq_3)
qed

text \<open>
  C15: an open breaker refuses every request before its timeout has passed, unchanged by the
  refusals; the first request at or after that time is admitted as a probe and makes it
  half-open; and until an outcome is recorded, however many requests ask at whatever times, at
  most one is admitted.
\<close>

theorem breaker_open_window:
  assumes "state b = Open"
  shows "((\<forall>t \<in> set ts. t < lastFailure b + timeout b) \<longrightarrow>
      takes Allow ts b = (replicate (length ts) False, b)) \<and>
    (lastFailure b + timeout b \<le> now \<longrightarrow>
      fst (Allow now b) \<and> Breaker_State (snd (Allow now b)) = HalfOpen) \<and>
    count_list (fst (takes Allow us b)) True \<le> 1"
proof (intro conjI impI)
  assume "\<forall>t \<in> set ts. t < lastFailure b + timeout b"
  then show "takes Allow ts b = (replicate (length ts) False, b)"
    using assms by (intro cb.takes_refused) (auto simp: Eligible_def)
next
  show "count_list (fst (takes Allow us b)) True \<le> 1" using assms by (intro one_grant disjI1)
qed (use assms in \<open>auto simp: breaker_ops Breaker_State_def\<close>)

theorem breaker_open_window_witness:
  "fst (Allow 1000003 (RecordFailure 3 (NewBreaker 1 1 0)))"
  using breaker_open_window [of "RecordFailure 3 (NewBreaker 1 1 0)" "[]" 1000003 "[]"]
  by (simp add: NewBreaker_def RecordFailure_def Millisecond_def int64_def)

text \<open>
  C16: recovery takes exactly \<open>successThreshold\<close> probes. From open, once the timeout has passed,
  after every number of successful probes below the threshold the breaker is still half-open, having
  counted each of them and ready for the next; the successful probe that reaches the threshold closes
  it with its counters reset; and at any point in between a failing probe reopens it, with the
  timeout counted from that failure and the successes forgotten.
\<close>

theorem breaker_recovers:
  assumes "breaker_inv b" and "state b = Open" and "lastFailure b + timeout b \<le> t"
  shows "(1 + int (length ts) < successThreshold b \<longrightarrow>
      fold probe_ok (t # ts) b =
        b\<lparr>state := HalfOpen, successes := 1 + int (length ts), halfOpenPermit := True\<rparr> \<and>
      RecordFailure t' (snd (Allow t' (fold probe_ok (t # ts) b))) =
        b\<lparr>lastFailure := t', failures := 0, successes := 0, halfOpenPermit := False\<rparr>) \<and>
    (1 + int (length ts) = successThreshold b \<longrightarrow>
      fold probe_ok (t # ts) b =
        b\<lparr>state := Closed, failures := 0, successes := 0, halfOpenPermit := True\<rparr>) \<and>
    RecordFailure t' (snd (Allow t b)) =
      b\<lparr>lastFailure := t', failures := 0, successes := 0, halfOpenPermit := False\<rparr>"
proof -
  let ?b = "b\<lparr>state := HalfOpen, halfOpenPermit := False\<rparr>"
  have allow: "snd (Allow t b) = ?b" using assms by (simp add: breaker_ops)
  have invh: "breaker_inv ?b" using assms(1,2) by (auto simp: breaker_inv_def)
  have s0: "successes b = 0" using assms(1,2) by (auto simp: breaker_inv_def)
  have "snd (Allow t ?b) = ?b" by (simp add: breaker_ops)
  then have run: "fold probe_ok (t # ts) b = fold probe_ok (t # ts) ?b" by (simp add: probe_ok_def allow)
  have probes: "1 + int (length ts) \<le> successThreshold b \<Longrightarrow> fold probe_ok (t # ts) b =
      (if 1 + int (length ts) = successThreshold b
       then ?b\<lparr>state := Closed, failures := 0, successes := 0, halfOpenPermit := True\<rparr>
       else ?b\<lparr>successes := 1 + int (length ts), halfOpenPermit := True\<rparr>)"
    unfolding run using probes_HalfOpen [OF invh, of "t # ts"] s0 by simp
  have "RecordFailure t' ?b = b\<lparr>lastFailure := t', failures := 0, successes := 0, halfOpenPermit := False\<rparr>"
    using assms(2) by (simp add: RecordFailure_def)
  with probes show ?thesis using assms(2,3) by (auto simp: allow Allow_def take_permit_def RecordFailure_def)
qed

theorem breaker_recovers_witness:
  "Breaker_State (fold probe_ok [2000000] (RecordFailure 0 (NewBreaker 1 2 0))) = HalfOpen \<and>
   Breaker_State (fold probe_ok [2000000, 2000001] (RecordFailure 0 (NewBreaker 1 2 0))) = Closed"
proof -
  let ?b = "RecordFailure 0 (NewBreaker 1 2 0)"
  have "breaker_inv ?b" by (intro wf_intros) simp_all
  then show ?thesis
    using breaker_recovers [of ?b 2000000 "[]" 0] breaker_recovers [of ?b 2000000 "[2000001]" 0]
    by (simp add: NewBreaker_def RecordFailure_def Millisecond_def int64_def Breaker_State_def)
qed




text \<open>
  The half-open state does not keep to one probe at a time. A request admitted while the
  breaker was still closed may report its success after the breaker has become half-open; that
  success hands the permit back while a probe is outstanding, and a second probe is admitted.
\<close>

theorem breaker_two_probes:
  "\<exists>s. cb_reachable \<lparr>FailureThreshold = 1, SuccessThreshold = 2, Timeout = 0\<rparr> s \<and>
     Breaker_State (brk s) = HalfOpen \<and> probing s = 2"
proof -
  let ?c = "\<lparr>FailureThreshold = 1, SuccessThreshold = 2, Timeout = 0\<rparr>"
  let ?b = "NewBreaker 1 2 0"
  let ?sys = "\<lambda>b t r p. \<lparr>brk = b, clock = t, regular = r, probing = p\<rparr>"
  let ?half = "\<lambda>n p. ?b\<lparr>state := HalfOpen, successes := n, halfOpenPermit := p\<rparr>"
  note defs = NewBreaker_def breaker_ops Millisecond_def int64_def
  note go = cb_reachable.step
  have "cb_reachable ?c (?sys ?b 0 0 0)"
    using cb_reachable.start [of ?c] by (simp add: cb_start_def)
  from go [OF this cb_step.admit_regular, of ?b] have "cb_reachable ?c (?sys ?b 0 (Suc 0) 0)"
    by (simp add: defs)
  from go [OF this cb_step.admit_regular, of ?b] have "cb_reachable ?c (?sys ?b 0 (Suc (Suc 0)) 0)"
    by (simp add: defs)
  from go [OF this cb_step.finish_regular, of "Suc 0" Failure]
  have "cb_reachable ?c (?sys (?b\<lparr>state := Open\<rparr>) 0 (Suc 0) 0)" by (simp add: defs)
  from go [OF this cb_step.tick, of 1000000]
  have "cb_reachable ?c (?sys (?b\<lparr>state := Open\<rparr>) 1000000 (Suc 0) 0)" by simp
  from go [OF this cb_step.admit_probe, of "?half 0 False"]
  have "cb_reachable ?c (?sys (?half 0 False) 1000000 (Suc 0) (Suc 0))" by (simp add: defs)
  from go [OF this cb_step.finish_regular, of 0 Success]
  have "cb_reachable ?c (?sys (?half 1 True) 1000000 0 (Suc 0))" by (simp add: defs)
  from go [OF this cb_step.admit_probe, of "?half 1 False"]
  have "cb_reachable ?c (?sys (?half 1 False) 1000000 0 (Suc (Suc 0)))" by (simp add: defs)
  then show ?thesis by (intro exI conjI, assumption) (simp_all add: Breaker_State_def)
qed

end
