(* ===== verification/Sticky.thy ===== *)
theory Sticky
  imports Golb_Prelude
begin

text \<open>
  Package \<open>internal/sticky\<close>: cookie-based affinity. The cookie's value is the unpadded,
  URL-safe base64 of the backend URL (\<open>base64.RawURLEncoding\<close> of the standard library), which
  is modelled in full, its tolerance for line breaks and for stray trailing bits included. A
  request's cookies are the (name, value) pairs \<open>net/http\<close> parses from its headers, in order;
  a response's \<open>Set-Cookie\<close> headers are a list of cookie records.

  The locale \<open>codec\<close> is the law the affinity relies on: decoding an encoding gives the original.
\<close>

section \<open>base64.RawURLEncoding\<close>

definition b64_alphabet :: string where
  "b64_alphabet = ''ABCDEFGHIJKLMNOPQRSTUVWXYZabcdefghijklmnopqrstuvwxyz0123456789-_''"

definition b64_char :: "nat \<Rightarrow> char" where
  "b64_char n = b64_alphabet ! (n mod 64)"

fun index_of :: "char \<Rightarrow> string \<Rightarrow> nat option" where
  "index_of c [] = None"
| "index_of c (x # xs) = (if x = c then Some 0 else map_option Suc (index_of c xs))"

definition b64_value :: "char \<Rightarrow> nat option" where
  "b64_value c = index_of c b64_alphabet"

fun b64_sextets :: "nat list \<Rightarrow> nat list" where
  "b64_sextets [] = []"
| "b64_sextets [a] = [a div 4, a mod 4 * 16]"
| "b64_sextets [a, b] = [a div 4, a mod 4 * 16 + b div 16, b mod 16 * 4]"
| "b64_sextets (a # b # c # r) =
     [a div 4, a mod 4 * 16 + b div 16, b mod 16 * 4 + c div 64, c mod 64] @ b64_sextets r"

fun b64_bytes :: "nat list \<Rightarrow> nat list option" where
  "b64_bytes [] = Some []"
| "b64_bytes [v] = None"
| "b64_bytes [v, w] = Some [v * 4 + w div 16]"
| "b64_bytes [v, w, x] = Some [v * 4 + w div 16, w mod 16 * 16 + x div 4]"
| "b64_bytes (v # w # x # y # r) =
     map_option (\<lambda>bs. [v * 4 + w div 16, w mod 16 * 16 + x div 4, x mod 4 * 64 + y] @ bs)
       (b64_bytes r)"

fun values_of :: "string \<Rightarrow> nat list option" where
  "values_of [] = Some []"
| "values_of (c # cs) =
     (case b64_value c of None \<Rightarrow> None | Some v \<Rightarrow> map_option ((#) v) (values_of cs))"

definition EncodeToString :: "string \<Rightarrow> string" where
  "EncodeToString s = map b64_char (b64_sextets (map of_char s))"

definition DecodeString :: "string \<Rightarrow> string option" where
  "DecodeString s =
     (case values_of (filter (\<lambda>c. c \<noteq> CHR 0x0A \<and> c \<noteq> CHR 0x0D) s) of
        None \<Rightarrow> None
      | Some vs \<Rightarrow> map_option (map char_of) (b64_bytes vs))"

lemma b64_value_char: "n < 64 \<Longrightarrow> b64_value (b64_char n) = Some n"
proof -
  assume "n < 64"
  moreover have "\<forall>n \<in> set [0..<64]. b64_value (b64_char n) = Some n" by code_simp
  ultimately show ?thesis by simp
qed

lemma b64_alphabet_clean: "b64_char n \<noteq> CHR 0x0A \<and> b64_char n \<noteq> CHR 0x0D"
proof -
  have "\<forall>m \<in> set [0..<64]. b64_char m \<noteq> CHR 0x0A \<and> b64_char m \<noteq> CHR 0x0D" by code_simp
  then have "b64_char (n mod 64) \<noteq> CHR 0x0A \<and> b64_char (n mod 64) \<noteq> CHR 0x0D" by simp
  then show ?thesis by (simp add: b64_char_def)
qed

lemma b64_sextets_small: "\<forall>b \<in> set bs. b < 256 \<Longrightarrow> \<forall>v \<in> set (b64_sextets bs). v < 64"
  by (induction bs rule: b64_sextets.induct) (auto simp: less_mult_imp_div_less)

lemma b64_bytes_sextets: "\<forall>b \<in> set bs. b < 256 \<Longrightarrow> b64_bytes (b64_sextets bs) = Some bs"
proof (induction bs rule: b64_sextets.induct)
  case (4 a b c r)
  have "b div 16 div 16 = 0" "c div 64 div 4 = 0"
    using 4 by (simp_all add: div_mult2_eq [symmetric])
  moreover have "b64_bytes (b64_sextets r) = Some r" using 4 by simp
  ultimately show ?case using 4 by simp
qed auto

lemma values_of_chars: "\<forall>v \<in> set vs. v < 64 \<Longrightarrow> values_of (map b64_char vs) = Some vs"
  by (induction vs) (auto simp: b64_value_char)

lemma filter_clean:
  "filter (\<lambda>c. c \<noteq> CHR 0x0A \<and> c \<noteq> CHR 0x0D) (map b64_char vs) = map b64_char vs"
  using b64_alphabet_clean by (simp add: filter_id_conv)

lemma of_char_small: "\<forall>b \<in> set (map of_char s :: nat list). b < 256"
  by auto

lemma Decode_Encode: "DecodeString (EncodeToString s) = Some s"
  unfolding DecodeString_def EncodeToString_def filter_clean
    values_of_chars [OF b64_sextets_small [OF of_char_small]]
  by (simp add: b64_bytes_sextets of_char_small comp_def)

section \<open>The codec contract\<close>

locale codec =
  fixes enc :: "string \<Rightarrow> string" and dec :: "string \<Rightarrow> string option"
  assumes dec_enc: "dec (enc s) = Some s"
begin

lemma enc_inj: "enc s = enc t \<longleftrightarrow> s = t"
  by (metis dec_enc option.inject)

end

interpretation b64: codec EncodeToString DecodeString
  by unfold_locales (rule Decode_Encode)

section \<open>Affinity\<close>

record affinity =
  cookieName :: string
  ttl :: duration
  secure :: bool

datatype option_fn = WithSecure bool

fun apply_option :: "option_fn \<Rightarrow> affinity \<Rightarrow> affinity" where
  "apply_option (WithSecure s) a = a\<lparr>secure := s\<rparr>"

definition NewAffinity :: "string \<Rightarrow> duration \<Rightarrow> option_fn list \<Rightarrow> affinity" where
  "NewAffinity name tm opts = fold apply_option opts \<lparr>cookieName = name, ttl = tm, secure = False\<rparr>"

text \<open>
  \<open>math.Ceil(ttl.Seconds())\<close> on whole nanoseconds. The code computes it in \<open>float64\<close>, which
  is exact for durations below \<open>2 ^ 23\<close> seconds (97 days).
\<close>

definition maxAge :: "duration \<Rightarrow> int" where
  "maxAge tm = (let s = - ((- tm) div 1000000000) in if s < 1 then 1 else s)"

datatype same_site = SameSiteLaxMode

record cookie =
  CookieName :: string
  Value :: string
  CookiePath :: string
  MaxAge :: int
  HttpOnly :: bool
  Secure :: bool
  SameSite :: same_site

text \<open>\<open>r.Cookie(name)\<close>: the first cookie of that name; an empty name finds none.\<close>

fun find_cookie :: "string \<Rightarrow> (string \<times> string) list \<Rightarrow> string option" where
  "find_cookie name [] = None"
| "find_cookie name ((n, v) # cs) =
     (if name \<noteq> [] \<and> n = name then Some v else find_cookie name cs)"

definition FromRequest :: "affinity \<Rightarrow> (string \<times> string) list \<Rightarrow> string" where
  "FromRequest a cookies =
     (case find_cookie (cookieName a) cookies of
        None \<Rightarrow> []
      | Some v \<Rightarrow>
          if v = [] then []
          else (case DecodeString v of None \<Rightarrow> [] | Some raw \<Rightarrow> raw))"

text \<open>
  \<open>http.SetCookie\<close> adds the header unless the cookie's name is not a token of RFC 6265, in
  which case it silently does nothing.
\<close>

definition is_token_char :: "char \<Rightarrow> bool" where
  "is_token_char c \<longleftrightarrow>
     c \<in> set ''!#$%&*+-.^_|~0123456789ABCDEFGHIJKLMNOPQRSTUVWXYZabcdefghijklmnopqrstuvwxyz''
     \<or> c = CHR 0x27 \<or> c = CHR 0x60"

definition valid_cookie_name :: "string \<Rightarrow> bool" where
  "valid_cookie_name n \<longleftrightarrow> n \<noteq> [] \<and> list_all is_token_char n"

definition affinity_cookie :: "affinity \<Rightarrow> string \<Rightarrow> cookie" where
  "affinity_cookie a backendURL =
     \<lparr>CookieName = cookieName a, Value = EncodeToString backendURL, CookiePath = ''/'',
      MaxAge = maxAge (ttl a), HttpOnly = True, Secure = secure a, SameSite = SameSiteLaxMode\<rparr>"

definition SetCookie :: "affinity \<Rightarrow> string \<Rightarrow> cookie list \<Rightarrow> cookie list" where
  "SetCookie a backendURL headers =
     (if valid_cookie_name (cookieName a) then headers @ [affinity_cookie a backendURL] else headers)"

section \<open>Properties\<close>

text \<open>
  C23: sticky cookies round-trip. A client that sends back the cookie the load balancer set for a
  backend is mapped to exactly that backend's URL, whatever bytes it holds; two URLs never share a
  cookie value; the value uses only letters, digits, hyphen and underscore, so no header escaping
  can alter it.
\<close>

theorem cookie_roundtrip:
  assumes "valid_cookie_name (cookieName a)" and "find_cookie (cookieName a) before = None"
    and "SetCookie a u headers = headers @ [c]"
  shows "FromRequest a (before @ (CookieName c, Value c) # after) = u \<and>
    (\<forall>v. Value (affinity_cookie a v) = Value c \<longrightarrow> v = u) \<and>
    set (Value c) \<subseteq> set b64_alphabet"
proof -
  have c: "c = affinity_cookie a u" using assms(1,3) by (simp add: SetCookie_def)
  have "find_cookie (cookieName a) (before @ (cookieName a, Value c) # after) = Some (Value c)"
    using assms(1,2) by (induction before) (auto simp: valid_cookie_name_def split: if_splits)
  moreover have "EncodeToString u = [] \<longrightarrow> [] = u"
    using b64.dec_enc [of u] by (auto simp: DecodeString_def)
  ultimately have "FromRequest a (before @ (CookieName c, Value c) # after) = u"
    by (simp add: FromRequest_def c affinity_cookie_def b64.dec_enc)
  moreover have "set (Value c) \<subseteq> set b64_alphabet"
  proof -
    have "b64_char n \<in> set b64_alphabet" for n
      unfolding b64_char_def by (rule nth_mem) (simp add: b64_alphabet_def)
    then show ?thesis by (auto simp: c affinity_cookie_def EncodeToString_def)
  qed
  ultimately show ?thesis by (simp add: c affinity_cookie_def b64.enc_inj)
qed

theorem cookie_roundtrip_witness:
  "FromRequest (NewAffinity ''lb'' 1 []) [(''x'', ''y''), (''lb'', ''aHR0cDovL2E'')] = ''http://a''"
proof -
  let ?a = "NewAffinity ''lb'' 1 []"
  have v: "affinity_cookie ?a ''http://a'' =
    \<lparr>CookieName = ''lb'', Value = ''aHR0cDovL2E'', CookiePath = ''/'', MaxAge = 1,
     HttpOnly = True, Secure = False, SameSite = SameSiteLaxMode\<rparr>" by code_simp
  have "valid_cookie_name (cookieName ?a)" by code_simp
  moreover have "find_cookie (cookieName ?a) [(''x'', ''y'')] = None" by code_simp
  moreover have "SetCookie ?a ''http://a'' [] = [] @ [affinity_cookie ?a ''http://a'']" by code_simp
  ultimately show ?thesis
    using cookie_roundtrip [of ?a "[(''x'', ''y'')]" "''http://a''" "[]" "affinity_cookie ?a ''http://a''" "[]"]
    by (simp add: v)
qed

text \<open>
  The cookie's lifetime is the configured TTL rounded up to whole seconds and never 0 or
  negative, so the cookie is never a session cookie and never expires early.
\<close>

theorem maxAge_bounds:
  "1 \<le> maxAge tm \<and> tm \<le> maxAge tm * 1000000000 \<and>
   (0 < tm \<longrightarrow> (maxAge tm - 1) * 1000000000 < tm)"
proof -
  have "(- tm) div 1000000000 * 1000000000 + (- tm) mod 1000000000 = - tm" by simp
  moreover have "0 \<le> (- tm) mod 1000000000" "(- tm) mod 1000000000 < 1000000000" by simp_all
  ultimately show ?thesis by (auto simp: maxAge_def Let_def)
qed

theorem maxAge_bounds_witness: "(maxAge 1500000000 - 1) * 1000000000 < 1500000000"
  using maxAge_bounds [of 1500000000] by simp

end
