(* ===== verification/Proxy.thy ===== *)
theory Proxy
  imports Pools Algos Breakers Sticky
begin

text \<open>
  Package \<open>internal/proxy\<close>: the load balancer's request path. The model serves one request
  against the shared state, sequentially: the state record extends the pool's with the load
  balancer's own fields, and holds the response being written and the log.

  Outside the program are the backends and the clock. They are the parameter \<open>env\<close> below,
  a record of functions of the number of round trips, waits or random reads made so far. A round
  trip either brings a response, fails (then \<open>httputil.ReverseProxy\<close> calls the error handler),
  or brings a response whose body cannot be copied (then it panics with
  \<open>http.ErrAbortHandler\<close>). Of the reverse proxy the model has the rewriting of path and query and
  these three endings.
\<close>

section \<open>Requests, responses and the outside world\<close>

text \<open>The three context keys are fields of the request, \<open>None\<close> where the value was never set.\<close>

record request =
  Method :: string
  reqPath :: string
  reqQuery :: string
  cookies :: "(string \<times> string) list"
  attemptsKey :: "int option"
  retryKey :: "int option"
  requestIDKey :: "string option"

record sent_request =
  target :: url
  sentMethod :: string
  sentPath :: string
  sentQuery :: string

datatype outcome = Responded int | Failed string | Aborted int

record env =
  roundtrip :: "nat \<Rightarrow> sent_request \<Rightarrow> outcome"
  latency :: "nat \<Rightarrow> duration"
  timerFirst :: "nat \<Rightarrow> bool"
  randRead :: "nat \<Rightarrow> string option"
  unixEpoch :: int

datatype log_line =
    LogRequest string string duration int int \<comment> \<open>request id, backend, latency in ms, status, attempt\<close>
  | LogBackendDown string string
  | LogRandFailed

text \<open>
  \<open>writers\<close> are the status codes held by the \<open>responseWriter\<close>s wrapped around the client's
  writer, innermost first; \<open>status\<close> lists every \<open>WriteHeader\<close> that has reached the client's writer, in
  order. \<open>net/http\<close> sends the first and only logs a further one as superfluous, but its body would
  follow the first one's, so a handler must write exactly one.
\<close>

record lb_state = pool_state +
  algo :: algorithm
  cbRegistry :: "registry option"
  sticky :: "affinity option"
  now :: instant
  sent :: "sent_request list"
  waits :: nat
  randReads :: nat
  writers :: "int list"
  status :: "int list"
  setCookies :: "cookie list"
  logs :: "log_line list"

datatype completion = Done | Panicked

definition MaxBackendSwitches :: int where "MaxBackendSwitches = 3"
definition maxRetries :: int where "maxRetries = 3"

definition idempotentMethods :: "string \<Rightarrow> bool" where
  "idempotentMethods m \<longleftrightarrow> m \<in> {''GET'', ''HEAD'', ''OPTIONS''}"

definition StatusOK :: int where "StatusOK = 200"
definition StatusServiceUnavailable :: int where "StatusServiceUnavailable = 503"

section \<open>Construction\<close>

datatype lb_option = WithCircuitBreaker registry | WithStickySession affinity

fun apply_lb_option :: "lb_option \<Rightarrow> lb_state \<Rightarrow> lb_state" where
  "apply_lb_option (WithCircuitBreaker r) s = s\<lparr>cbRegistry := Some r\<rparr>"
| "apply_lb_option (WithStickySession a) s = s\<lparr>sticky := Some a\<rparr>"

text \<open>\<open>New\<close> around an existing pool: nothing has been served yet.\<close>

definition NewLoadBalancer :: "pool_state \<Rightarrow> algorithm \<Rightarrow> lb_option list \<Rightarrow> lb_state" where
  "NewLoadBalancer p a opts = fold apply_lb_option opts
     \<lparr>heap = heap p, fresh = fresh p, mets = mets p, backends = backends p,
      algo = a, cbRegistry = None, sticky = None, now = 0, sent = [], waits = 0,
      randReads = 0, writers = [], status = [], setCookies = [], logs = []\<rparr>"

definition SetAlgorithm :: "algorithm \<Rightarrow> lb_state \<Rightarrow> lb_state" where
  "SetAlgorithm a s = s\<lparr>algo := a\<rparr>"

text \<open>
  \<open>SetupProxy\<close> stores a reverse proxy for the backend's own URL; its error handler is
  \<open>error_handler\<close> below.
\<close>

definition SetupProxy :: "ref \<Rightarrow> 'a pool_state_scheme \<Rightarrow> 'a pool_state_scheme" where
  "SetupProxy b s = s\<lparr>heap := modify b (\<lambda>x. x\<lparr>ReverseProxy := Some (URL x)\<rparr>) (heap s)\<rparr>"

section \<open>Context values and the request ID\<close>

definition getAttemptsFromContext :: "request \<Rightarrow> int" where
  "getAttemptsFromContext r = (case attemptsKey r of Some v \<Rightarrow> v | None \<Rightarrow> 0)"

definition getRetryFromContext :: "request \<Rightarrow> int" where
  "getRetryFromContext r = (case retryKey r of Some v \<Rightarrow> v | None \<Rightarrow> 0)"

definition getOrCreateRequestID :: "env \<Rightarrow> request \<Rightarrow> lb_state \<Rightarrow> string \<times> lb_state" where
  "getOrCreateRequestID e r s =
     (case requestIDKey r of
        Some rid \<Rightarrow> (rid, s)
      | None \<Rightarrow>
          let s' = s\<lparr>randReads := Suc (randReads s)\<rparr> in
          (case randRead e (randReads s) of
             None \<Rightarrow> (''ts-'' @ Itoa (unixEpoch e + now s), s'\<lparr>logs := logs s' @ [LogRandFailed]\<rparr>)
           | Some b \<Rightarrow> (concat (map hex_byte b), s')))"

text \<open>The context a request is sent on with, at a backend switch and at a retry.\<close>

definition next_attempt :: "request \<Rightarrow> request" where
  "next_attempt r = r\<lparr>attemptsKey := Some (getAttemptsFromContext r + 1), retryKey := Some 0\<rparr>"

definition next_retry :: "request \<Rightarrow> request" where
  "next_retry r = r\<lparr>retryKey := Some (getRetryFromContext r + 1)\<rparr>"

section \<open>Response writers\<close>

definition WriteHeader :: "int \<Rightarrow> lb_state \<Rightarrow> lb_state" where
  "WriteHeader code s =
     s\<lparr>writers := map (\<lambda>_. code) (writers s), status := status s @ [code]\<rparr>"

definition http_Error :: "int \<Rightarrow> lb_state \<Rightarrow> lb_state" where
  "http_Error code s = WriteHeader code s"

text \<open>The status code the innermost wrapper holds.\<close>

definition statusCode :: "lb_state \<Rightarrow> int" where
  "statusCode s = (case writers s of [] \<Rightarrow> StatusOK | c # _ \<Rightarrow> c)"

section \<open>Choosing and admitting a backend\<close>

fun eligible_loop :: "instant \<Rightarrow> store \<Rightarrow> ref list \<Rightarrow> registry \<Rightarrow> ref list \<times> registry" where
  "eligible_loop t h [] reg = ([], reg)"
| "eligible_loop t h (b # bs) reg =
     (case registry_Eligible t (url_of (h b)) reg of
        (ok, reg') \<Rightarrow>
          (case eligible_loop t h bs reg' of
             (filtered, reg'') \<Rightarrow> (if ok then b # filtered else filtered, reg'')))"

definition candidates :: "lb_state \<Rightarrow> ref list \<times> lb_state" where
  "candidates s =
     (let bs = Backends s in
      case cbRegistry s of
        None \<Rightarrow> (bs, s)
      | Some reg \<Rightarrow>
          (case eligible_loop (now s) (heap s) bs reg of
             (filtered, reg') \<Rightarrow>
               (if length filtered > 0 then filtered else bs, s\<lparr>cbRegistry := Some reg'\<rparr>)))"

fun sticky_loop :: "store \<Rightarrow> string \<Rightarrow> ref list \<Rightarrow> ref option" where
  "sticky_loop h t [] = None"
| "sticky_loop h t (b # bs) =
     (if url_of (h b) = t \<and> IsAlive (h b) then Some b else sticky_loop h t bs)"

definition sticky_peer :: "lb_state \<Rightarrow> request \<Rightarrow> ref list \<Rightarrow> ref option" where
  "sticky_peer s r bs =
     (case sticky s of
        None \<Rightarrow> None
      | Some a \<Rightarrow>
          let t = FromRequest a (cookies r) in
          if t \<noteq> [] then sticky_loop (heap s) t bs else None)"

definition select_peer :: "lb_state \<Rightarrow> request \<Rightarrow> ref option \<times> lb_state" where
  "select_peer s r =
     (case candidates s of
        (bs, s') \<Rightarrow>
          (case sticky_peer s' r bs of
             Some peer \<Rightarrow> (Some peer, s')
           | None \<Rightarrow>
               (case Next (algo s') (heap s') bs of (peer, a) \<Rightarrow> (peer, s'\<lparr>algo := a\<rparr>))))"

definition admit :: "ref \<Rightarrow> lb_state \<Rightarrow> bool \<times> lb_state" where
  "admit peer s =
     (case cbRegistry s of
        None \<Rightarrow> (True, s)
      | Some reg \<Rightarrow>
          (case registry_Allow (now s) (ref_url s peer) reg of
             (ok, reg') \<Rightarrow> (ok, s\<lparr>cbRegistry := Some reg'\<rparr>)))"

section \<open>Before and after the reverse proxy\<close>

definition set_cookie :: "ref \<Rightarrow> lb_state \<Rightarrow> lb_state" where
  "set_cookie peer s =
     (case sticky s of
        None \<Rightarrow> s
      | Some a \<Rightarrow> s\<lparr>setCookies := SetCookie a (ref_url s peer) (setCookies s)\<rparr>)"

definition acquire :: "ref \<Rightarrow> lb_state \<Rightarrow> lb_state" where
  "acquire peer s =
     s\<lparr>heap := modify peer IncrConns (heap s), mets := IncrActiveConns (ref_url s peer) (mets s)\<rparr>"

text \<open>The two deferred calls, and the wrapper going out of scope.\<close>

definition release :: "ref \<Rightarrow> lb_state \<Rightarrow> lb_state" where
  "release peer s =
     s\<lparr>heap := modify peer DecrConns (heap s), mets := DecrActiveConns (ref_url s peer) (mets s),
       writers := tl (writers s)\<rparr>"

definition begin_attempt :: "env \<Rightarrow> ref \<Rightarrow> request \<Rightarrow> lb_state \<Rightarrow> request \<times> lb_state" where
  "begin_attempt e peer r s =
     (case getOrCreateRequestID e r (acquire peer (set_cookie peer s)) of
        (requestID, s') \<Rightarrow>
          (if requestIDKey r = None then r\<lparr>requestIDKey := Some requestID\<rparr> else r,
           s'\<lparr>writers := StatusOK # writers s'\<rparr>))"

definition record_outcome_of :: "ref \<Rightarrow> duration \<Rightarrow> lb_state \<Rightarrow> lb_state" where
  "record_outcome_of peer d s =
     (let s' = s\<lparr>mets := RecordRequest (ref_url s peer) (statusCode s) d (mets s)\<rparr> in
      case cbRegistry s' of
        None \<Rightarrow> s'
      | Some reg \<Rightarrow>
          if statusCode s' \<ge> 500
          then s'\<lparr>cbRegistry := Some (registry_RecordFailure (now s') (ref_url s' peer) reg)\<rparr>
          else s'\<lparr>cbRegistry := Some (registry_RecordSuccess (ref_url s' peer) reg)\<rparr>)"

definition finish_attempt :: "ref \<Rightarrow> int \<Rightarrow> instant \<Rightarrow> request \<Rightarrow> lb_state \<Rightarrow> lb_state" where
  "finish_attempt peer attempts start r s =
     (let d = now s - start;
          s = (if getAttemptsFromContext r = attempts then record_outcome_of peer d s else s);
          requestID = (case requestIDKey r of Some rid \<Rightarrow> rid | None \<Rightarrow> [])
      in release peer (s\<lparr>logs := logs s @
           [LogRequest requestID (ref_url s peer) (d div 1000000) (statusCode s) (attempts + 1)]\<rparr>))"

text \<open>What the error handler does when it gives a backend up.\<close>

definition give_up :: "ref \<Rightarrow> string \<Rightarrow> lb_state \<Rightarrow> lb_state" where
  "give_up b e s =
     (let u = URL (heap s b);
          s = MarkBackendStatus u False s;
          s = (case cbRegistry s of
                 None \<Rightarrow> s
               | Some reg \<Rightarrow> s\<lparr>cbRegistry := Some (registry_RecordFailure (now s) (URLString u) reg)\<rparr>)
      in s\<lparr>logs := logs s @ [LogBackendDown (URLString u) e]\<rparr>)"

section \<open>The reverse proxy\<close>

definition singleJoiningSlash :: "string \<Rightarrow> string \<Rightarrow> string" where
  "singleJoiningSlash a b =
     (let aslash = (a \<noteq> [] \<and> last a = CHR ''/''); bslash = (b \<noteq> [] \<and> hd b = CHR ''/'') in
      if aslash \<and> bslash then a @ tl b
      else if \<not> aslash \<and> \<not> bslash then a @ ''/'' @ b
      else a @ b)"

definition Director :: "url \<Rightarrow> request \<Rightarrow> request" where
  "Director t r =
     r\<lparr>reqPath := singleJoiningSlash (Path t) (reqPath r),
       reqQuery := (if RawQuery t = [] \<or> reqQuery r = [] then RawQuery t @ reqQuery r
                    else RawQuery t @ ''&'' @ reqQuery r)\<rparr>"

definition outgoing :: "url \<Rightarrow> request \<Rightarrow> sent_request" where
  "outgoing t r = \<lparr>target = t, sentMethod = Method r, sentPath = reqPath r, sentQuery = reqQuery r\<rparr>"

definition send :: "env \<Rightarrow> sent_request \<Rightarrow> lb_state \<Rightarrow> lb_state" where
  "send e q s = s\<lparr>now := now s + latency e (length (sent s)), sent := sent s @ [q]\<rparr>"

definition retry_wait :: duration where "retry_wait = 10000000"

text \<open>The wait before a retry: the timer fires, or the client goes away first.\<close>

definition wait_retry :: "lb_state \<Rightarrow> lb_state" where
  "wait_retry s = s\<lparr>now := now s + retry_wait, waits := Suc (waits s)\<rparr>"

definition wait_cancelled :: "lb_state \<Rightarrow> lb_state" where
  "wait_cancelled s = s\<lparr>waits := Suc (waits s)\<rparr>"

lemma ctx_simps [simp]:
  "getAttemptsFromContext (next_attempt r) = getAttemptsFromContext r + 1"
  "getRetryFromContext (next_attempt r) = 0"
  "getAttemptsFromContext (next_retry r) = getAttemptsFromContext r"
  "getRetryFromContext (next_retry r) = getRetryFromContext r + 1"
  "getAttemptsFromContext (Director t r) = getAttemptsFromContext r"
  "getRetryFromContext (Director t r) = getRetryFromContext r"
  "getAttemptsFromContext (fst (begin_attempt e peer r s)) = getAttemptsFromContext r"
  "getRetryFromContext (fst (begin_attempt e peer r s)) = getRetryFromContext r"
  "Method (next_attempt r) = Method r" "Method (next_retry r) = Method r"
  "Method (Director t r) = Method r" "Method (fst (begin_attempt e peer r s)) = Method r"
  "requestIDKey (next_attempt r) = requestIDKey r" "requestIDKey (next_retry r) = requestIDKey r"
  "requestIDKey (Director t r) = requestIDKey r"
  by (simp_all add: next_attempt_def next_retry_def Director_def begin_attempt_def
      getAttemptsFromContext_def getRetryFromContext_def case_prod_unfold)

lemma ctx_begin:
  "begin_attempt e peer r s = (r', s') \<Longrightarrow>
     getAttemptsFromContext r' = getAttemptsFromContext r \<and>
     getRetryFromContext r' = getRetryFromContext r \<and> Method r' = Method r"
  by (metis ctx_simps(7,8,12) fst_conv)

section \<open>Serving a request\<close>

text \<open>
  \<open>ServeHTTP\<close>, the reverse proxy's \<open>ServeHTTP\<close> and the error handler call one another. Every
  cycle either raises the attempt number, which is below 3, or keeps it and raises the retry
  number, which is below 3.
\<close>

function ServeHTTP :: "env \<Rightarrow> lb_state \<Rightarrow> request \<Rightarrow> lb_state \<times> completion"
  and proxy_ServeHTTP :: "env \<Rightarrow> ref \<Rightarrow> lb_state \<Rightarrow> request \<Rightarrow> lb_state \<times> completion"
  and error_handler :: "env \<Rightarrow> ref \<Rightarrow> string \<Rightarrow> lb_state \<Rightarrow> request \<Rightarrow> lb_state \<times> completion"
where
  "ServeHTTP e s r =
     (if getAttemptsFromContext r \<ge> MaxBackendSwitches
      then (http_Error StatusServiceUnavailable s, Done)
      else
        (case select_peer s r of
           (None, s1) \<Rightarrow> (http_Error StatusServiceUnavailable s1, Done)
         | (Some peer, s1) \<Rightarrow>
             (case admit peer s1 of
                (False, s2) \<Rightarrow> ServeHTTP e s2 (next_attempt r)
              | (True, s2) \<Rightarrow>
                  (case begin_attempt e peer r s2 of
                     (r', s3) \<Rightarrow>
                       (case proxy_ServeHTTP e peer s3 r' of
                          (s4, Panicked) \<Rightarrow> (release peer s4, Panicked)
                        | (s4, Done) \<Rightarrow>
                            (finish_attempt peer (getAttemptsFromContext r) (now s3) r' s4, Done))))))"
| "proxy_ServeHTTP e peer s r =
     (case ReverseProxy (heap s peer) of
        None \<Rightarrow> (s, Panicked)
      | Some t \<Rightarrow>
          let r' = Director t r; q = outgoing t r'; s' = send e q s in
          (case roundtrip e (length (sent s)) q of
             Responded code \<Rightarrow> (WriteHeader code s', Done)
           | Aborted code \<Rightarrow> (WriteHeader code s', Panicked)
           | Failed err \<Rightarrow> error_handler e peer err s' r'))"
| "error_handler e b err s r =
     (if getRetryFromContext r < maxRetries \<and> idempotentMethods (Method r) then
        (if timerFirst e (waits s) then proxy_ServeHTTP e b (wait_retry s) (next_retry r)
         else (wait_cancelled s, Done))
      else
        let s' = give_up b err s in
        if getAttemptsFromContext r < MaxBackendSwitches then ServeHTTP e s' (next_attempt r)
        else (http_Error StatusServiceUnavailable s', Done))"
  by pat_completeness auto

termination
  by (relation "measures
      [\<lambda>x. case x of Inl (e, s, r) \<Rightarrow> nat (3 - getAttemptsFromContext r)
         | Inr (Inl (e, p, s, r)) \<Rightarrow> nat (3 - getAttemptsFromContext r)
         | Inr (Inr (e, b, err, s, r)) \<Rightarrow> nat (3 - getAttemptsFromContext r),
       \<lambda>x. case x of Inl (e, s, r) \<Rightarrow> nat (3 - getRetryFromContext r)
         | Inr (Inl (e, p, s, r)) \<Rightarrow> nat (3 - getRetryFromContext r)
         | Inr (Inr (e, b, err, s, r)) \<Rightarrow> nat (3 - getRetryFromContext r),
       \<lambda>x. case x of Inl _ \<Rightarrow> 2 | Inr (Inl _) \<Rightarrow> 1 | Inr (Inr _) \<Rightarrow> 0]")
    (auto simp: MaxBackendSwitches_def maxRetries_def dest: ctx_begin [OF sym])

declare ServeHTTP.simps [simp del] proxy_ServeHTTP.simps [simp del] error_handler.simps [simp del]

section \<open>The equations, branch by branch\<close>

lemma ServeHTTP_branches:
  shows ServeHTTP_exhausted: "getAttemptsFromContext r \<ge> MaxBackendSwitches \<Longrightarrow>
      ServeHTTP e s r = (http_Error StatusServiceUnavailable s, Done)"
    and ServeHTTP_no_peer: "getAttemptsFromContext r < MaxBackendSwitches \<Longrightarrow>
      select_peer s r = (None, s1) \<Longrightarrow>
      ServeHTTP e s r = (http_Error StatusServiceUnavailable s1, Done)"
    and ServeHTTP_refused: "getAttemptsFromContext r < MaxBackendSwitches \<Longrightarrow>
      select_peer s r = (Some peer, s1) \<Longrightarrow> admit peer s1 = (False, s2) \<Longrightarrow>
      ServeHTTP e s r = ServeHTTP e s2 (next_attempt r)"
    and ServeHTTP_attempt: "getAttemptsFromContext r < MaxBackendSwitches \<Longrightarrow>
      select_peer s r = (Some peer, s1) \<Longrightarrow> admit peer s1 = (True, s2) \<Longrightarrow>
      begin_attempt e peer r s2 = (r', s3) \<Longrightarrow> proxy_ServeHTTP e peer s3 r' = (s4, c) \<Longrightarrow>
      ServeHTTP e s r =
        (if c = Done then finish_attempt peer (getAttemptsFromContext r) (now s3) r' s4
         else release peer s4, c)"
  by (simp_all add: ServeHTTP.simps [of e s r] split: completion.split)

lemma proxy_branches:
  shows proxy_nil: "ReverseProxy (heap s peer) = None \<Longrightarrow> proxy_ServeHTTP e peer s r = (s, Panicked)"
    and proxy_responded: "ReverseProxy (heap s peer) = Some t \<Longrightarrow> q = outgoing t (Director t r) \<Longrightarrow>
      roundtrip e (length (sent s)) q = Responded code \<Longrightarrow>
      proxy_ServeHTTP e peer s r = (WriteHeader code (send e q s), Done)"
    and proxy_aborted: "ReverseProxy (heap s peer) = Some t \<Longrightarrow> q = outgoing t (Director t r) \<Longrightarrow>
      roundtrip e (length (sent s)) q = Aborted code \<Longrightarrow>
      proxy_ServeHTTP e peer s r = (WriteHeader code (send e q s), Panicked)"
    and proxy_failed: "ReverseProxy (heap s peer) = Some t \<Longrightarrow> q = outgoing t (Director t r) \<Longrightarrow>
      roundtrip e (length (sent s)) q = Failed err \<Longrightarrow>
      proxy_ServeHTTP e peer s r = error_handler e peer err (send e q s) (Director t r)"
  by (simp_all add: proxy_ServeHTTP.simps [of e peer s r] Let_def)

lemma handler_branches:
  shows handler_retry: "getRetryFromContext r < maxRetries \<Longrightarrow> idempotentMethods (Method r) \<Longrightarrow>
      timerFirst e (waits s) \<Longrightarrow>
      error_handler e b err s r = proxy_ServeHTTP e b (wait_retry s) (next_retry r)"
    and handler_cancelled: "getRetryFromContext r < maxRetries \<Longrightarrow> idempotentMethods (Method r) \<Longrightarrow>
      \<not> timerFirst e (waits s) \<Longrightarrow> error_handler e b err s r = (wait_cancelled s, Done)"
    and handler_switch: "\<not> (getRetryFromContext r < maxRetries \<and> idempotentMethods (Method r)) \<Longrightarrow>
      getAttemptsFromContext r < MaxBackendSwitches \<Longrightarrow>
      error_handler e b err s r = ServeHTTP e (give_up b err s) (next_attempt r)"
    and handler_exhausted: "\<not> (getRetryFromContext r < maxRetries \<and> idempotentMethods (Method r)) \<Longrightarrow>
      getAttemptsFromContext r \<ge> MaxBackendSwitches \<Longrightarrow>
      error_handler e b err s r = (http_Error StatusServiceUnavailable (give_up b err s), Done)"
  by (auto simp: error_handler.simps [of e b err s r] Let_def)

text \<open>Induction along the calls, one case per branch.\<close>

lemma serve_induct [case_names exhausted no_peer refused attempt nil responded aborted failed
    retry cancelled switch give_up]:
  assumes "\<And>e s r. getAttemptsFromContext r \<ge> MaxBackendSwitches \<Longrightarrow> P e s r"
    and "\<And>e s r s1. getAttemptsFromContext r < MaxBackendSwitches \<Longrightarrow>
      select_peer s r = (None, s1) \<Longrightarrow> P e s r"
    and "\<And>e s r peer s1 s2. getAttemptsFromContext r < MaxBackendSwitches \<Longrightarrow>
      select_peer s r = (Some peer, s1) \<Longrightarrow> admit peer s1 = (False, s2) \<Longrightarrow>
      P e s2 (next_attempt r) \<Longrightarrow> P e s r"
    and "\<And>e s r peer s1 s2 r' s3 s4 c. getAttemptsFromContext r < MaxBackendSwitches \<Longrightarrow>
      select_peer s r = (Some peer, s1) \<Longrightarrow> admit peer s1 = (True, s2) \<Longrightarrow>
      begin_attempt e peer r s2 = (r', s3) \<Longrightarrow> proxy_ServeHTTP e peer s3 r' = (s4, c) \<Longrightarrow>
      Q e peer s3 r' \<Longrightarrow> P e s r"
    and "\<And>e peer s r. ReverseProxy (heap s peer) = None \<Longrightarrow> Q e peer s r"
    and "\<And>e peer s r t q code. ReverseProxy (heap s peer) = Some t \<Longrightarrow>
      q = outgoing t (Director t r) \<Longrightarrow> roundtrip e (length (sent s)) q = Responded code \<Longrightarrow> Q e peer s r"
    and "\<And>e peer s r t q code. ReverseProxy (heap s peer) = Some t \<Longrightarrow>
      q = outgoing t (Director t r) \<Longrightarrow> roundtrip e (length (sent s)) q = Aborted code \<Longrightarrow> Q e peer s r"
    and "\<And>e peer s r t q err. ReverseProxy (heap s peer) = Some t \<Longrightarrow>
      q = outgoing t (Director t r) \<Longrightarrow> roundtrip e (length (sent s)) q = Failed err \<Longrightarrow>
      H e peer err (send e q s) (Director t r) \<Longrightarrow> Q e peer s r"
    and "\<And>e b err s r. getRetryFromContext r < maxRetries \<Longrightarrow> idempotentMethods (Method r) \<Longrightarrow>
      timerFirst e (waits s) \<Longrightarrow> Q e b (wait_retry s) (next_retry r) \<Longrightarrow> H e b err s r"
    and "\<And>e b err s r. getRetryFromContext r < maxRetries \<Longrightarrow> idempotentMethods (Method r) \<Longrightarrow>
      \<not> timerFirst e (waits s) \<Longrightarrow> H e b err s r"
    and "\<And>e b err s r. \<not> (getRetryFromContext r < maxRetries \<and> idempotentMethods (Method r)) \<Longrightarrow>
      getAttemptsFromContext r < MaxBackendSwitches \<Longrightarrow>
      P e (give_up b err s) (next_attempt r) \<Longrightarrow> H e b err s r"
    and "\<And>e b err s r. \<not> (getRetryFromContext r < maxRetries \<and> idempotentMethods (Method r)) \<Longrightarrow>
      getAttemptsFromContext r \<ge> MaxBackendSwitches \<Longrightarrow> H e b err s r"
  shows "P e s r" and "Q e' peer s' r'" and "H e'' b err s'' r''"
proof (induction e s r and e' peer s' r' and e'' b err s'' r''
    rule: ServeHTTP_proxy_ServeHTTP_error_handler.induct)
  case (1 e s r)
  obtain p s1 where sel: "select_peer s r = (p, s1)" by fastforce
  show ?case
  proof (cases "getAttemptsFromContext r < MaxBackendSwitches \<and> p \<noteq> None")
    case True
    then obtain peer where peer: "p = Some peer" by auto
    obtain ok s2 where adm: "admit peer s1 = (ok, s2)" by fastforce
    obtain r' s3 where bg: "begin_attempt e peer r s2 = (r', s3)" by fastforce
    obtain s4 c where px: "proxy_ServeHTTP e peer s3 r' = (s4, c)" by fastforce
    show ?thesis
    proof (cases ok)
      case ok: True
      have "Q e peer s3 r'" using "1.IH"(1) True sel peer adm ok bg by simp
      with True sel [unfolded peer] adm ok bg px show ?thesis
        by (intro assms(4) [of r s peer s1 s2 e r' s3 s4 c]) simp_all
    next
      case no: False
      have "P e s2 (next_attempt r)" using "1.IH"(2) True sel peer adm no by simp
      with True sel [unfolded peer] adm no show ?thesis
        by (intro assms(3) [of r s peer s1 s2 e]) simp_all
    qed
  next
    case False
    with sel show ?thesis using assms(1,2) by (metis not_less)
  qed
next
  case (2 e peer s r)
  show ?case
  proof (cases "ReverseProxy (heap s peer)")
    case None
    then show ?thesis by (rule assms(5))
  next
    case (Some t)
    let ?q = "outgoing t (Director t r)"
    show ?thesis
    proof (cases "roundtrip e (length (sent s)) ?q")
      case (Responded code)
      with Some show ?thesis by (intro assms(6)) simp_all
    next
      case (Failed err)
      have "H e peer err (send e ?q s) (Director t r)" using "2.IH" Some Failed by simp
      with Some Failed show ?thesis by (intro assms(8)) simp_all
    next
      case (Aborted code)
      with Some show ?thesis by (intro assms(7)) simp_all
    qed
  qed
next
  case (3 e b err s r)
  then show ?case
    using assms(9-12) by (metis not_less)
qed

end
