(* ===== verification/Proxy_Facts.thy ===== *)
theory Proxy_Facts
  imports Proxy
begin

text \<open>
  What serving one request does to the shared state. The three mutually recursive functions are
  reasoned about once, in the locale \<open>serve_rel\<close>: a reflexive and transitive relation that every
  primitive step respects, and that brackets every attempt between its start and its end, relates
  the state before a request to the state after it. Its interpretations give conservation of the
  connection counts, the frame conditions, and preservation of the invariant.
\<close>

section \<open>The induction, once\<close>

locale serve_rel =
  fixes R :: "lb_state \<Rightarrow> lb_state \<Rightarrow> bool"
  assumes R_refl: "R s s"
    and R_trans: "R s t \<Longrightarrow> R t u \<Longrightarrow> R s u"
    and R_select: "R s (snd (select_peer s r))"
    and R_admit: "R s (snd (admit peer s))"
    and R_write: "R s (WriteHeader code s)"
    and R_send: "R s (send e q s)"
    and R_wait: "R s (wait_retry s)"
    and R_cancel: "R s (wait_cancelled s)"
    and R_give_up: "R s (give_up peer err s)"
    and R_frame: "R (snd (begin_attempt e peer r s)) s' \<Longrightarrow>
      R s (finish_attempt peer (getAttemptsFromContext r) start (fst (begin_attempt e peer r s)) s')"
    and R_panic: "R (snd (begin_attempt e peer r s)) s' \<Longrightarrow> R s (release peer s')"
begin

lemma serve_R:
  "R s (fst (ServeHTTP e s r))"
  "R s' (fst (proxy_ServeHTTP e' peer s' r'))"
  "R s'' (fst (error_handler e'' b err s'' r''))"
proof (induction e s r and e' peer s' r' and e'' b err s'' r'' rule: serve_induct)
  case (exhausted e s r)
  then show ?case by (simp add: ServeHTTP_exhausted http_Error_def R_write)
next
  case (no_peer e s r s1)
  then show ?case
    using R_trans [OF R_select [of s r] R_write] by (simp add: ServeHTTP_no_peer http_Error_def)
next
  case (refused e s r peer s1 s2)
  have "R s s2" using R_trans [OF R_select [of s r] R_admit [of _ peer]] refused by simp
  with refused show ?case by (auto simp: ServeHTTP_refused intro: R_trans)
next
  case (attempt e s r peer s1 s2 r' s3 s4 c)
  have "R s s2" using R_trans [OF R_select [of s r] R_admit [of _ peer]] attempt by simp
  moreover have br: "R (snd (begin_attempt e peer r s2)) s4" using attempt by simp
  have "R s2 (fst (ServeHTTP e s r))"
    using attempt R_frame [OF br, of "now s3"] R_panic [OF br] by (simp add: ServeHTTP_attempt)
  ultimately show ?case by (rule R_trans)
next
  case (nil e peer s r)
  then show ?case by (simp add: proxy_nil R_refl)
next
  case (responded e peer s r t q code)
  then show ?case by (simp add: proxy_responded R_trans [OF R_send R_write])
next
  case (aborted e peer s r t q code)
  then show ?case by (simp add: proxy_aborted R_trans [OF R_send R_write])
next
  case (failed e peer s r t q err)
  then show ?case by (simp add: proxy_failed R_trans [OF R_send])
next
  case (retry e b err s r)
  then show ?case by (simp add: handler_retry R_trans [OF R_wait])
next
  case (cancelled e b err s r)
  then show ?case by (simp add: handler_cancelled R_cancel)
next
  case (switch e b err s r)
  then show ?case by (simp add: handler_switch R_trans [OF R_give_up])
next
  case (give_up e b err s r)
  then show ?case by (simp add: handler_exhausted http_Error_def R_trans [OF R_give_up R_write])
qed

end

text \<open>Relations that each step of the bracket respects by itself.\<close>

locale serve_step_rel =
  fixes R :: "lb_state \<Rightarrow> lb_state \<Rightarrow> bool"
  assumes S_refl: "R s s"
    and S_trans: "R s t \<Longrightarrow> R t u \<Longrightarrow> R s u"
    and S_select: "R s (snd (select_peer s r))"
    and S_admit: "R s (snd (admit peer s))"
    and S_write: "R s (WriteHeader code s)"
    and S_send: "R s (send e q s)"
    and S_wait: "R s (wait_retry s)"
    and S_cancel: "R s (wait_cancelled s)"
    and S_give_up: "R s (give_up peer err s)"
    and S_begin: "R s (snd (begin_attempt e peer r s))"
    and S_finish: "R s (finish_attempt peer n start r' s)"
    and S_release: "R s (release peer s)"

sublocale serve_step_rel \<subseteq> serve_rel R
proof
  show "R s s" for s by (rule S_refl)
  show "R s t \<Longrightarrow> R t u \<Longrightarrow> R s u" for s t u by (rule S_trans)
  show "R (snd (begin_attempt e peer r s)) s' \<Longrightarrow>
    R s (finish_attempt peer (getAttemptsFromContext r) start (fst (begin_attempt e peer r s)) s')"
    for e peer r s s' start
    by (rule S_trans [OF S_begin S_trans [OF _ S_finish]])
  show "R (snd (begin_attempt e peer r s)) s' \<Longrightarrow> R s (release peer s')" for e peer r s s'
    by (rule S_trans [OF S_begin S_trans [OF _ S_release]])
qed (rule S_select S_admit S_write S_send S_wait S_cancel S_give_up)+

section \<open>What each step leaves unchanged\<close>

lemma eligible_loop_filter:
  "fst (eligible_loop t h bs reg) = filter (\<lambda>b. Eligible t (breaker_at reg (url_of (h b)))) bs"
  "breaker_at (snd (eligible_loop t h bs reg)) = breaker_at reg"
  by (induction bs arbitrary: reg) (simp_all add: case_prod_unfold)

text \<open>Fields: only the algorithm's state and the registry change while a backend is chosen.\<close>

lemma select_fields [frame_simps]:
  "heap (snd (select_peer s r)) = heap s" "backends (snd (select_peer s r)) = backends s"
  "fresh (snd (select_peer s r)) = fresh s" "mets (snd (select_peer s r)) = mets s"
  "sticky (snd (select_peer s r)) = sticky s" "now (snd (select_peer s r)) = now s"
  "sent (snd (select_peer s r)) = sent s" "writers (snd (select_peer s r)) = writers s"
  "status (snd (select_peer s r)) = status s" "setCookies (snd (select_peer s r)) = setCookies s"
  "logs (snd (select_peer s r)) = logs s" "waits (snd (select_peer s r)) = waits s"
  "(cbRegistry (snd (select_peer s r)) = None) = (cbRegistry s = None)"
  "Name (algo (snd (select_peer s r))) = Name (algo s)"
  using Name_Next [of "algo s"]
  by (auto simp: select_peer_def candidates_def Let_def split: option.splits prod.splits)
    (metis snd_conv)+

lemma admit_fields [frame_simps]:
  "heap (snd (admit p s)) = heap s" "backends (snd (admit p s)) = backends s"
  "fresh (snd (admit p s)) = fresh s" "mets (snd (admit p s)) = mets s"
  "sticky (snd (admit p s)) = sticky s" "now (snd (admit p s)) = now s"
  "sent (snd (admit p s)) = sent s" "writers (snd (admit p s)) = writers s"
  "status (snd (admit p s)) = status s" "setCookies (snd (admit p s)) = setCookies s"
  "logs (snd (admit p s)) = logs s" "waits (snd (admit p s)) = waits s"
  "(cbRegistry (snd (admit p s)) = None) = (cbRegistry s = None)"
  "algo (snd (admit p s)) = algo s"
  by (auto simp: admit_def split: option.splits prod.splits)

lemma small_fields [frame_simps]:
  "heap (WriteHeader c s) = heap s" "backends (WriteHeader c s) = backends s"
  "fresh (WriteHeader c s) = fresh s" "mets (WriteHeader c s) = mets s"
  "sticky (WriteHeader c s) = sticky s" "cbRegistry (WriteHeader c s) = cbRegistry s"
  "algo (WriteHeader c s) = algo s" "sent (WriteHeader c s) = sent s"
  "setCookies (WriteHeader c s) = setCookies s" "logs (WriteHeader c s) = logs s"
  "now (WriteHeader c s) = now s" "waits (WriteHeader c s) = waits s"
  "heap (send e q s) = heap s" "backends (send e q s) = backends s"
  "fresh (send e q s) = fresh s" "mets (send e q s) = mets s"
  "sticky (send e q s) = sticky s" "cbRegistry (send e q s) = cbRegistry s"
  "algo (send e q s) = algo s" "sent (send e q s) = sent s @ [q]"
  "setCookies (send e q s) = setCookies s" "logs (send e q s) = logs s"
  "status (send e q s) = status s" "writers (send e q s) = writers s" "waits (send e q s) = waits s"
  "heap (wait_retry s) = heap s" "backends (wait_retry s) = backends s"
  "fresh (wait_retry s) = fresh s" "mets (wait_retry s) = mets s"
  "sticky (wait_retry s) = sticky s" "cbRegistry (wait_retry s) = cbRegistry s"
  "algo (wait_retry s) = algo s" "sent (wait_retry s) = sent s"
  "setCookies (wait_retry s) = setCookies s" "logs (wait_retry s) = logs s"
  "status (wait_retry s) = status s" "writers (wait_retry s) = writers s"
  "heap (wait_cancelled s) = heap s" "backends (wait_cancelled s) = backends s"
  "fresh (wait_cancelled s) = fresh s" "mets (wait_cancelled s) = mets s"
  "sticky (wait_cancelled s) = sticky s" "cbRegistry (wait_cancelled s) = cbRegistry s"
  "algo (wait_cancelled s) = algo s" "sent (wait_cancelled s) = sent s"
  "setCookies (wait_cancelled s) = setCookies s" "logs (wait_cancelled s) = logs s"
  "status (wait_cancelled s) = status s" "writers (wait_cancelled s) = writers s"
  by (simp_all add: WriteHeader_def send_def wait_retry_def wait_cancelled_def)

lemma Mark_fields [frame_simps]:
  "backends (MarkBackendStatus u v s) = backends s" "fresh (MarkBackendStatus u v s) = fresh s"
  "URL (heap (MarkBackendStatus u v s) r) = URL (heap s r)"
  "Weight (heap (MarkBackendStatus u v s) r) = Weight (heap s r)"
  "activeConns (heap (MarkBackendStatus u v s) r) = activeConns (heap s r)"
  "ReverseProxy (heap (MarkBackendStatus u v s) r) = ReverseProxy (heap s r)"
  "enabled (mets (MarkBackendStatus u v s)) = enabled (mets s)"
  "active_value x (calls (mets (MarkBackendStatus u v s))) = active_value x (calls (mets s))"
  "counter_value ls (calls (mets (MarkBackendStatus u v s))) = counter_value ls (calls (mets s))"
  by (auto simp: MarkBackendStatus_def modify_def heap_simps frame_simps split: option.splits)

lemma Mark_lb_fields [frame_simps]:
  "sticky (MarkBackendStatus u v s) = sticky s" "cbRegistry (MarkBackendStatus u v s) = cbRegistry s"
  "algo (MarkBackendStatus u v s) = algo s" "sent (MarkBackendStatus u v s) = sent s"
  "setCookies (MarkBackendStatus u v s) = setCookies s" "logs (MarkBackendStatus u v s) = logs s"
  "status (MarkBackendStatus u v s) = status s" "writers (MarkBackendStatus u v s) = writers s"
  "now (MarkBackendStatus u v s) = now s" "waits (MarkBackendStatus u v s) = waits s"
  by (auto simp: MarkBackendStatus_def split: option.splits)

lemma give_up_fields [frame_simps]:
  "backends (give_up b e s) = backends s" "fresh (give_up b e s) = fresh s"
  "heap (give_up b e s) = heap (MarkBackendStatus (URL (heap s b)) False s)"
  "mets (give_up b e s) = mets (MarkBackendStatus (URL (heap s b)) False s)"
  "sticky (give_up b e s) = sticky s" "algo (give_up b e s) = algo s"
  "sent (give_up b e s) = sent s" "setCookies (give_up b e s) = setCookies s"
  "logs (give_up b e s) = logs s @ [LogBackendDown (ref_url s b) e]"
  "status (give_up b e s) = status s" "writers (give_up b e s) = writers s"
  "now (give_up b e s) = now s" "waits (give_up b e s) = waits s"
  "cbRegistry (give_up b e s) =
     map_option (registry_RecordFailure (now s) (ref_url s b)) (cbRegistry s)"
  by (auto simp: give_up_def Let_def frame_simps split: option.splits)

lemma begin_fields [frame_simps]:
  "heap (snd (begin_attempt e p r s)) = modify p IncrConns (heap s)"
  "backends (snd (begin_attempt e p r s)) = backends s"
  "fresh (snd (begin_attempt e p r s)) = fresh s"
  "mets (snd (begin_attempt e p r s)) = IncrActiveConns (ref_url s p) (mets s)"
  "sticky (snd (begin_attempt e p r s)) = sticky s"
  "cbRegistry (snd (begin_attempt e p r s)) = cbRegistry s"
  "algo (snd (begin_attempt e p r s)) = algo s"
  "sent (snd (begin_attempt e p r s)) = sent s"
  "waits (snd (begin_attempt e p r s)) = waits s"
  "now (snd (begin_attempt e p r s)) = now s"
  "status (snd (begin_attempt e p r s)) = status s"
  "writers (snd (begin_attempt e p r s)) = StatusOK # writers s"
  "setCookies (snd (begin_attempt e p r s)) =
     (case sticky s of None \<Rightarrow> setCookies s | Some a \<Rightarrow> SetCookie a (ref_url s p) (setCookies s))"
  by (auto simp: begin_attempt_def getOrCreateRequestID_def acquire_def set_cookie_def
      case_prod_unfold Let_def modify_def split: option.splits)

lemma record_fields [frame_simps]:
  "heap (record_outcome_of p d s) = heap s" "backends (record_outcome_of p d s) = backends s"
  "fresh (record_outcome_of p d s) = fresh s" "sticky (record_outcome_of p d s) = sticky s"
  "algo (record_outcome_of p d s) = algo s" "sent (record_outcome_of p d s) = sent s"
  "setCookies (record_outcome_of p d s) = setCookies s" "logs (record_outcome_of p d s) = logs s"
  "status (record_outcome_of p d s) = status s" "writers (record_outcome_of p d s) = writers s"
  "now (record_outcome_of p d s) = now s"
  "mets (record_outcome_of p d s) = RecordRequest (ref_url s p) (statusCode s) d (mets s)"
  "cbRegistry (record_outcome_of p d s) =
     map_option (\<lambda>reg. if statusCode s \<ge> 500 then registry_RecordFailure (now s) (ref_url s p) reg
                       else registry_RecordSuccess (ref_url s p) reg) (cbRegistry s)"
  by (auto simp: record_outcome_of_def Let_def statusCode_def split: option.splits)

lemma release_fields [frame_simps]:
  "heap (release p s) = modify p DecrConns (heap s)" "backends (release p s) = backends s"
  "fresh (release p s) = fresh s" "mets (release p s) = DecrActiveConns (ref_url s p) (mets s)"
  "sticky (release p s) = sticky s" "cbRegistry (release p s) = cbRegistry s"
  "algo (release p s) = algo s" "sent (release p s) = sent s"
  "setCookies (release p s) = setCookies s" "logs (release p s) = logs s"
  "status (release p s) = status s" "writers (release p s) = tl (writers s)" "now (release p s) = now s"
  by (simp_all add: release_def)

text \<open>\<open>finish_attempt\<close> records, logs and releases; the guard on the attempt number is \<open>g\<close>.\<close>

lemma finish_eq:
  "finish_attempt p n st r s =
     release p (if getAttemptsFromContext r = n then record_outcome_of p (now s - st) s else s)
       \<lparr>logs := logs s @ [LogRequest (case requestIDKey r of Some i \<Rightarrow> i | None \<Rightarrow> []) (ref_url s p)
          ((now s - st) div 1000000) (statusCode s) (n + 1)]\<rparr>"
  by (simp add: finish_attempt_def Let_def release_def frame_simps statusCode_def)

section \<open>Frame of a request\<close>

text \<open>
  Serving a request never changes the pool's membership, a backend's URL, weight or reverse
  proxy, which algorithm runs, or whether metrics and breakers are on; liveness only goes down.
\<close>

definition serve_frame :: "lb_state \<Rightarrow> lb_state \<Rightarrow> bool" where
  "serve_frame s t \<longleftrightarrow>
     backends t = backends s \<and> fresh t = fresh s \<and> sticky t = sticky s \<and>
     Name (algo t) = Name (algo s) \<and> (cbRegistry t = None) = (cbRegistry s = None) \<and>
     enabled (mets t) = enabled (mets s) \<and>
     (\<forall>r. URL (heap t r) = URL (heap s r) \<and> Weight (heap t r) = Weight (heap s r) \<and>
          ReverseProxy (heap t r) = ReverseProxy (heap s r) \<and>
          (alive (heap t r) \<longrightarrow> alive (heap s r)))"

lemma serve_frame_same_heap:
  "heap t = heap s \<Longrightarrow> backends t = backends s \<Longrightarrow> fresh t = fresh s \<Longrightarrow> sticky t = sticky s \<Longrightarrow>
   Name (algo t) = Name (algo s) \<Longrightarrow> (cbRegistry t = None) = (cbRegistry s = None) \<Longrightarrow>
   enabled (mets t) = enabled (mets s) \<Longrightarrow> serve_frame s t"
  by (simp add: serve_frame_def)

lemma alive_Mark_False: "alive (heap (MarkBackendStatus u False s) r) \<Longrightarrow> alive (heap s r)"
  by (auto simp: MarkBackendStatus_def modify_def heap_simps split: option.splits if_splits)

interpretation frame: serve_step_rel serve_frame
proof
  fix s t u :: lb_state
  show "serve_frame s s" by (simp add: serve_frame_def)
  show "serve_frame s t \<Longrightarrow> serve_frame t u \<Longrightarrow> serve_frame s u" by (simp add: serve_frame_def)
next
  fix s r peer code e q err n start r'
  show "serve_frame s (snd (select_peer s r))" by (rule serve_frame_same_heap) (simp_all add: frame_simps)
  show "serve_frame s (snd (admit peer s))" by (rule serve_frame_same_heap) (simp_all add: frame_simps)
  show "serve_frame s (WriteHeader code s)" by (rule serve_frame_same_heap) (simp_all add: frame_simps)
  show "serve_frame s (send e q s)" by (rule serve_frame_same_heap) (simp_all add: frame_simps)
  show "serve_frame s (wait_retry s)" by (rule serve_frame_same_heap) (simp_all add: frame_simps)
  show "serve_frame s (wait_cancelled s)" by (rule serve_frame_same_heap) (simp_all add: frame_simps)
  show "serve_frame s (give_up peer err s)"
    by (auto simp: serve_frame_def frame_simps dest: alive_Mark_False)
  show "serve_frame s (snd (begin_attempt e peer r s))"
    by (auto simp: serve_frame_def frame_simps heap_simps)
  show "serve_frame s (finish_attempt peer n start r' s)"
    by (auto simp: serve_frame_def finish_eq frame_simps heap_simps)
  show "serve_frame s (release peer s)"
    by (auto simp: serve_frame_def frame_simps heap_simps)
qed

lemma serve_frame_url: "serve_frame s t \<Longrightarrow> ref_url t r = ref_url s r"
  by (simp add: serve_frame_def)

section \<open>Conservation of connection counts\<close>

definition conserves :: "lb_state \<Rightarrow> lb_state \<Rightarrow> bool" where
  "conserves s t \<longleftrightarrow> serve_frame s t \<and>
     (\<forall>r. is_int64 (activeConns (heap s r)) \<longrightarrow> activeConns (heap t r) = activeConns (heap s r)) \<and>
     (\<forall>u. active_value u (calls (mets t)) = active_value u (calls (mets s))) \<and>
     length (writers t) = length (writers s)"

lemma conserves_same:
  "serve_frame s t \<Longrightarrow> (\<And>r. activeConns (heap t r) = activeConns (heap s r)) \<Longrightarrow>
   (\<And>u. active_value u (calls (mets t)) = active_value u (calls (mets s))) \<Longrightarrow>
   length (writers t) = length (writers s) \<Longrightarrow> conserves s t"
  by (simp add: conserves_def)

lemma conserves_bracket:
  assumes c: "conserves (snd (begin_attempt e peer r s)) s'"
    and t: "heap t = modify peer DecrConns (heap s')"
      "active_value u (calls (mets t)) =
         active_value u (calls (mets s')) - (if enabled (mets s') \<and> ref_url s' peer = u then 1 else 0)"
      "length (writers t) = length (writers s') - 1"
  shows "is_int64 (activeConns (heap s x)) \<Longrightarrow> activeConns (heap t x) = activeConns (heap s x)"
    and "active_value u (calls (mets t)) = active_value u (calls (mets s))"
    and "length (writers t) = length (writers s)"
proof -
  assume x: "is_int64 (activeConns (heap s x))"
  then have "is_int64 (activeConns (heap (snd (begin_attempt e peer r s)) x))"
    by (auto simp: frame_simps modify_def IncrConns_def)
  then have "activeConns (heap s' x) = activeConns (modify peer IncrConns (heap s) x)"
    using c by (simp add: conserves_def frame_simps)
  then show "activeConns (heap t x) = activeConns (heap s x)"
    using x t(1) by (cases "x = peer") (simp_all add: modify_def IncrConns_def DecrConns_def int64_id)
next
  have "ref_url s' peer = ref_url s peer" "enabled (mets s') = enabled (mets s)"
    using c by (simp_all add: conserves_def serve_frame_def frame_simps heap_simps)
  then show "active_value u (calls (mets t)) = active_value u (calls (mets s))"
    using c t(2) by (simp add: conserves_def frame_simps)
  show "length (writers t) = length (writers s)"
    using c t(3) by (simp add: conserves_def frame_simps)
qed

interpretation conserve: serve_rel conserves
proof
  fix s t u :: lb_state
  show "conserves s s" using frame.S_refl by (simp add: conserves_def)
  show "conserves s t \<Longrightarrow> conserves t u \<Longrightarrow> conserves s u"
    using frame.S_trans by (auto simp: conserves_def)
next
  fix s s' r peer code e q err start
  show "conserves s (snd (select_peer s r))"
    by (rule conserves_same [OF frame.S_select]) (simp_all add: frame_simps)
  show "conserves s (snd (admit peer s))"
    by (rule conserves_same [OF frame.S_admit]) (simp_all add: frame_simps)
  show "conserves s (WriteHeader code s)"
    by (rule conserves_same [OF frame.S_write]) (simp_all add: frame_simps WriteHeader_def)
  show "conserves s (send e q s)"
    by (rule conserves_same [OF frame.S_send]) (simp_all add: frame_simps)
  show "conserves s (wait_retry s)"
    by (rule conserves_same [OF frame.S_wait]) (simp_all add: frame_simps)
  show "conserves s (wait_cancelled s)"
    by (rule conserves_same [OF frame.S_cancel]) (simp_all add: frame_simps)
  show "conserves s (give_up peer err s)"
    by (rule conserves_same [OF frame.S_give_up]) (simp_all add: frame_simps)
  assume br: "conserves (snd (begin_attempt e peer r s)) s'"
  then have fr: "serve_frame (snd (begin_attempt e peer r s)) s'" by (simp add: conserves_def)
  let ?n = "getAttemptsFromContext r" and ?r = "fst (begin_attempt e peer r s)"
  have "heap (finish_attempt peer ?n start ?r s') = modify peer DecrConns (heap s')"
    and "\<And>u. active_value u (calls (mets (finish_attempt peer ?n start ?r s'))) =
         active_value u (calls (mets s')) - (if enabled (mets s') \<and> ref_url s' peer = u then 1 else 0)"
    and "length (writers (finish_attempt peer ?n start ?r s')) = length (writers s') - 1"
    by (simp_all add: finish_eq frame_simps)
  note fin = conserves_bracket [OF br this]
  show "conserves s (finish_attempt peer ?n start ?r s')"
    using frame.R_frame [OF fr] fin by (simp add: conserves_def)
  have "heap (release peer s') = modify peer DecrConns (heap s')"
    and "\<And>u. active_value u (calls (mets (release peer s'))) =
         active_value u (calls (mets s')) - (if enabled (mets s') \<and> ref_url s' peer = u then 1 else 0)"
    and "length (writers (release peer s')) = length (writers s') - 1"
    by (simp_all add: frame_simps)
  note rel = conserves_bracket [OF br this]
  show "conserves s (release peer s')"
    using frame.R_panic [OF fr] rel by (simp add: conserves_def)
qed

end
