(* ===== verification/Proxy_Props.thy ===== *)
theory Proxy_Props
  imports Proxy_Facts
begin

text \<open>
  The properties of serving a request: bounds on the work, what the client gets, what happens to
  liveness, breakers, metrics, cookies and request IDs.
\<close>

section \<open>The pool a load balancer serves from\<close>

definition lb_wf :: "'a pool_state_scheme \<Rightarrow> bool" where
  "lb_wf s \<longleftrightarrow> pool_wf s \<and> (\<forall>r \<in> set (backends s). ReverseProxy (heap s r) = Some (URL (heap s r)))"

lemma lb_wf_frame: "serve_frame s t \<Longrightarrow> lb_wf s \<Longrightarrow> lb_wf t"
  by (auto simp: lb_wf_def serve_frame_def pool_wf_def BackendURLs_def)

text \<open>A load balancer over plain HTTP backends, for concrete instances.\<close>

definition sample_pool :: "backend list \<Rightarrow> pool_state" where
  "sample_pool bs = \<lparr>heap = (\<lambda>r. if r < length bs then bs ! r else http_backend ''unused'' 1),
     fresh = length bs, mets = metrics0\<lparr>initialized := True, enabled := True\<rparr>,
     backends = [0..<length bs]\<rparr>"

definition sample_lb :: "string list \<Rightarrow> lb_option list \<Rightarrow> lb_state" where
  "sample_lb hosts opts =
     NewLoadBalancer (sample_pool (map (\<lambda>h. http_backend h 1) hosts)) (RoundRobin \<lparr>current = - 1\<rparr>) opts"

lemma apply_options_fields:
  "heap (fold apply_lb_option opts s) = heap s \<and> fresh (fold apply_lb_option opts s) = fresh s \<and>
   backends (fold apply_lb_option opts s) = backends s"
proof (induction opts arbitrary: s)
  case (Cons x opts)
  then show ?case by (cases x) simp_all
qed simp

lemma lb_wf_sample: "distinct hosts \<Longrightarrow> lb_wf (sample_lb hosts opts)"
proof -
  assume d: "distinct hosts"
  have "map (\<lambda>r. url_of (heap (sample_pool (map (\<lambda>h. http_backend h 1) hosts)) r)) [0..<length hosts]
      = map (\<lambda>h. ''http://'' @ h) hosts"
    by (rule nth_equalityI) (simp_all add: sample_pool_def http_backend_def http_url_def)
  moreover have "distinct (map (\<lambda>h. ''http://'' @ h) hosts)" using d by (simp add: distinct_map inj_on_def)
  ultimately show ?thesis
    by (simp add: lb_wf_def pool_wf_def BackendURLs_def sample_lb_def NewLoadBalancer_def
        apply_options_fields del: map_eq_conv)
      (simp add: sample_pool_def http_backend_def)
qed

definition sample_request :: "string \<Rightarrow> request" where
  "sample_request m = \<lparr>Method = m, reqPath = ''/x'', reqQuery = [], cookies = [],
     attemptsKey = None, retryKey = None, requestIDKey = None\<rparr>"

text \<open>A world in which exactly the given hosts answer, with status 200.\<close>

definition sample_env :: "string list \<Rightarrow> env" where
  "sample_env up = \<lparr>roundtrip = (\<lambda>n q. if Host (target q) \<in> set up then Responded 200
       else Failed ''connection refused''),
     latency = (\<lambda>_. 1000000), timerFirst = (\<lambda>_. True), randRead = (\<lambda>_. Some ''01234567''),
     unixEpoch = 0\<rparr>"

section \<open>The selected backend\<close>



lemma candidates_subset: "set (fst (candidates s)) \<subseteq> set (backends s)"
  by (auto simp: candidates_def Backends_def Let_def case_prod_unfold eligible_loop_filter
      split: option.splits if_splits)

lemma candidates_heap: "heap (snd (candidates s)) = heap s" "cbRegistry s = None \<Longrightarrow> candidates s = (backends s, s)"
  by (auto simp: candidates_def Backends_def Let_def case_prod_unfold split: option.splits)

lemma sticky_loop_Some:
  "sticky_loop h u bs = Some r \<Longrightarrow> r \<in> set bs \<and> IsAlive (h r) \<and> url_of (h r) = u"
  by (induction bs) (auto split: if_splits)

lemma select_peer_alive:
  assumes "select_peer s r = (Some p, s')"
  shows "p \<in> set (fst (candidates s)) \<and> IsAlive (heap s p)"
proof -
  obtain bs s1 where c: "candidates s = (bs, s1)" by fastforce
  then have h: "heap s1 = heap s" using candidates_heap [of s] by simp
  show ?thesis
  proof (cases "sticky_peer s1 r bs")
    case None
    with assms c h have "fst (Next (algo s1) (heap s) bs) = Some p"
      by (simp add: select_peer_def case_prod_unfold)
    then show ?thesis using any.nxt_sound c by (simp add: set_alive_of)
  next
    case (Some q)
    with assms c h show ?thesis
      by (auto simp: select_peer_def sticky_peer_def Let_def dest: sticky_loop_Some
          split: option.splits if_splits)
  qed
qed

lemma select_peer_mem: "select_peer s r = (Some p, s') \<Longrightarrow> p \<in> set (backends s)"
  using select_peer_alive candidates_subset by blast

section \<open>Sent requests only accumulate\<close>

interpretation sent: serve_step_rel "\<lambda>s t. \<exists>qs. sent t = sent s @ qs"
  by unfold_locales (auto simp: frame_simps finish_eq)

lemma length_sent_mono: "length (sent s) \<le> length (sent (fst (ServeHTTP e s r)))"
  using sent.serve_R(1) [of e s r] by auto

section \<open>Up to the reverse proxy\<close>

lemma begin_writers: "begin_attempt e p r s = (r', s') \<Longrightarrow>
    writers s' = StatusOK # writers s \<and> status s' = status s"
  by (metis begin_fields(11,12) snd_conv)

lemma select_writers: "select_peer s r = (p, s') \<Longrightarrow> writers s' = writers s \<and> status s' = status s"
  by (metis select_fields(8,9) snd_conv)

lemma admit_writers: "admit p s = (ok, s') \<Longrightarrow> writers s' = writers s \<and> status s' = status s"
  by (metis admit_fields(8,9) snd_conv)

text \<open>The state when a peer has been chosen, and when the reverse proxy takes over.\<close>

lemma chosen:
  assumes "select_peer s r = (Some peer, s1)" and "admit peer s1 = (ok, s2)"
  shows "serve_frame s s2 \<and> sent s2 = sent s \<and> status s2 = status s \<and> writers s2 = writers s \<and>
    logs s2 = logs s \<and> setCookies s2 = setCookies s \<and> heap s2 = heap s \<and> mets s2 = mets s \<and>
    peer \<in> set (backends s) \<and> alive (heap s peer)"
proof -
  have s2: "s2 = snd (admit peer (snd (select_peer s r)))" using assms by simp
  have "serve_frame s s2" unfolding s2 by (rule frame.S_trans [OF frame.S_select frame.S_admit])
  then show ?thesis
    using select_peer_mem [OF assms(1)] select_peer_alive [OF assms(1)] unfolding s2
    by (simp add: frame_simps IsAlive_def)
qed

lemma started:
  assumes "select_peer s r = (Some peer, s1)" and "admit peer s1 = (ok, s2)"
    and "begin_attempt e peer r s2 = (r', s3)"
  shows "serve_frame s s3 \<and> sent s3 = sent s \<and> status s3 = status s \<and>
    writers s3 = StatusOK # writers s \<and> backends s3 = backends s \<and>
    heap s3 = modify peer IncrConns (heap s) \<and>
    peer \<in> set (backends s) \<and> alive (heap s peer)"
proof -
  have s3: "s3 = snd (begin_attempt e peer r s2)" using assms(3) by simp
  have "serve_frame s2 s3" unfolding s3 by (rule frame.S_begin)
  then have f: "serve_frame s s3" using chosen [OF assms(1,2)] frame.S_trans by blast
  then have "backends s3 = backends s" by (simp add: serve_frame_def)
  with f show ?thesis using chosen [OF assms(1,2)] unfolding s3 by (simp add: frame_simps)
qed

section \<open>Bounds\<close>

definition tries_per_backend :: "request \<Rightarrow> int" where
  "tries_per_backend r = (if idempotentMethods (Method r) then 1 + maxRetries else 1)"

lemma tries_cong [simp]:
  "tries_per_backend (next_attempt r) = tries_per_backend r"
  "tries_per_backend (next_retry r) = tries_per_backend r"
  "tries_per_backend (Director t r) = tries_per_backend r"
  by (simp_all add: tries_per_backend_def)

lemma tries_begin: "begin_attempt e p r s = (r', s') \<Longrightarrow> tries_per_backend r' = tries_per_backend r"
  by (drule ctx_begin) (simp add: tries_per_backend_def)

lemma begin_sent: "begin_attempt e p r s = (r', s') \<Longrightarrow> sent s' = sent s"
  by (metis begin_fields(8) snd_conv)

lemma select_sent: "select_peer s r = (p, s') \<Longrightarrow> sent s' = sent s"
  by (metis select_fields(7) snd_conv)

lemma admit_sent: "admit p s = (ok, s') \<Longrightarrow> sent s' = sent s"
  by (metis admit_fields(7) snd_conv)

lemmas step_sent = begin_sent select_sent admit_sent

lemma sent_bound:
  "0 \<le> getRetryFromContext r \<Longrightarrow> getRetryFromContext r \<le> maxRetries \<Longrightarrow>
     int (length (sent (fst (ServeHTTP e s r)))) \<le> int (length (sent s))
       + max 0 (MaxBackendSwitches - getAttemptsFromContext r) * tries_per_backend r"
  "0 \<le> getRetryFromContext r' \<Longrightarrow> getRetryFromContext r' \<le> maxRetries \<Longrightarrow>
     int (length (sent (fst (proxy_ServeHTTP e' peer s' r')))) \<le> int (length (sent s'))
       + (if idempotentMethods (Method r') then 1 + maxRetries - getRetryFromContext r' else 1)
       + max 0 (MaxBackendSwitches - (getAttemptsFromContext r' + 1)) * tries_per_backend r'"
  "0 \<le> getRetryFromContext r'' \<Longrightarrow> getRetryFromContext r'' \<le> maxRetries \<Longrightarrow>
     int (length (sent (fst (error_handler e'' b err s'' r'')))) \<le> int (length (sent s''))
       + (if idempotentMethods (Method r'') then maxRetries - getRetryFromContext r'' else 0)
       + max 0 (MaxBackendSwitches - (getAttemptsFromContext r'' + 1)) * tries_per_backend r''"
proof (induction e s r and e' peer s' r' and e'' b err s'' r'' rule: serve_induct)
  case (attempt e s r peer s1 s2 r' s3 s4 c)
  have "sent s3 = sent s" using step_sent attempt by metis
  moreover have "max 0 (MaxBackendSwitches - getAttemptsFromContext r) =
      max 0 (MaxBackendSwitches - (getAttemptsFromContext r + 1)) + 1" using attempt by simp
  ultimately show ?case
    using attempt ctx_begin [OF attempt(4)] tries_begin [OF attempt(4)]
    by (simp add: ServeHTTP_attempt finish_eq frame_simps tries_per_backend_def algebra_simps
        split: if_splits)
next
  case (refused e s r peer s1 s2)
  have "sent s2 = sent s" using step_sent refused by metis
  then show ?case
    using refused by (auto simp: ServeHTTP_refused tries_per_backend_def maxRetries_def algebra_simps)
next
  case (failed e peer s r t q err)
  then show ?case by (auto simp: proxy_failed frame_simps split: if_splits)
next
  case (retry e b err s r)
  then show ?case by (auto simp: handler_retry frame_simps split: if_splits)
next
  case (switch e b err s r)
  then show ?case by (auto simp: handler_switch frame_simps maxRetries_def split: if_splits)
qed (auto simp: ServeHTTP_exhausted ServeHTTP_no_peer proxy_nil proxy_responded proxy_aborted
    handler_cancelled handler_exhausted http_Error_def frame_simps select_sent
    maxRetries_def tries_per_backend_def max_def)

lemma step_waits:
  "begin_attempt e p r s = (r', s') \<Longrightarrow> waits s' = waits s"
  "select_peer s r = (q, s') \<Longrightarrow> waits s' = waits s"
  "admit p s = (ok, s') \<Longrightarrow> waits s' = waits s"
  using begin_fields(9) [of e p r s] select_fields(12) [of s r] admit_fields(12) [of p s] by simp_all

lemma step_now:
  "begin_attempt e p r s = (r', s') \<Longrightarrow> now s' = now s"
  "select_peer s r = (q, s') \<Longrightarrow> now s' = now s"
  "admit p s = (ok, s') \<Longrightarrow> now s' = now s"
  using begin_fields(10) [of e p r s] select_fields(6) [of s r] admit_fields(6) [of p s] by simp_all

lemma wait_fields [frame_simps]:
  "waits (wait_retry s) = Suc (waits s)" "waits (wait_cancelled s) = Suc (waits s)"
  "now (wait_retry s) = now s + retry_wait" "now (wait_cancelled s) = now s"
  "now (send e q s) = now s + latency e (length (sent s))"
  by (simp_all add: wait_retry_def wait_cancelled_def send_def)

lemma finish_waits [frame_simps]:
  "waits (record_outcome_of p d s) = waits s" "waits (release p s) = waits s"
  by (auto simp: record_outcome_of_def release_def Let_def split: option.splits)

lemma waits_bound:
  "0 \<le> getRetryFromContext r \<Longrightarrow> getRetryFromContext r \<le> maxRetries \<Longrightarrow>
     int (waits (fst (ServeHTTP e s r))) \<le> int (waits s)
       + max 0 (MaxBackendSwitches - getAttemptsFromContext r) * (tries_per_backend r - 1)"
  "0 \<le> getRetryFromContext r' \<Longrightarrow> getRetryFromContext r' \<le> maxRetries \<Longrightarrow>
     int (waits (fst (proxy_ServeHTTP e' peer s' r'))) \<le> int (waits s')
       + (if idempotentMethods (Method r') then maxRetries - getRetryFromContext r' else 0)
       + max 0 (MaxBackendSwitches - (getAttemptsFromContext r' + 1)) * (tries_per_backend r' - 1)"
  "0 \<le> getRetryFromContext r'' \<Longrightarrow> getRetryFromContext r'' \<le> maxRetries \<Longrightarrow>
     int (waits (fst (error_handler e'' b err s'' r''))) \<le> int (waits s'')
       + (if idempotentMethods (Method r'') then maxRetries - getRetryFromContext r'' else 0)
       + max 0 (MaxBackendSwitches - (getAttemptsFromContext r'' + 1)) * (tries_per_backend r'' - 1)"
proof (induction e s r and e' peer s' r' and e'' b err s'' r'' rule: serve_induct)
  case (attempt e s r peer s1 s2 r' s3 s4 c)
  have "waits s3 = waits s" using step_waits attempt by metis
  moreover have "max 0 (MaxBackendSwitches - getAttemptsFromContext r) =
      max 0 (MaxBackendSwitches - (getAttemptsFromContext r + 1)) + 1" using attempt by simp
  ultimately show ?case
    using attempt ctx_begin [OF attempt(4)] tries_begin [OF attempt(4)]
    by (simp add: ServeHTTP_attempt finish_eq frame_simps tries_per_backend_def algebra_simps
        split: if_splits)
next
  case (refused e s r peer s1 s2)
  have "waits s2 = waits s" using step_waits refused by metis
  then show ?case
    using refused by (auto simp: ServeHTTP_refused tries_per_backend_def maxRetries_def algebra_simps)
next
  case (failed e peer s r t q err)
  then show ?case by (auto simp: proxy_failed frame_simps split: if_splits)
next
  case (retry e b err s r)
  then show ?case by (auto simp: handler_retry frame_simps split: if_splits)
next
  case (switch e b err s r)
  then show ?case by (auto simp: handler_switch frame_simps maxRetries_def split: if_splits)
qed (auto simp: ServeHTTP_exhausted ServeHTTP_no_peer proxy_nil proxy_responded proxy_aborted
    handler_cancelled handler_exhausted http_Error_def frame_simps step_waits
    maxRetries_def tries_per_backend_def max_def)

section \<open>Time\<close>

text \<open>
  Time passes in round trips and in the waits between tries, nowhere else. In a world whose round
  trips end within \<open>L\<close>, the time a request takes is accounted for by their numbers.
\<close>

definition prompt :: "duration \<Rightarrow> env \<Rightarrow> bool" where
  "prompt L e \<longleftrightarrow> (\<forall>n. 0 \<le> latency e n \<and> latency e n \<le> L)"

definition in_time :: "duration \<Rightarrow> lb_state \<Rightarrow> lb_state \<Rightarrow> bool" where
  "in_time L s t \<longleftrightarrow> now s \<le> now t \<and>
     now t - now s \<le> L * (int (length (sent t)) - int (length (sent s)))
       + retry_wait * (int (waits t) - int (waits s))"

lemma in_time_same: "now t = now s \<Longrightarrow> sent t = sent s \<Longrightarrow> waits t = waits s \<Longrightarrow> in_time L s t"
  by (simp add: in_time_def)

lemma in_time_trans: "in_time L s t \<Longrightarrow> in_time L t u \<Longrightarrow> in_time L s u"
  by (simp add: in_time_def algebra_simps)

lemma in_time_send: "prompt L e \<Longrightarrow> in_time L s (send e q s)"
  by (simp add: in_time_def prompt_def frame_simps)

lemma in_time_wait: "in_time L s (wait_retry s)" "in_time L s (wait_cancelled s)"
  by (simp_all add: in_time_def frame_simps retry_wait_def)

lemmas in_time_same_steps =
  in_time_same [of "WriteHeader c s" s for c s]
  in_time_same [of "give_up b err s" s for b err s]
  in_time_same [of "release p s" s for p s]

lemma serve_in_time:
  "prompt L e \<Longrightarrow> in_time L s (fst (ServeHTTP e s r))"
  "prompt L e' \<Longrightarrow> in_time L s' (fst (proxy_ServeHTTP e' peer s' r'))"
  "prompt L e'' \<Longrightarrow> in_time L s'' (fst (error_handler e'' b err s'' r''))"
proof (induction e s r and e' peer s' r' and e'' b err s'' r'' rule: serve_induct)
  case (exhausted e s r)
  then show ?case
    by (simp add: ServeHTTP_exhausted http_Error_def in_time_same frame_simps)
next
  case (no_peer e s r s1)
  then show ?case
    using step_waits(2) step_now(2) select_sent
    by (auto simp: ServeHTTP_no_peer http_Error_def in_time_same frame_simps)
next
  case (refused e s r peer s1 s2)
  have "in_time L s s2"
    using refused step_waits step_now step_sent by (intro in_time_same) metis+
  then show ?case using refused by (auto simp: ServeHTTP_refused intro: in_time_trans)
next
  case (attempt e s r peer s1 s2 r' s3 s4 c)
  have "in_time L s s3"
    using attempt step_waits step_now step_sent by (intro in_time_same) metis+
  moreover have "in_time L s3 s4" using attempt by simp
  moreover have "in_time L s4 (fst (ServeHTTP e s r))"
    using attempt by (auto simp: ServeHTTP_attempt finish_eq frame_simps intro!: in_time_same)
  ultimately show ?case by (blast intro: in_time_trans)
next
  case (nil e peer s r)
  then show ?case by (simp add: proxy_nil in_time_same)
next
  case (responded e peer s r t q code)
  then show ?case
    by (auto simp: proxy_responded frame_simps intro: in_time_trans [OF in_time_send in_time_same])
next
  case (aborted e peer s r t q code)
  then show ?case
    by (auto simp: proxy_aborted frame_simps intro: in_time_trans [OF in_time_send in_time_same])
next
  case (failed e peer s r t q err)
  then show ?case by (auto simp: proxy_failed intro: in_time_trans [OF in_time_send])
next
  case (retry e b err s r)
  then show ?case by (auto simp: handler_retry intro: in_time_trans [OF in_time_wait(1)])
next
  case (cancelled e b err s r)
  then show ?case by (simp add: handler_cancelled in_time_wait)
next
  case (switch e b err s r)
  have "in_time L s (give_up b err s)" by (simp add: in_time_same frame_simps)
  with switch show ?case by (auto simp: handler_switch intro: in_time_trans)
next
  case (give_up e b err s r)
  then show ?case
    by (simp add: handler_exhausted http_Error_def in_time_same frame_simps)
qed

section \<open>What the client gets\<close>

text \<open>A writer that has sent nothing sends at most one status, and every wrapper sees it.\<close>

definition wrote :: "lb_state \<Rightarrow> lb_state \<Rightarrow> bool" where
  "wrote s t \<longleftrightarrow>
     (status t = [] \<and> writers t = writers s) \<or>
     (\<exists>c. status t = [c] \<and> writers t = map (\<lambda>_. c) (writers s))"

lemma wrote_WriteHeader: "status s = [] \<Longrightarrow> wrote s (WriteHeader c s)"
  by (simp add: wrote_def WriteHeader_def)

lemma wrote_transfer: "wrote s' t \<Longrightarrow> writers s' = writers s \<Longrightarrow> wrote s t"
  by (simp add: wrote_def)

lemma wrote_pop:
  "wrote s' t \<Longrightarrow> writers s' = x # writers s \<Longrightarrow> status u = status t \<Longrightarrow> writers u = tl (writers t) \<Longrightarrow>
   wrote s u"
  by (auto simp: wrote_def)

lemma serve_wrote:
  "status s = [] \<Longrightarrow> wrote s (fst (ServeHTTP e s r))"
  "status s' = [] \<Longrightarrow> wrote s' (fst (proxy_ServeHTTP e' peer s' r'))"
  "status s'' = [] \<Longrightarrow> wrote s'' (fst (error_handler e'' b err s'' r''))"
proof (induction e s r and e' peer s' r' and e'' b err s'' r'' rule: serve_induct)
  case (exhausted e s r)
  then show ?case by (simp add: ServeHTTP_exhausted http_Error_def wrote_WriteHeader)
next
  case (no_peer e s r s1)
  then show ?case using select_writers [OF no_peer(2)]
    by (auto simp: ServeHTTP_no_peer http_Error_def intro: wrote_transfer [OF wrote_WriteHeader])
next
  case (refused e s r peer s1 s2)
  then show ?case using chosen [OF refused(2,3)]
    by (auto simp: ServeHTTP_refused intro: wrote_transfer)
next
  case (attempt e s r peer s1 s2 r' s3 s4 c)
  have s3: "writers s3 = StatusOK # writers s" "status s3 = status s"
    using started [OF attempt(2-4)] by simp_all
  with attempt have "wrote s3 s4" by simp
  from wrote_pop [OF this s3(1)] attempt show ?case
    by (simp add: ServeHTTP_attempt finish_eq frame_simps)
next
  case (nil e peer s r)
  then show ?case by (simp add: proxy_nil wrote_def)
next
  case (responded e peer s r t q code)
  then show ?case
    by (simp add: proxy_responded) (rule wrote_transfer [OF wrote_WriteHeader], simp_all add: frame_simps)
next
  case (aborted e peer s r t q code)
  then show ?case
    by (simp add: proxy_aborted) (rule wrote_transfer [OF wrote_WriteHeader], simp_all add: frame_simps)
next
  case (failed e peer s r t q err)
  then show ?case by (simp add: proxy_failed frame_simps) (erule wrote_transfer, simp add: frame_simps)
next
  case (retry e b err s r)
  then show ?case by (simp add: handler_retry frame_simps) (erule wrote_transfer, simp add: frame_simps)
next
  case (cancelled e b err s r)
  then show ?case by (simp add: handler_cancelled wrote_def frame_simps)
next
  case (switch e b err s r)
  then show ?case by (simp add: handler_switch frame_simps) (erule wrote_transfer, simp add: frame_simps)
next
  case (give_up e b err s r)
  then show ?case
    by (simp add: handler_exhausted http_Error_def)
      (rule wrote_transfer [OF wrote_WriteHeader], simp_all add: frame_simps)
qed

lemma wrote_statusCode:
  "wrote s t \<Longrightarrow> writers s = StatusOK # ws \<Longrightarrow>
   statusCode t = (case status t of [] \<Rightarrow> StatusOK | c # _ \<Rightarrow> c)"
  by (auto simp: wrote_def statusCode_def)


section \<open>Answers\<close>

text \<open>
  How the handler must end, from the round trips and waits of the request. If the client went away
  during the last wait, it returns and writes nothing. Otherwise the last round trip decides: a
  response is written with its status, and if its body could not be copied the handler panics with
  \<open>http.ErrAbortHandler\<close> after that; with no round trip, or a failed one, the answer is 503.
\<close>

definition client_left :: "env \<Rightarrow> lb_state \<Rightarrow> lb_state \<Rightarrow> bool" where
  "client_left e s t \<longleftrightarrow> waits s < waits t \<and> \<not> timerFirst e (waits t - 1)"

definition ending :: "env \<Rightarrow> lb_state \<Rightarrow> lb_state \<Rightarrow> completion \<times> int list" where
  "ending e s t =
     (if client_left e s t then (Done, [])
      else if sent t = sent s then (Done, [StatusServiceUnavailable])
      else (case roundtrip e (length (sent t) - 1) (last (sent t)) of
              Responded c \<Rightarrow> (Done, [c])
            | Aborted c \<Rightarrow> (Panicked, [c])
            | Failed err \<Rightarrow> (Done, [StatusServiceUnavailable])))"

definition answered :: "env \<Rightarrow> lb_state \<Rightarrow> lb_state \<times> completion \<Rightarrow> bool" where
  "answered e s tc \<longleftrightarrow> (snd tc, status (fst tc)) = ending e s (fst tc)"

lemma answered_transfer:
  "answered e s' tc \<Longrightarrow> sent s' = sent s \<Longrightarrow>
   waits s' = waits s \<or> waits s' = Suc (waits s) \<and> timerFirst e (waits s) \<Longrightarrow> answered e s tc"
  by (auto simp: answered_def ending_def client_left_def elim!: less_SucE
      dest: less_imp_Suc_add Suc_lessD split: if_splits)

lemma answered_same:
  "answered e s (t, c) \<Longrightarrow> sent t' = sent t \<Longrightarrow> waits t' = waits t \<Longrightarrow> status t' = status t \<Longrightarrow> answered e s (t', c)"
  by (simp add: answered_def ending_def client_left_def)

lemma answered_send:
  assumes "answered e (send e q s) tc" and "roundtrip e (length (sent s)) q = Failed err"
    and "\<exists>qs. sent (fst tc) = sent (send e q s) @ qs"
  shows "answered e s tc"
  using assms by (auto simp: answered_def ending_def client_left_def frame_simps)

lemma serve_answered:
  "\<lbrakk>status s = []; lb_wf s\<rbrakk> \<Longrightarrow> answered e s (ServeHTTP e s r)"
  "\<lbrakk>status s' = []; lb_wf s'; peer \<in> set (backends s')\<rbrakk> \<Longrightarrow>
     answered e' s' (proxy_ServeHTTP e' peer s' r')"
  "\<lbrakk>status s'' = []; lb_wf s''; b \<in> set (backends s'')\<rbrakk> \<Longrightarrow>
     answered e'' s'' (error_handler e'' b err s'' r'')"
proof (induction e s r and e' peer s' r' and e'' b err s'' r'' rule: serve_induct)
  case (exhausted e s r)
  then show ?case
    by (simp add: ServeHTTP_exhausted http_Error_def answered_def ending_def client_left_def WriteHeader_def)
next
  case (no_peer e s r s1)
  then show ?case
    using select_writers [OF no_peer(2)] select_sent [OF no_peer(2)] step_waits(2) [OF no_peer(2)]
    by (simp add: ServeHTTP_no_peer http_Error_def answered_def ending_def client_left_def WriteHeader_def)
next
  case (refused e s r peer s1 s2)
  note ch = chosen [OF refused(2,3)]
  have "answered e s2 (ServeHTTP e s2 (next_attempt r))"
    using refused ch lb_wf_frame [of s s2] by simp
  moreover have "waits s2 = waits s" using step_waits refused(2,3) by metis
  ultimately show ?case using refused ch by (simp add: ServeHTTP_refused answered_transfer)
next
  case (attempt e s r peer s1 s2 r' s3 s4 c)
  note step = attempt(2-4)
  note st = started [OF step]
  have "answered e s3 (s4, c)" using attempt st lb_wf_frame [of s s3] by simp
  moreover have "waits s3 = waits s" using step_waits step by metis
  ultimately have "answered e s (s4, c)" using st by (simp add: answered_transfer)
  then show ?case
    unfolding ServeHTTP_attempt [OF attempt(1-5)]
    by (rule answered_same) (simp_all add: finish_eq frame_simps)
next
  case (nil e peer s r)
  then show ?case by (simp add: lb_wf_def)
next
  case (responded e peer s r t q code)
  then show ?case
    by (simp add: proxy_responded answered_def ending_def client_left_def frame_simps) (simp add: WriteHeader_def frame_simps)
next
  case (aborted e peer s r t q code)
  then show ?case
    by (simp add: proxy_aborted answered_def ending_def client_left_def frame_simps) (simp add: WriteHeader_def frame_simps)
next
  case (failed e peer s r t q err)
  then have "answered e (send e q s) (error_handler e peer err (send e q s) (Director t r))"
    using lb_wf_frame [OF frame.S_send] by (simp add: frame_simps)
  then show ?case
    using failed sent.serve_R(3) by (simp add: proxy_failed answered_send)
next
  case (retry e b err s r)
  then show ?case
    using lb_wf_frame [OF frame.S_wait]
    by (simp add: handler_retry)
      (rule answered_transfer [of e "wait_retry s"], simp_all add: frame_simps)
next
  case (cancelled e b err s r)
  then show ?case by (simp add: handler_cancelled answered_def ending_def client_left_def frame_simps)
next
  case (switch e b err s r)
  then show ?case
    using lb_wf_frame [OF frame.S_give_up]
    by (simp add: handler_switch)
      (rule answered_transfer [of e "give_up b err s"], simp_all add: frame_simps)
next
  case (give_up e b err s r)
  then show ?case
    by (simp add: handler_exhausted http_Error_def answered_def ending_def client_left_def WriteHeader_def frame_simps)
qed

end
