(* ===== verification/Proxy_Traces.thy ===== *)
theory Proxy_Traces
  imports Proxy_Props
begin

text \<open>
  What one request leaves behind besides its answer: log lines, the request counter, backends
  marked dead, and the affinity cookie. Each is a relation between the state before and after,
  proved along the calls of \<open>ServeHTTP\<close>.
\<close>

section \<open>Log lines\<close>

text \<open>A request line as (request id, backend, status, attempt).\<close>

fun line_of :: "log_line \<Rightarrow> (string \<times> string \<times> int \<times> int) list" where
  "line_of (LogRequest i u d c n) = [(i, u, c, n)]"
| "line_of _ = []"

definition request_lines :: "log_line list \<Rightarrow> (string \<times> string \<times> int \<times> int) list" where
  "request_lines ls = concat (map line_of ls)"

lemma request_lines_simps [simp]:
  "request_lines [] = []" "request_lines (l # ls) = line_of l @ request_lines ls"
  "request_lines (ls @ ls') = request_lines ls @ request_lines ls'"
  by (simp_all add: request_lines_def)

text \<open>The status a request ends with: what was sent, or the 200 that \<open>net/http\<close> sends by itself.\<close>

definition final_status :: "lb_state \<Rightarrow> int" where
  "final_status t = (case status t of [] \<Rightarrow> StatusOK | c # _ \<Rightarrow> c)"

definition lines_ok :: "int \<Rightarrow> string option \<Rightarrow> int \<Rightarrow> (string \<times> string \<times> int \<times> int) list \<Rightarrow> bool" where
  "lines_ok k rid c ls \<longleftrightarrow>
     (\<exists>i. (rid = None \<or> rid = Some i) \<and> (\<forall>(i', u, c', n) \<in> set ls. i' = i \<and> c' = c \<and> k \<le> n)) \<and>
     sorted_wrt (>) (map (\<lambda>(i, u, c, n). n) ls)"

definition traced :: "int \<Rightarrow> string option \<Rightarrow> lb_state \<Rightarrow> lb_state \<Rightarrow> bool" where
  "traced k rid s t \<longleftrightarrow>
     (\<exists>ls. logs t = logs s @ ls \<and> lines_ok k rid (final_status t) (request_lines ls))"

lemma lines_ok_Nil [simp]: "lines_ok k rid c []"
  by (auto simp: lines_ok_def)

lemma lines_ok_weaken: "lines_ok k rid c ls \<Longrightarrow> k' \<le> k \<Longrightarrow> lines_ok k' rid c ls"
  unfolding lines_ok_def by fastforce

lemma traced_same: "logs t = logs s \<Longrightarrow> traced k rid s t"
  by (simp add: traced_def)

lemma traced_weaken: "traced k rid s t \<Longrightarrow> k' \<le> k \<Longrightarrow> traced k' rid s t"
  unfolding traced_def using lines_ok_weaken by blast

lemma traced_pre: "traced k rid s' t \<Longrightarrow> logs s' = logs s @ ls \<Longrightarrow> request_lines ls = [] \<Longrightarrow> traced k rid s t"
  by (force simp: traced_def)

lemma lines_ok_snoc:
  assumes "lines_ok (k + 2) (Some i) c ls"
  shows "lines_ok (k + 1) (Some i) c (ls @ [(i, u, c, k + 1)])"
  using assms by (fastforce simp: lines_ok_def sorted_wrt_append)

lemma lines_ok_fresh: "lines_ok k (Some i) c ls \<Longrightarrow> lines_ok k None c ls"
  by (auto simp: lines_ok_def)

lemma begin_request_id:
  assumes "begin_attempt e peer r s = (r', s')"
  shows "\<exists>i. requestIDKey r' = Some i \<and> (requestIDKey r = None \<or> requestIDKey r = Some i)"
    and "\<exists>ls. logs s' = logs s @ ls \<and> request_lines ls = []"
proof -
  show "\<exists>i. requestIDKey r' = Some i \<and> (requestIDKey r = None \<or> requestIDKey r = Some i)"
    using assms by (auto simp: begin_attempt_def split: prod.splits if_splits)
  show "\<exists>ls. logs s' = logs s @ ls \<and> request_lines ls = []"
    using assms
    by (auto simp: begin_attempt_def getOrCreateRequestID_def acquire_def set_cookie_def Let_def
        split: prod.splits if_splits option.splits)
qed

lemma traced_finish:
  assumes tr: "traced (k + 2) (requestIDKey r') s3 s4" and bg: "begin_attempt e peer r s2 = (r', s3)"
    and wr: "wrote s3 s4" and ws: "writers s3 = StatusOK # ws"
    and n: "getAttemptsFromContext r = k"
  shows "traced (k + 1) (requestIDKey r) s2 (finish_attempt peer k st r' s4)"
proof -
  obtain i where i: "requestIDKey r' = Some i" "requestIDKey r = None \<or> requestIDKey r = Some i"
    using begin_request_id(1) [OF bg] by blast
  obtain l1 where l1: "logs s3 = logs s2 @ l1" "request_lines l1 = []"
    using begin_request_id(2) [OF bg] by blast
  obtain l2 where l2: "logs s4 = logs s3 @ l2" "lines_ok (k + 2) (Some i) (final_status s4) (request_lines l2)"
    using tr i(1) by (auto simp: traced_def)
  let ?t = "finish_attempt peer k st r' s4"
  have fs: "final_status ?t = final_status s4" "statusCode s4 = final_status s4"
    using wrote_statusCode [OF wr ws] by (auto simp: final_status_def finish_eq frame_simps)
  let ?u = "ref_url s4 peer"
  let ?line = "LogRequest i ?u ((now s4 - st) div 1000000) (final_status s4) (k + 1)"
  have u: "ref_url (if getAttemptsFromContext r' = k then record_outcome_of peer d s4 else s4) peer = ?u" for d
    by (simp add: frame_simps)
  have "logs ?t = logs s2 @ (l1 @ l2 @ [?line])"
    by (simp add: finish_eq frame_simps i(1) l1(1) l2(1) fs(2))
  moreover have "lines_ok (k + 1) (Some i) (final_status ?t) (request_lines (l1 @ l2 @ [?line]))"
    using lines_ok_snoc [OF l2(2)] l1(2) fs(1) by simp
  ultimately show ?thesis unfolding traced_def
    using i(2) lines_ok_fresh by fastforce
qed

lemma serve_traced:
  "status s = [] \<Longrightarrow> traced (getAttemptsFromContext r + 1) (requestIDKey r) s (fst (ServeHTTP e s r))"
  "status s' = [] \<Longrightarrow>
     traced (getAttemptsFromContext r' + 2) (requestIDKey r') s' (fst (proxy_ServeHTTP e' peer s' r'))"
  "status s'' = [] \<Longrightarrow>
     traced (getAttemptsFromContext r'' + 2) (requestIDKey r'') s'' (fst (error_handler e'' b err s'' r''))"
proof (induction e s r and e' peer s' r' and e'' b err s'' r'' rule: serve_induct)
  case (exhausted e s r)
  then show ?case by (simp add: ServeHTTP_exhausted http_Error_def traced_same frame_simps)
next
  case (no_peer e s r s1)
  have "logs s1 = logs s" using select_fields(11) [of s r] no_peer by simp
  with no_peer show ?case by (simp add: ServeHTTP_no_peer http_Error_def traced_same frame_simps)
next
  case (refused e s r peer s1 s2)
  note ch = chosen [OF refused(2,3)]
  have "traced (getAttemptsFromContext r + 1 + 1) (requestIDKey r) s2 (fst (ServeHTTP e s2 (next_attempt r)))"
    using refused ch by simp
  then have "traced (getAttemptsFromContext r + 1) (requestIDKey r) s2 (fst (ServeHTTP e s2 (next_attempt r)))"
    by (rule traced_weaken) simp
  then show ?case using refused ch by (simp add: ServeHTTP_refused traced_pre [of _ _ s2 _ s "[]"])
next
  case (attempt e s r peer s1 s2 r' s3 s4 c)
  note st = started [OF attempt(2-4)] and ch = chosen [OF attempt(2,3)]
  have tr: "traced (getAttemptsFromContext r + 2) (requestIDKey r') s3 s4"
    using attempt st ctx_begin [OF attempt(4)] by simp
  have wr: "wrote s3 s4" using serve_wrote(2) [of s3 e peer r'] attempt st by simp
  have fin: "traced (getAttemptsFromContext r + 1) (requestIDKey r) s2
      (finish_attempt peer (getAttemptsFromContext r) (now s3) r' s4)"
    using traced_finish [OF tr attempt(4) wr] st by blast
  obtain l1 where l1: "logs s3 = logs s2 @ l1" "request_lines l1 = []"
    using begin_request_id(2) [OF attempt(4)] by blast
  have "traced (getAttemptsFromContext r + 2) (requestIDKey r') s2 (release peer s4)"
    using traced_pre [OF tr l1] by (simp add: traced_def final_status_def frame_simps)
  then have "traced (getAttemptsFromContext r + 1) (requestIDKey r) s2 (release peer s4)"
    using begin_request_id(1) [OF attempt(4)] lines_ok_fresh traced_weaken
    unfolding traced_def by (smt (verit) lines_ok_weaken)
  with fin show ?case
    using attempt ch by (simp add: ServeHTTP_attempt traced_pre [of _ _ s2 _ s "[]"])
next
  case (nil e peer s r)
  then show ?case by (simp add: proxy_nil traced_same)
next
  case (responded e peer s r t q code)
  then show ?case by (simp add: proxy_responded traced_same frame_simps)
next
  case (aborted e peer s r t q code)
  then show ?case by (simp add: proxy_aborted traced_same frame_simps)
next
  case (failed e peer s r t q err)
  then show ?case by (simp add: proxy_failed frame_simps traced_pre [of _ _ "send e q s" _ s "[]"])
next
  case (retry e b err s r)
  then show ?case by (simp add: handler_retry frame_simps traced_pre [of _ _ "wait_retry s" _ s "[]"])
next
  case (cancelled e b err s r)
  then show ?case by (simp add: handler_cancelled traced_same frame_simps)
next
  case (switch e b err s r)
  then have "traced (getAttemptsFromContext r + 2) (requestIDKey r) (give_up b err s)
      (fst (error_handler e b err s r))"
    by (simp add: handler_switch frame_simps add.commute)
  then show ?case
    by (rule traced_pre [where ls = "[LogBackendDown (ref_url s b) err]"]) (simp_all add: frame_simps)
next
  case (give_up e b err s r)
  then show ?case
    by (simp add: handler_exhausted http_Error_def traced_def frame_simps)
qed


section \<open>The request counter\<close>

text \<open>Every request line comes with exactly one increment of the counter it names, and conversely.\<close>

definition lines_for :: "string list \<Rightarrow> (string \<times> string \<times> int \<times> int) list \<Rightarrow> nat" where
  "lines_for key ls = length (filter (\<lambda>(i, u, c, n). key = [u, statusCodeLabel c]) ls)"

lemma lines_for_simps [simp]:
  "lines_for key [] = 0" "lines_for key (ls @ ls') = lines_for key ls + lines_for key ls'"
  "lines_for key ((i, u, c, n) # ls) = (if key = [u, statusCodeLabel c] then 1 else 0) + lines_for key ls"
  by (simp_all add: lines_for_def)

definition counts :: "lb_state \<Rightarrow> lb_state \<Rightarrow> bool" where
  "counts s t \<longleftrightarrow> enabled (mets t) = enabled (mets s) \<and>
     (\<exists>ls. logs t = logs s @ ls \<and>
       (\<forall>key. counter_value key (calls (mets t)) =
          counter_value key (calls (mets s)) + (if enabled (mets s) then lines_for key (request_lines ls) else 0)))"

lemma counts_same:
  "enabled (mets t) = enabled (mets s) \<Longrightarrow> logs t = logs s @ ls \<Longrightarrow> request_lines ls = [] \<Longrightarrow>
   (\<And>key. counter_value key (calls (mets t)) = counter_value key (calls (mets s))) \<Longrightarrow> counts s t"
  by (auto simp: counts_def)

lemma counts_trans: "counts s t \<Longrightarrow> counts t u \<Longrightarrow> counts s u"
  unfolding counts_def by fastforce

lemma counts_begin: "counts s (snd (begin_attempt e peer r s))"
proof -
  obtain ls where "logs (snd (begin_attempt e peer r s)) = logs s @ ls" "request_lines ls = []"
    using begin_request_id(2) [of e peer r s] by (metis prod.collapse)
  then show ?thesis by (intro counts_same) (simp_all add: frame_simps)
qed

lemma counts_finish:
  "getAttemptsFromContext r' = n \<Longrightarrow> counts s (finish_attempt peer n st r' s)"
  by (auto simp: counts_def finish_eq frame_simps split: if_splits)

interpretation counted: serve_rel counts
proof
  fix s t u :: lb_state
  show "counts s s" by (rule counts_same [where ls = "[]"]) simp_all
  show "counts s t \<Longrightarrow> counts t u \<Longrightarrow> counts s u" by (rule counts_trans)
next
  fix s s' r peer code e q err start
  show "counts s (snd (select_peer s r))" by (rule counts_same [where ls = "[]"]) (simp_all add: frame_simps)
  show "counts s (snd (admit peer s))" by (rule counts_same [where ls = "[]"]) (simp_all add: frame_simps)
  show "counts s (WriteHeader code s)" by (rule counts_same [where ls = "[]"]) (simp_all add: frame_simps)
  show "counts s (send e q s)" by (rule counts_same [where ls = "[]"]) (simp_all add: frame_simps)
  show "counts s (wait_retry s)" by (rule counts_same [where ls = "[]"]) (simp_all add: frame_simps)
  show "counts s (wait_cancelled s)" by (rule counts_same [where ls = "[]"]) (simp_all add: frame_simps)
  show "counts s (give_up peer err s)"
    by (rule counts_same [where ls = "[LogBackendDown (ref_url s peer) err]"]) (simp_all add: frame_simps)
  assume br: "counts (snd (begin_attempt e peer r s)) s'"
  show "counts s (finish_attempt peer (getAttemptsFromContext r) start (fst (begin_attempt e peer r s)) s')"
    by (rule counts_trans [OF counts_begin counts_trans [OF br counts_finish]]) simp
  have "counts s' (release peer s')" by (rule counts_same [where ls = "[]"]) (simp_all add: frame_simps)
  then show "counts s (release peer s')"
    by (rule counts_trans [OF counts_begin counts_trans [OF br]])
qed

section \<open>Which backends are marked dead\<close>

text \<open>Failed round trips to a backend among those made between two states.\<close>

definition failed_to :: "env \<Rightarrow> string \<Rightarrow> nat \<Rightarrow> sent_request \<Rightarrow> bool" where
  "failed_to e u n q \<longleftrightarrow>
     URLString (target q) = u \<and> (case roundtrip e n q of Failed _ \<Rightarrow> True | _ \<Rightarrow> False)"

definition failures_to :: "env \<Rightarrow> string \<Rightarrow> lb_state \<Rightarrow> lb_state \<Rightarrow> nat" where
  "failures_to e u s t =
     length (filter (\<lambda>n. failed_to e u n (sent t ! n)) [length (sent s)..<length (sent t)])"

lemma failures_same: "sent s' = sent s \<Longrightarrow> failures_to e u s' t = failures_to e u s t"
  "sent t' = sent t \<Longrightarrow> failures_to e u s t' = failures_to e u s t"
  by (simp_all add: failures_to_def)

lemma failures_send:
  assumes "\<exists>qs. sent t = sent (send e q s) @ qs" and "roundtrip e (length (sent s)) q = Failed err"
  shows "failures_to e u s t = (if URLString (target q) = u then 1 else 0) + failures_to e u (send e q s) t"
proof -
  obtain qs where t: "sent t = sent s @ q # qs" using assms(1) by (auto simp: frame_simps)
  then have "length (sent s) < length (sent t)" by simp
  then have "[length (sent s)..<length (sent t)] = length (sent s) # [Suc (length (sent s))..<length (sent t)]"
    by (rule upt_conv_Cons)
  then show ?thesis
    using assms(2) t by (simp add: failures_to_def frame_simps failed_to_def nth_append)
qed

text \<open>Every backend \<open>x\<close> that died failed at least \<open>need x\<close> times.\<close>

definition deaths_earned :: "env \<Rightarrow> (ref \<Rightarrow> int) \<Rightarrow> lb_state \<Rightarrow> lb_state \<Rightarrow> bool" where
  "deaths_earned e need s t \<longleftrightarrow>
     (\<forall>x \<in> set (backends s). alive (heap s x) \<longrightarrow> \<not> alive (heap t x) \<longrightarrow>
        need x \<le> int (failures_to e (ref_url s x) s t))"

lemma deaths_none: "(\<And>x. alive (heap s x) \<Longrightarrow> alive (heap t x)) \<Longrightarrow> deaths_earned e need s t"
  by (auto simp: deaths_earned_def)

text \<open>Steps that keep the sent requests, the frame and the liveness do not matter.\<close>

lemma deaths_pre:
  assumes "deaths_earned e need s' t" and "serve_frame s s'" and "sent s' = sent s"
    and "\<And>x. x \<in> set (backends s) \<Longrightarrow> alive (heap s x) \<Longrightarrow> \<not> alive (heap s' x) \<Longrightarrow> need x \<le> 0"
  shows "deaths_earned e need s t"
  unfolding deaths_earned_def
proof (intro ballI impI)
  fix x assume x: "x \<in> set (backends s)" "alive (heap s x)" "\<not> alive (heap t x)"
  have u: "ref_url s' x = ref_url s x" "backends s' = backends s" using assms(2) by (simp_all add: serve_frame_def)
  show "need x \<le> int (failures_to e (ref_url s x) s t)"
  proof (cases "alive (heap s' x)")
    case True
    then have "need x \<le> int (failures_to e (ref_url s' x) s' t)"
      using assms(1) x u(2) by (simp add: deaths_earned_def)
    then show ?thesis unfolding u(1) failures_same(1) [OF assms(3)] .
  next
    case False
    then show ?thesis using assms(4) x by fastforce
  qed
qed

lemma deaths_post:
  "deaths_earned e need s t' \<Longrightarrow> sent t = sent t' \<Longrightarrow> (\<And>x. alive (heap t x) = alive (heap t' x)) \<Longrightarrow>
   deaths_earned e need s t"
  by (simp add: deaths_earned_def failures_to_def)

lemma deaths_send:
  assumes "deaths_earned e need s' t" and s': "s' = send e q s"
    and "\<exists>qs. sent t = sent s' @ qs" and "roundtrip e (length (sent s)) q = Failed err"
    and "\<And>x. x \<in> set (backends s) \<Longrightarrow> x \<noteq> p \<Longrightarrow> need' x \<le> need x" and "need' p \<le> need p + 1"
    and "URLString (target q) = ref_url s p"
  shows "deaths_earned e need' s t"
  unfolding deaths_earned_def
proof (intro ballI impI)
  fix x assume x: "x \<in> set (backends s)" "alive (heap s x)" "\<not> alive (heap t x)"
  then have "need x \<le> int (failures_to e (ref_url s x) s' t)"
    using assms(1) unfolding deaths_earned_def s' by (simp add: frame_simps)
  moreover have "failures_to e (ref_url s x) s t =
      (if ref_url s p = ref_url s x then 1 else 0) + failures_to e (ref_url s x) s' t"
    using failures_send [of t e q s err] assms(3,4,7) unfolding s' by simp
  ultimately show "need' x \<le> int (failures_to e (ref_url s x) s t)"
    using assms(5) [OF x(1)] assms(6) by (cases "x = p") auto
qed

definition tries_left :: "request \<Rightarrow> int" where
  "tries_left r = (if idempotentMethods (Method r) then 1 + maxRetries - getRetryFromContext r else 1)"

lemma find_own_url:
  assumes "pool_wf s" and "b \<in> set (backends s)"
  shows "find_url (heap s) (ref_url s b) (backends s) = Some b"
  using find_url_mem assms by (simp add: pool_wf_def BackendURLs_def)

lemma give_up_alive:
  assumes "pool_wf s" and "b \<in> set (backends s)"
  shows "alive (heap (give_up b err s) x) \<longleftrightarrow> x \<noteq> b \<and> alive (heap s x)"
  using find_own_url [OF assms]
  by (auto simp: frame_simps MarkBackendStatus_def modify_def heap_simps)


lemma deaths_give_up:
  assumes "deaths_earned e need (give_up b err s) t"
    and "pool_wf s" and "b \<in> set (backends s)" and "need b \<le> 0"
  shows "deaths_earned e need s t"
proof (rule deaths_pre [OF assms(1) frame.S_give_up])
  show "sent (give_up b err s) = sent s" by (simp add: frame_simps)
  show "alive (heap s x) \<Longrightarrow> \<not> alive (heap (give_up b err s) x) \<Longrightarrow> need x \<le> 0" for x
    using assms(4) give_up_alive [OF assms(2,3)] by auto
qed

lemma tries_left_simps [simp]:
  "tries_left (next_attempt r) = tries_per_backend r"
  "tries_left (Director t r) = tries_left r"
  by (simp_all add: tries_left_def tries_per_backend_def)

lemma serve_deaths:
  "lb_wf s \<Longrightarrow> getRetryFromContext r = 0 \<Longrightarrow>
     deaths_earned e (\<lambda>_. tries_per_backend r) s (fst (ServeHTTP e s r))"
  "lb_wf s' \<Longrightarrow> peer \<in> set (backends s') \<Longrightarrow> getRetryFromContext r' \<le> maxRetries \<Longrightarrow>
     deaths_earned e' ((\<lambda>_. tries_per_backend r')(peer := tries_left r')) s'
       (fst (proxy_ServeHTTP e' peer s' r'))"
  "lb_wf s'' \<Longrightarrow> b \<in> set (backends s'') \<Longrightarrow> getRetryFromContext r'' \<le> maxRetries \<Longrightarrow>
     deaths_earned e'' ((\<lambda>_. tries_per_backend r'')(b := tries_left r'' - 1)) s''
       (fst (error_handler e'' b err s'' r''))"
proof (induction e s r and e' peer s' r' and e'' b err s'' r'' rule: serve_induct)
  case (exhausted e s r)
  then show ?case by (simp add: ServeHTTP_exhausted http_Error_def deaths_none frame_simps)
next
  case (no_peer e s r s1)
  have "heap s1 = heap s" using select_fields(1) [of s r] no_peer by simp
  with no_peer show ?case by (simp add: ServeHTTP_no_peer http_Error_def deaths_none frame_simps)
next
  case (refused e s r peer s1 s2)
  note ch = chosen [OF refused(2,3)]
  have "deaths_earned e (\<lambda>_. tries_per_backend r) s2 (fst (ServeHTTP e s2 (next_attempt r)))"
    using refused ch lb_wf_frame [of s s2] by simp
  then show ?case
    unfolding ServeHTTP_refused [OF refused(1-3)] by (rule deaths_pre) (use ch in auto)
next
  case (attempt e s r peer s1 s2 r' s3 s4 c)
  note st = started [OF attempt(2-4)] and r' = ctx_begin [OF attempt(4)]
  have "(\<lambda>_. tries_per_backend r)(peer := tries_left r') = (\<lambda>_. tries_per_backend r)"
    using attempt r' by (auto simp: tries_left_def tries_per_backend_def)
  then have "deaths_earned e (\<lambda>_. tries_per_backend r) s3 s4"
    using attempt st r' tries_begin [OF attempt(4)] lb_wf_frame [of s s3]
    by (simp add: maxRetries_def)
  then have "deaths_earned e (\<lambda>_. tries_per_backend r) s s4"
    by (rule deaths_pre) (use st in \<open>auto simp: heap_simps split: if_splits\<close>)
  then show ?case
    unfolding ServeHTTP_attempt [OF attempt(1-5)]
    by (rule deaths_post) (simp_all add: finish_eq frame_simps heap_simps)
next
  case (nil e peer s r)
  then show ?case by (simp add: proxy_nil deaths_none)
next
  case (responded e peer s r t q code)
  then show ?case by (simp add: proxy_responded deaths_none frame_simps)
next
  case (aborted e peer s r t q code)
  then show ?case by (simp add: proxy_aborted deaths_none frame_simps)
next
  case (failed e peer s r t q err)
  have t: "t = URL (heap s peer)" using failed by (simp add: lb_wf_def)
  have "deaths_earned e ((\<lambda>_. tries_per_backend r)(peer := tries_left r - 1)) (send e q s)
      (fst (error_handler e peer err (send e q s) (Director t r)))"
    using failed lb_wf_frame [OF frame.S_send] by (simp add: frame_simps fun_upd_def)
  from deaths_send [OF this refl _ failed(3), of peer] show ?case
    unfolding proxy_failed [OF failed(1-3)]
    using sent.serve_R(3) failed(2) t by (simp add: outgoing_def)
next
  case (retry e b err s r)
  have "tries_left (next_retry r) = tries_left r - 1"
    using retry by (simp add: tries_left_def)
  then have "deaths_earned e ((\<lambda>_. tries_per_backend r)(b := tries_left r - 1)) (wait_retry s)
      (fst (error_handler e b err s r))"
    using retry lb_wf_frame [OF frame.S_wait] by (simp add: handler_retry frame_simps fun_upd_def)
  then show ?case by (rule deaths_pre) (simp_all add: frame.S_wait frame_simps)
next
  case (cancelled e b err s r)
  then show ?case by (simp add: handler_cancelled deaths_none frame_simps)
next
  case (switch e b err s r)
  have "tries_left r \<le> 1" using switch by (auto simp: tries_left_def)
  have "deaths_earned e (\<lambda>_. tries_per_backend r) (give_up b err s) (fst (error_handler e b err s r))"
    using switch lb_wf_frame [OF frame.S_give_up] by (simp add: handler_switch frame_simps)
  then have "deaths_earned e ((\<lambda>_. tries_per_backend r)(b := tries_left r - 1)) (give_up b err s)
      (fst (error_handler e b err s r))"
    using \<open>tries_left r \<le> 1\<close> unfolding deaths_earned_def by (simp add: le_max_iff_disj)
  then show ?case
    by (rule deaths_give_up) (use switch \<open>tries_left r \<le> 1\<close> in \<open>simp_all add: lb_wf_def\<close>)
next
  case (give_up e b err s r)
  have "tries_left r \<le> 1" using give_up by (auto simp: tries_left_def)
  have "deaths_earned e ((\<lambda>_. tries_per_backend r)(b := tries_left r - 1)) (give_up b err s)
      (fst (error_handler e b err s r))"
    using give_up by (simp add: handler_exhausted http_Error_def) (rule deaths_none, simp add: small_fields)
  then show ?case
    by (rule deaths_give_up) (use give_up \<open>tries_left r \<le> 1\<close> in \<open>simp_all add: lb_wf_def\<close>)
qed


section \<open>The affinity cookie\<close>

text \<open>
  Cookies are set when a backend is chosen and before it is tried, so the last cookie names the
  backend tried last. \<open>p\<close> is the URL of the backend being tried when the relation starts.
\<close>

definition pinned :: "affinity \<Rightarrow> string option \<Rightarrow> lb_state \<Rightarrow> lb_state \<Rightarrow> bool" where
  "pinned a p s t \<longleftrightarrow>
     (\<exists>cs qs. setCookies t = setCookies s @ cs \<and> sent t = sent s @ qs \<and>
        (qs = [] \<longrightarrow> cs = []) \<and>
        (qs \<noteq> [] \<longrightarrow> (if cs = [] then p = Some (URLString (target (last qs)))
                     else last cs = affinity_cookie a (URLString (target (last qs))))))"

lemma pinned_same: "setCookies t = setCookies s \<Longrightarrow> sent t = sent s \<Longrightarrow> pinned a p s t"
  by (simp add: pinned_def)

lemma pinned_pre:
  "pinned a p s' t \<Longrightarrow> setCookies s' = setCookies s \<Longrightarrow> sent s' = sent s \<Longrightarrow> pinned a p s t"
  by (simp add: pinned_def)

lemma pinned_None: "pinned a None s t \<Longrightarrow> pinned a p s t"
  by (auto simp: pinned_def split: if_splits)

lemma pinned_send:
  assumes "pinned a p (send e q s) t" and "p = Some (URLString (target q))"
  shows "pinned a p s t"
proof -
  obtain cs qs where "setCookies t = setCookies s @ cs" "sent t = sent s @ q # qs"
    "qs = [] \<longrightarrow> cs = []"
    "qs \<noteq> [] \<longrightarrow> (if cs = [] then p = Some (URLString (target (last qs)))
                   else last cs = affinity_cookie a (URLString (target (last qs))))"
    using assms(1) by (auto simp: pinned_def frame_simps)
  then show ?thesis unfolding pinned_def
    using assms(2) by (intro exI [of _ cs] exI [of _ "q # qs"]) auto
qed

lemma pinnedE:
  assumes "pinned a (Some u) s t" and "sent t \<noteq> sent s"
  obtains cs qs where "setCookies t = setCookies s @ cs" and "sent t = sent s @ qs" and "qs \<noteq> []"
    and "last (affinity_cookie a u # cs) = affinity_cookie a (URLString (target (last qs)))"
proof -
  obtain cs qs where q: "setCookies t = setCookies s @ cs" "sent t = sent s @ qs"
    "qs \<noteq> [] \<longrightarrow> (if cs = [] then Some u = Some (URLString (target (last qs)))
                   else last cs = affinity_cookie a (URLString (target (last qs))))"
    using assms(1) unfolding pinned_def by blast
  then have "qs \<noteq> []" using assms(2) by auto
  with q show thesis by (intro that) (auto split: if_splits)
qed

lemma serve_pinned:
  assumes name: "valid_cookie_name (cookieName a)"
  shows "lb_wf s \<Longrightarrow> sticky s = Some a \<Longrightarrow> pinned a None s (fst (ServeHTTP e s r))"
    and "lb_wf s' \<Longrightarrow> sticky s' = Some a \<Longrightarrow> peer \<in> set (backends s') \<Longrightarrow>
      pinned a (Some (ref_url s' peer)) s' (fst (proxy_ServeHTTP e' peer s' r')) \<and>
      sent (fst (proxy_ServeHTTP e' peer s' r')) \<noteq> sent s'"
    and "lb_wf s'' \<Longrightarrow> sticky s'' = Some a \<Longrightarrow> b \<in> set (backends s'') \<Longrightarrow>
      pinned a (Some (ref_url s'' b)) s'' (fst (error_handler e'' b err s'' r''))"
proof (induction e s r and e' peer s' r' and e'' b err s'' r'' rule: serve_induct)
  case (exhausted e s r)
  then show ?case by (simp add: ServeHTTP_exhausted http_Error_def pinned_same frame_simps)
next
  case (no_peer e s r s1)
  have "setCookies s1 = setCookies s" "sent s1 = sent s"
    using select_fields(7,10) [of s r] no_peer by simp_all
  with no_peer show ?case by (simp add: ServeHTTP_no_peer http_Error_def pinned_same frame_simps)
next
  case (refused e s r peer s1 s2)
  note ch = chosen [OF refused(2,3)]
  have "sticky s2 = Some a" using ch refused by (simp add: serve_frame_def)
  then show ?case
    using refused ch lb_wf_frame [of s s2] pinned_pre [of a None s2 _ s]
    by (simp add: ServeHTTP_refused)
next
  case (attempt e s r peer s1 s2 r' s3 s4 c)
  note st = started [OF attempt(2-4)] and ch = chosen [OF attempt(2,3)]
  have s3: "s3 = snd (begin_attempt e peer r s2)" and stk: "sticky s2 = Some a" "sticky s3 = Some a"
    using attempt ch st by (simp_all add: serve_frame_def)
  have url: "ref_url s3 peer = ref_url s peer" using st by (simp add: heap_simps)
  have ck: "setCookies s3 = setCookies s @ [affinity_cookie a (ref_url s peer)]"
    using ch stk(1) name unfolding s3 by (simp add: frame_simps SetCookie_def)
  have "pinned a (Some (ref_url s peer)) s3 s4" "sent s4 \<noteq> sent s3"
    using attempt st stk(2) lb_wf_frame [of s s3] url by simp_all
  then obtain cs qs where q: "setCookies s4 = setCookies s3 @ cs" "sent s4 = sent s3 @ qs" "qs \<noteq> []"
    "last (affinity_cookie a (ref_url s peer) # cs) = affinity_cookie a (URLString (target (last qs)))"
    by (rule pinnedE)
  have "setCookies s4 = setCookies s @ affinity_cookie a (ref_url s peer) # cs" "sent s4 = sent s @ qs"
    using q(1,2) ck st by simp_all
  then have "pinned a None s s4" unfolding pinned_def
    using q(3,4)
    by (intro exI [of _ "affinity_cookie a (ref_url s peer) # cs"] exI [of _ qs])
      (simp del: last.simps)
  then show ?case using attempt by (simp add: ServeHTTP_attempt pinned_def finish_eq frame_simps)
next
  case (nil e peer s r)
  then show ?case by (simp add: lb_wf_def)
next
  case (responded e peer s r t q code)
  then have "t = URL (heap s peer)" by (simp add: lb_wf_def)
  with responded show ?case
    by (simp add: proxy_responded frame_simps)
      (rule pinned_send [of _ _ e q], simp_all add: pinned_same frame_simps outgoing_def)
next
  case (aborted e peer s r t q code)
  then have "t = URL (heap s peer)" by (simp add: lb_wf_def)
  with aborted show ?case
    by (simp add: proxy_aborted frame_simps)
      (rule pinned_send [of _ _ e q], simp_all add: pinned_same frame_simps outgoing_def)
next
  case (failed e peer s r t q err)
  then have t: "t = URL (heap s peer)" by (simp add: lb_wf_def)
  obtain qs where "sent (fst (proxy_ServeHTTP e peer s r)) = sent s @ q # qs"
    using sent.serve_R(3) [of e peer err "send e q s" "Director t r"] unfolding proxy_failed [OF failed(1-3)]
    by (auto simp: frame_simps)
  moreover have "pinned a (Some (ref_url s peer)) (send e q s) (fst (proxy_ServeHTTP e peer s r))"
    using failed lb_wf_frame [OF frame.S_send] by (simp add: proxy_failed frame_simps)
  moreover have "Some (ref_url s peer) = Some (URLString (target q))"
    unfolding failed(2) t by (simp add: outgoing_def)
  ultimately show ?case
    using pinned_send by (metis append_self_conv list.distinct(1))
next
  case (retry e b err s r)
  then show ?case
    using lb_wf_frame [OF frame.S_wait]
      pinned_pre [of a "Some (ref_url s b)" "wait_retry s" "fst (error_handler e b err s r)" s]
    by (simp add: handler_retry frame_simps)
next
  case (cancelled e b err s r)
  then show ?case by (simp add: handler_cancelled pinned_same frame_simps)
next
  case (switch e b err s r)
  have "pinned a None (give_up b err s) (fst (error_handler e b err s r))"
    using switch lb_wf_frame [OF frame.S_give_up] by (simp add: handler_switch frame_simps)
  then have "pinned a None s (fst (error_handler e b err s r))"
    by (rule pinned_pre) (simp_all add: frame_simps)
  then show ?case by (rule pinned_None)
next
  case (give_up e b err s r)
  then show ?case by (simp add: handler_exhausted http_Error_def pinned_same frame_simps)
qed

end
