(* ===== verification/Proxy_Claims.thy ===== *)
theory Proxy_Claims
  imports Proxy_Traces
begin

text \<open>
  The properties of serving a request. A fresh request is one whose context carries none of the
  three keys, as it comes from \<open>net/http\<close>; \<open>ServeHTTP\<close> is run on any load-balancer state.
\<close>

definition fresh_request :: "request \<Rightarrow> bool" where
  "fresh_request r \<longleftrightarrow> attemptsKey r = None \<and> retryKey r = None \<and> requestIDKey r = None"

lemma fresh_ctx: "fresh_request r \<Longrightarrow> getAttemptsFromContext r = 0 \<and> getRetryFromContext r = 0"
  by (simp add: fresh_request_def getAttemptsFromContext_def getRetryFromContext_def)

lemma sample_fresh: "fresh_request (sample_request m)"
  by (simp add: fresh_request_def sample_request_def)

section \<open>Choosing a backend\<close>

lemma candidates_breakers:
  assumes "cbRegistry s = Some reg"
  shows "fst (candidates s) =
      (let ok = filter (\<lambda>b. Eligible (now s) (breaker_at reg (ref_url s b))) (backends s)
       in if ok = [] then backends s else ok) \<and>
    (\<exists>reg'. cbRegistry (snd (candidates s)) = Some reg' \<and> breaker_at reg' = breaker_at reg)"
  using eligible_loop_filter [of "now s" "heap s" "backends s" reg] assms
  by (auto simp: candidates_def Backends_def Let_def case_prod_unfold)

lemma select_registry: "cbRegistry (snd (select_peer s r)) = cbRegistry (snd (candidates s))"
  by (auto simp: select_peer_def case_prod_unfold split: option.split)

text \<open>
  C9: breakers gate the choice, and choosing never wastes a request on a refusal. The chosen
  backend is alive and in the pool. If the breaker of some backend in the pool would let a request
  through, then so would the breaker of the chosen one, and the \<open>Allow\<close> that follows is granted;
  if none would, the filter is dropped, and \<open>Allow\<close> refuses whichever backend is chosen.
\<close>

theorem select_respects_breakers:
  assumes "cbRegistry s = Some reg" and "select_peer s r = (Some p, s')"
  shows "p \<in> set (backends s) \<and> IsAlive (heap s p) \<and>
    ((\<exists>b \<in> set (backends s). Eligible (now s) (breaker_at reg (ref_url s b))) \<longleftrightarrow> fst (admit p s'))"
proof -
  let ?ok = "\<lambda>b. Eligible (now s) (breaker_at reg (ref_url s b))"
  have p: "p \<in> set (fst (candidates s))" "IsAlive (heap s p)" "p \<in> set (backends s)"
    using select_peer_alive [OF assms(2)] select_peer_mem [OF assms(2)] by auto
  have "s' = snd (select_peer s r)" using assms(2) by simp
  then obtain reg' where reg': "cbRegistry s' = Some reg'" "breaker_at reg' = breaker_at reg"
    using candidates_breakers [OF assms(1)] select_registry by metis
  have s': "now s' = now s" "ref_url s' p = ref_url s p"
    using \<open>s' = _\<close> by (simp_all add: frame_simps)
  have adm: "fst (admit p s') = fst (Allow (now s) (breaker_at reg (ref_url s p)))"
    using reg' s' by (simp add: admit_def case_prod_unfold)
  have "(\<exists>b \<in> set (backends s). ?ok b) \<longleftrightarrow> ?ok p"
    using p candidates_breakers [OF assms(1)] by (auto simp: Let_def filter_empty_conv split: if_splits)
  moreover have "?ok p \<longleftrightarrow> fst (Allow (now s) (breaker_at reg (ref_url s p)))"
    by (simp add: cb.agree)
  ultimately show ?thesis using p adm by simp
qed


definition sample_breakers :: registry where
  "sample_breakers = NewRegistry \<lparr>FailureThreshold = 2, SuccessThreshold = 1, Timeout = 1000\<rparr>"

text \<open>Backend a has failed twice, so its breaker is open; b's is closed.\<close>

definition tripped_breakers :: registry where
  "tripped_breakers = registry_RecordFailure 0 ''http://a'' (registry_RecordFailure 0 ''http://a'' sample_breakers)"

theorem select_respects_breakers_witness:
  "\<exists>p s'. select_peer (sample_lb [''a'', ''b''] [WithCircuitBreaker tripped_breakers]) (sample_request ''GET'')
      = (Some p, s') \<and> fst (admit p s')"
proof -
  let ?s = "sample_lb [''a'', ''b''] [WithCircuitBreaker tripped_breakers]"
  obtain p s' where sel: "select_peer ?s (sample_request ''GET'') = (p, s')" by fastforce
  have "fst (select_peer ?s (sample_request ''GET'')) = Some 1" by code_simp
  with sel have p: "p = Some 1" by simp
  have reg: "cbRegistry ?s = Some tripped_breakers" by (simp add: sample_lb_def NewLoadBalancer_def)
  have "(1::nat) \<in> set (backends ?s)" by code_simp
  moreover have "Eligible (now ?s) (breaker_at tripped_breakers (ref_url ?s 1))" by code_simp
  ultimately show ?thesis
    using select_respects_breakers [OF reg sel [unfolded p]] sel p by blast
qed

text \<open>
  C22: session affinity. If the request's cookie names a backend that is in the pool, alive and
  not refused by its breaker, that backend is chosen, and the algorithm does not move. In every
  other case the choice is the algorithm's.
\<close>

theorem sticky_choice:
  assumes "lb_wf s" and "sticky s = Some a" and "b \<in> set (backends s)"
    and "FromRequest a (cookies r) = ref_url s b" and "ref_url s b \<noteq> []" and "IsAlive (heap s b)"
    and "case cbRegistry s of None \<Rightarrow> True | Some reg \<Rightarrow> Eligible (now s) (breaker_at reg (ref_url s b))"
  shows "fst (select_peer s r) = Some b \<and> algo (snd (select_peer s r)) = algo s"
proof -
  obtain bs s1 where c: "candidates s = (bs, s1)" by fastforce
  have s1: "heap s1 = heap s" "sticky s1 = sticky s" "algo s1 = algo s"
    using c by (auto simp: candidates_def Let_def split: option.splits prod.splits)
  have sub: "set bs \<subseteq> set (backends s)" using candidates_subset [of s] c by simp
  have mem: "b \<in> set bs"
    using candidates_breakers [of s] c assms(3,7) candidates_heap(2) [of s]
    by (cases "cbRegistry s") (auto simp: Let_def filter_empty_conv)
  have uniq: "x \<in> set bs \<Longrightarrow> ref_url s x = ref_url s b \<Longrightarrow> x = b" for x
    using sub assms(1,3) by (auto simp: lb_wf_def pool_wf_def BackendURLs_def distinct_map dest: inj_onD)
  have "sticky_loop (heap s) (ref_url s b) bs = Some b"
    using mem uniq assms(6) by (induction bs) auto
  then show ?thesis
    using c s1 assms(2,4,5) by (simp add: select_peer_def sticky_peer_def)
qed

theorem sticky_choice_witness:
  "fst (select_peer (sample_lb [''a'', ''b''] [WithStickySession (NewAffinity ''lb'' 1 [])])
     (sample_request ''GET''\<lparr>cookies := [(''lb'', EncodeToString ''http://a'')]\<rparr>)) = Some 0"
proof -
  let ?s = "sample_lb [''a'', ''b''] [WithStickySession (NewAffinity ''lb'' 1 [])]"
  let ?r = "sample_request ''GET''\<lparr>cookies := [(''lb'', EncodeToString ''http://a'')]\<rparr>"
  have "lb_wf ?s" by (rule lb_wf_sample) code_simp
  moreover have "sticky ?s = Some (NewAffinity ''lb'' 1 [])" by (simp add: sample_lb_def NewLoadBalancer_def)
  moreover have "0 \<in> set (backends ?s)" by code_simp
  moreover have "FromRequest (NewAffinity ''lb'' 1 []) (cookies ?r) = ref_url ?s 0" by code_simp
  moreover have "ref_url ?s 0 \<noteq> []" by code_simp
  moreover have "IsAlive (heap ?s 0)" by code_simp
  moreover have "cbRegistry ?s = None" by (simp add: sample_lb_def NewLoadBalancer_def)
  ultimately show ?thesis using sticky_choice [of ?s "NewAffinity ''lb'' 1 []" 0 ?r] by simp
qed

section \<open>Work and answer\<close>

text \<open>
  Serving a request terminates within a fixed amount of work: at most 3 backends are tried,
  each once for a method that is not idempotent and at most 4 times for GET, HEAD and OPTIONS, so
  at most 12 requests go out.
\<close>

theorem serve_round_trips_bounded:
  assumes "fresh_request r"
  shows "int (length (sent (fst (ServeHTTP e s r)))) - int (length (sent s))
      \<le> (if idempotentMethods (Method r) then 12 else 3)"
  using sent_bound(1) [of r e s] fresh_ctx [OF assms]
  by (auto simp: MaxBackendSwitches_def maxRetries_def tries_per_backend_def split: if_splits)

theorem serve_round_trips_bounded_witness:
  "length (sent (fst (ServeHTTP (sample_env [''b'']) (sample_lb [''a'', ''b''] []) (sample_request ''POST'')))) \<le> 3"
proof -
  let ?s = "sample_lb [''a'', ''b''] []"
  have "\<not> idempotentMethods (Method (sample_request ''POST''))" "length (sent ?s) = 0" by code_simp+
  then show ?thesis
    using serve_round_trips_bounded [OF sample_fresh, of "sample_env [''b'']" ?s "''POST''"] by simp
qed

text \<open>
  C4: a request ends, with a bounded amount of work and in time. At most 3 backends are tried, each
  once for a method that is not idempotent and at most 4 times for GET, HEAD and OPTIONS, so at most
  3 or 12 requests go out. If no round trip takes longer than \<open>L\<close>, the handler returns or panics
  within \<open>3 L\<close>, or \<open>12 L\<close> plus nine waits of 10 ms: through every retry and backend switch
  there is no other source of delay.
\<close>

theorem serve_ends_in_time:
  assumes "fresh_request r" and "0 \<le> L" and "\<And>n. 0 \<le> latency e n \<and> latency e n \<le> L"
  shows "\<exists>t c. ServeHTTP e s r = (t, c) \<and>
    int (length (sent t)) - int (length (sent s)) \<le> (if idempotentMethods (Method r) then 12 else 3) \<and>
    now s \<le> now t \<and>
    now t - now s \<le> (if idempotentMethods (Method r) then 12 * L + 9 * retry_wait else 3 * L)"
proof -
  obtain t c where run: "ServeHTTP e s r = (t, c)" by fastforce
  let ?n = "int (length (sent t)) - int (length (sent s))" and ?w = "int (waits t) - int (waits s)"
  have t: "in_time L s t" using serve_in_time(1) [of L e s r] assms(3) run by (simp add: prompt_def)
  have n: "?n \<le> (if idempotentMethods (Method r) then 12 else 3)"
    using serve_round_trips_bounded [OF assms(1), of e s] run by simp
  have w: "?w \<le> (if idempotentMethods (Method r) then 9 else 0)"
    using waits_bound(1) [of r e s] fresh_ctx [OF assms(1)] run
    by (auto simp: MaxBackendSwitches_def maxRetries_def tries_per_backend_def split: if_splits)
  have "L * ?n \<le> L * (if idempotentMethods (Method r) then 12 else 3)"
    using n assms(2) by (rule mult_left_mono)
  moreover have "retry_wait * ?w \<le> retry_wait * (if idempotentMethods (Method r) then 9 else 0)"
    using w by (rule mult_left_mono) (simp add: retry_wait_def)
  ultimately show ?thesis using t run n by (auto simp: in_time_def algebra_simps)
qed

theorem serve_ends_in_time_witness:
  "now (fst (ServeHTTP (sample_env [''b'']) (sample_lb [''a'', ''b''] []) (sample_request ''GET'')))
     \<le> 12 * 1000000 + 9 * 10000000"
proof -
  have "0 \<le> latency (sample_env [''b'']) n \<and> latency (sample_env [''b'']) n \<le> 1000000" for n
    by (simp add: sample_env_def)
  moreover have "now (sample_lb [''a'', ''b''] []) = 0" "idempotentMethods (Method (sample_request ''GET''))"
    by code_simp+
  ultimately show ?thesis
    using serve_ends_in_time [OF sample_fresh, of 1000000 "sample_env [''b'']"
        "sample_lb [''a'', ''b''] []" "''GET''"] by (auto simp: retry_wait_def)
qed

text \<open>
  C1: every request ends in the right way and writes its answer exactly once. On a pool whose
  backends all have their proxies, whatever the round trips bring and whenever the client goes away:
  if the client went away during a wait before a retry, the handler returns and has written no
  status; otherwise exactly one \<open>WriteHeader\<close> reaches the client's writer, with the status of the
  last round trip if it brought a response and 503 if every round trip failed or none could be made;
  and the handler returns, except that it panics with \<open>http.ErrAbortHandler\<close> after a response
  whose body could not be copied.
\<close>

theorem serve_answers:
  assumes "lb_wf s" and "status s = []" and "ServeHTTP e s r = (t, c)"
  shows "if waits s < waits t \<and> \<not> timerFirst e (waits t - 1) then c = Done \<and> status t = []
    else if sent t = sent s then c = Done \<and> status t = [StatusServiceUnavailable]
    else (case roundtrip e (length (sent t) - 1) (last (sent t)) of
            Responded code \<Rightarrow> c = Done \<and> status t = [code]
          | Aborted code \<Rightarrow> c = Panicked \<and> status t = [code]
          | Failed err \<Rightarrow> c = Done \<and> status t = [StatusServiceUnavailable])"
  using serve_answered(1) [OF assms(2,1), of e r] assms(3)
  by (auto simp: answered_def ending_def client_left_def split: if_splits outcome.splits)

theorem serve_answers_witness:
  "status (fst (ServeHTTP (sample_env [''b'']) (sample_lb [''a'', ''b''] []) (sample_request ''GET''))) = [200]"
proof -
  let ?e = "sample_env [''b'']" and ?s = "sample_lb [''a'', ''b''] []" and ?r = "sample_request ''GET''"
  obtain t c where run: "ServeHTTP ?e ?s ?r = (t, c)" by fastforce
  have wf: "lb_wf ?s" by (rule lb_wf_sample) code_simp
  have st: "status ?s = []" by (simp add: sample_lb_def NewLoadBalancer_def)
  have "map sentMethod (sent (fst (ServeHTTP ?e ?s ?r))) \<noteq> map sentMethod (sent ?s)" by code_simp
  then have ne: "sent t \<noteq> sent ?s" using run by auto
  have "case roundtrip ?e (length (sent (fst (ServeHTTP ?e ?s ?r))) - 1) (last (sent (fst (ServeHTTP ?e ?s ?r)))) of
      Responded code \<Rightarrow> code = 200 | _ \<Rightarrow> False" by code_simp
  then have rt: "roundtrip ?e (length (sent t) - 1) (last (sent t)) = Responded 200"
    using run by (simp split: outcome.splits)
  have "timerFirst ?e n" for n by (simp add: sample_env_def)
  with serve_answers [OF wf st run] ne rt run show ?thesis by simp
qed


section \<open>What a request does to the shared state\<close>

text \<open>
  A request leaves the pool as it found it, up to liveness going down: same members in the
  same order, same URLs, weights and proxies, no backend revived, and the load balancer's
  invariant kept. This holds whether the handler returns or panics.
\<close>

theorem serve_keeps_pool:
  assumes "lb_wf s" and "t = fst (ServeHTTP e s r)"
  shows "lb_wf t \<and> backends t = backends s \<and> BackendURLs t = BackendURLs s \<and>
    (\<forall>x. Weight (heap t x) = Weight (heap s x)) \<and>
    (\<forall>x. IsAlive (heap t x) \<longrightarrow> IsAlive (heap s x)) \<and> Name (algo t) = Name (algo s)"
  using frame.serve_R(1) [of s e r] lb_wf_frame [of s t] assms
  by (auto simp: serve_frame_def BackendURLs_def IsAlive_def)

theorem serve_keeps_pool_witness:
  "BackendURLs (fst (ServeHTTP (sample_env []) (sample_lb [''a'', ''b''] []) (sample_request ''GET'')))
     = [''http://a'', ''http://b'']"
proof -
  have "lb_wf (sample_lb [''a'', ''b''] [])" by (rule lb_wf_sample) code_simp
  then have "BackendURLs (fst (ServeHTTP (sample_env []) (sample_lb [''a'', ''b''] []) (sample_request ''GET'')))
      = BackendURLs (sample_lb [''a'', ''b''] [])"
    using serve_keeps_pool [OF _ refl] by blast
  also have "\<dots> = [''http://a'', ''http://b'']" by code_simp
  finally show ?thesis .
qed

text \<open>
  Connection counts are conserved. Whatever happens to a request - answered, retried, failed
  over, given up or ended by a panic - every backend's active-connection count and every series of
  the active-connections gauge end where they started, so the least-connections algorithm and
  the gauge cannot drift.
\<close>

theorem serve_conserves_connections:
  assumes "is_int64 (ActiveConns (heap s x))"
  shows "ActiveConns (heap (fst (ServeHTTP e s r)) x) = ActiveConns (heap s x) \<and>
    active_value u (calls (mets (fst (ServeHTTP e s r)))) = active_value u (calls (mets s))"
  using conserve.serve_R(1) [of s e r] assms by (auto simp: conserves_def ActiveConns_def)

theorem serve_conserves_connections_witness:
  "ActiveConns (heap (fst (ServeHTTP (sample_env [''b'']) (sample_lb [''a'', ''b''] []) (sample_request ''GET''))) 0) = 0"
proof -
  have z: "ActiveConns (heap (sample_lb [''a'', ''b''] []) 0) = 0" by code_simp
  then have "is_int64 (ActiveConns (heap (sample_lb [''a'', ''b''] []) 0))" by simp
  from serve_conserves_connections [OF this] z show ?thesis by simp
qed

text \<open>
  C8: no backend is marked dead lightly. A backend that dies during a request has failed, within
  this very request, all the tries it is given: 4 for GET, HEAD and OPTIONS, 1 for other methods.
\<close>

theorem serve_deaths_earned:
  assumes "lb_wf s" and "fresh_request r" and "x \<in> set (backends s)"
    and "IsAlive (heap s x)" and "\<not> IsAlive (heap (fst (ServeHTTP e s r)) x)"
  shows "failures_to e (ref_url s x) s (fst (ServeHTTP e s r)) \<ge>
    (if idempotentMethods (Method r) then 4 else 1)"
  using serve_deaths(1) [of s r e] fresh_ctx [OF assms(2)] assms
  by (auto simp: deaths_earned_def IsAlive_def tries_per_backend_def maxRetries_def)

theorem serve_deaths_earned_witness:
  "failures_to (sample_env [''b'']) ''http://a'' (sample_lb [''a'', ''b''] [])
     (fst (ServeHTTP (sample_env [''b'']) (sample_lb [''a'', ''b''] []) (sample_request ''GET''))) \<ge> 4"
proof -
  let ?s = "sample_lb [''a'', ''b''] []"
  have "lb_wf ?s" by (rule lb_wf_sample) code_simp
  moreover have "0 \<in> set (backends ?s)" "IsAlive (heap ?s 0)" "ref_url ?s 0 = ''http://a''"
    "idempotentMethods (Method (sample_request ''GET''))" by code_simp+
  moreover have "\<not> IsAlive (heap (fst (ServeHTTP (sample_env [''b'']) ?s (sample_request ''GET''))) 0)"
    by code_simp
  ultimately show ?thesis
    using serve_deaths_earned [OF _ sample_fresh, of ?s 0 "sample_env [''b'']" "''GET''"] by simp
qed



text \<open>
  C21: affinity follows the failover. When cookies are on and the request reached any backend, the
  last cookie set on the response is the one for the backend the last round trip went to.
\<close>

theorem serve_pins_last_backend:
  assumes "lb_wf s" and "sticky s = Some a" and "valid_cookie_name (cookieName a)"
    and "t = fst (ServeHTTP e s r)" and "sent t \<noteq> sent s"
  shows "setCookies t \<noteq> [] \<and> last (setCookies t) = affinity_cookie a (URLString (target (last (sent t))))"
proof -
  obtain cs qs where "setCookies t = setCookies s @ cs" "sent t = sent s @ qs"
    "qs \<noteq> [] \<longrightarrow> (if cs = [] then None = Some (URLString (target (last qs)))
       else last cs = affinity_cookie a (URLString (target (last qs))))"
    using serve_pinned(1) [OF assms(3,1,2), of e r] assms(4) unfolding pinned_def by blast
  then show ?thesis using assms(5) by (auto split: if_splits)
qed

theorem serve_pins_last_backend_witness:
  "Value (last (setCookies (fst (ServeHTTP (sample_env [''b''])
     (sample_lb [''b''] [WithStickySession (NewAffinity ''lb'' 1 [])]) (sample_request ''GET'')))))
   = EncodeToString ''http://b''"
proof -
  let ?a = "NewAffinity ''lb'' 1 []"
  let ?s = "sample_lb [''b''] [WithStickySession ?a]"
  let ?t = "fst (ServeHTTP (sample_env [''b'']) ?s (sample_request ''GET''))"
  have wf: "lb_wf ?s" by (rule lb_wf_sample) code_simp
  have st: "sticky ?s = Some ?a" and l: "sent ?s = []" by (simp_all add: sample_lb_def NewLoadBalancer_def)
  have nm: "valid_cookie_name (cookieName ?a)" by code_simp
  have "map (\<lambda>q. URLString (target q)) (sent ?t) = [''http://b'']" by code_simp
  then have ne: "sent ?t \<noteq> sent ?s" and url: "URLString (target (last (sent ?t))) = ''http://b''"
    unfolding l by (auto simp flip: last_map)
  have "last (setCookies ?t) = affinity_cookie ?a ''http://b''"
    using serve_pins_last_backend [OF wf st nm refl ne] unfolding url by (rule conjunct2)
  then show ?thesis by (simp only: affinity_cookie_def cookie.simps)
qed

section \<open>Where the code does not do what it says\<close>

text \<open>
  A request that failed over is counted once per attempt, although the code means to count it
  once. The guard of \<open>ServeHTTP\<close> compares the attempt number with itself, as a request's context
  never changes: here one client request, refused by a and answered by b, adds one to the 2xx
  counter of both backends - also of a, which never answered.
\<close>

theorem failover_counts_twice:
  "\<exists>t. ServeHTTP (sample_env [''b'']) (sample_lb [''a'', ''b''] []) (sample_request ''GET'') = (t, Done) \<and>
     counter_value [''http://a'', ''2xx''] (calls (mets t)) = 1 \<and>
     counter_value [''http://b'', ''2xx''] (calls (mets t)) = 1"
proof -
  let ?r = "ServeHTTP (sample_env [''b'']) (sample_lb [''a'', ''b''] []) (sample_request ''GET'')"
  have "snd ?r = Done" by code_simp
  moreover have "counter_value [''http://a'', ''2xx''] (calls (mets (fst ?r))) = 1" by code_simp
  moreover have "counter_value [''http://b'', ''2xx''] (calls (mets (fst ?r))) = 1" by code_simp
  ultimately show ?thesis by (intro exI [of _ "fst ?r"]) (simp only: prod_eq_iff fst_conv snd_conv simp_thms)
qed

text \<open>
  A failover that succeeds wipes the failing backend's failure count. Backend a's breaker
  needs two failures in a row; a fails all four tries and is given up, which records a failure,
  but when b has answered, the frame of the attempt on a records a success for a. The breaker is
  left closed with no failure counted.
\<close>

theorem failover_wipes_breaker_failures:
  "\<exists>t reg. ServeHTTP (sample_env [''b''])
       (sample_lb [''a'', ''b''] [WithCircuitBreaker sample_breakers]) (sample_request ''GET'') = (t, Done) \<and>
     cbRegistry t = Some reg \<and> failures (breaker_at reg ''http://a'') = 0 \<and>
     Breaker_State (breaker_at reg ''http://a'') = Closed \<and>
     failures (breaker_at (registry_RecordFailure 0 ''http://a'' sample_breakers) ''http://a'') = 1"
proof -
  let ?r = "ServeHTTP (sample_env [''b''])
       (sample_lb [''a'', ''b''] [WithCircuitBreaker sample_breakers]) (sample_request ''GET'')"
  have "snd ?r = Done" by code_simp
  moreover have "case cbRegistry (fst ?r) of None \<Rightarrow> False
      | Some reg \<Rightarrow> failures (breaker_at reg ''http://a'') = 0 \<and>
          Breaker_State (breaker_at reg ''http://a'') = Closed" by code_simp
  moreover have "failures (breaker_at (registry_RecordFailure 0 ''http://a'' sample_breakers) ''http://a'') = 1"
    by code_simp
  ultimately show ?thesis
    by (intro exI [of _ "fst ?r"])
      (simp only: prod_eq_iff fst_conv snd_conv simp_thms split: option.split_asm, blast)
qed

definition client_gone :: env where
  "client_gone = sample_env []\<lparr>roundtrip := \<lambda>n q. Failed ''context canceled'', timerFirst := \<lambda>n. False\<rparr>"

text \<open>
  A client that leaves kills healthy backends. When the client of a POST goes away, every
  round trip fails at once with its context's error; the error handler takes each failure for the
  backend's, and marks one after the other dead - up to three per request, here both there are.
\<close>

theorem departing_client_kills_backends:
  "\<exists>t. ServeHTTP client_gone (sample_lb [''a'', ''b''] []) (sample_request ''POST'') = (t, Done) \<and>
     map (\<lambda>b. IsAlive (heap t b)) (backends t) = [False, False]"
proof -
  let ?r = "ServeHTTP client_gone (sample_lb [''a'', ''b''] []) (sample_request ''POST'')"
  have "snd ?r = Done" by code_simp
  moreover have "map (\<lambda>b. IsAlive (heap (fst ?r) b)) (backends (fst ?r)) = [False, False]" by code_simp
  ultimately show ?thesis by (intro exI [of _ "fst ?r"]) (simp only: prod_eq_iff fst_conv snd_conv simp_thms)
qed

text \<open>
  A panic while a half-open breaker's probe is out loses the probe's permit. Backend a's
  breaker is open and its timeout over; the request is admitted as the probe, the response's body
  cannot be copied, and neither success nor failure is recorded: no later request is admitted.
\<close>

theorem aborted_probe_shuts_backend_out:
  "\<exists>t reg. ServeHTTP (sample_env []\<lparr>roundtrip := \<lambda>n q. Aborted 200\<rparr>)
       (sample_lb [''a''] [WithCircuitBreaker tripped_breakers]\<lparr>now := 1000000000\<rparr>)
       (sample_request ''GET'') = (t, Panicked) \<and>
     cbRegistry t = Some reg \<and> (\<forall>later. \<not> fst (Allow later (breaker_at reg ''http://a'')))"
proof -
  let ?r = "ServeHTTP (sample_env []\<lparr>roundtrip := \<lambda>n q. Aborted 200\<rparr>)
       (sample_lb [''a''] [WithCircuitBreaker tripped_breakers]\<lparr>now := 1000000000\<rparr>) (sample_request ''GET'')"
  have "snd ?r = Panicked" by code_simp
  moreover have "case cbRegistry (fst ?r) of None \<Rightarrow> False
      | Some reg \<Rightarrow> state (breaker_at reg ''http://a'') = HalfOpen \<and>
          \<not> halfOpenPermit (breaker_at reg ''http://a'')" by code_simp
  then obtain reg where "cbRegistry (fst ?r) = Some reg" "state (breaker_at reg ''http://a'') = HalfOpen"
    "\<not> halfOpenPermit (breaker_at reg ''http://a'')" by (auto split: option.splits)
  moreover from this have "\<not> fst (Allow later (breaker_at reg ''http://a''))" for later
    by (simp add: Allow_def take_permit_def)
  ultimately show ?thesis
    by (intro exI [of _ "fst ?r"] exI [of _ reg]) (simp only: prod_eq_iff fst_conv snd_conv simp_thms)
qed

definition based_lb :: lb_state where
  "based_lb = NewLoadBalancer
     (sample_pool [(http_backend ''a'' 1)\<lparr>URL := (http_url ''a'')\<lparr>Path := ''/v1''\<rparr>,
        ReverseProxy := Some ((http_url ''a'')\<lparr>Path := ''/v1''\<rparr>)\<rparr>]) LeastConnections []"

text \<open>
  A retry asks for another path. The error handler is given the outgoing request, whose path
  already has the backend's base path in front; retrying it through the same proxy puts the base
  path in front again. For a backend with base path /v1 the retries of /x ask for /v1/x,
  /v1/v1/x, /v1/v1/v1/x and so on.
\<close>

theorem retry_repeats_base_path:
  "map sentPath (sent (fst (ServeHTTP (sample_env []) based_lb (sample_request ''GET'')))) =
     [''/v1/x'', ''/v1/v1/x'', ''/v1/v1/v1/x'', ''/v1/v1/v1/v1/x'']"
  by code_simp

end
