(* ===== verification/Go_Parse.thy ===== *)
theory Go_Parse
  imports Golb_Prelude
begin

text \<open>
  The parsers of Go's standard library that the configuration code calls on text:
  \<open>strconv.ParseBool\<close>, \<open>strconv.ParseInt(s, 0, 64)\<close> and \<open>time.ParseDuration\<close>. Each returns
  \<open>None\<close> for an error. The only deviation is in the fraction of a duration: Go multiplies it in
  \<open>float64\<close> and truncates, here it is multiplied exactly and truncated.
\<close>

section \<open>Digits\<close>

definition char_code :: "char \<Rightarrow> int" where
  "char_code c = of_char c"

definition is_digit :: "char \<Rightarrow> bool" where
  "is_digit c \<longleftrightarrow> 48 \<le> char_code c \<and> char_code c \<le> 57"

definition lower :: "char \<Rightarrow> char" where
  "lower c = (if 65 \<le> char_code c \<and> char_code c \<le> 90 then char_of (char_code c + 32) else c)"

text \<open>The value of a digit or letter, in base up to 36.\<close>

definition digit_value :: "char \<Rightarrow> int option" where
  "digit_value c =
     (if is_digit c then Some (char_code c - 48)
      else if 97 \<le> char_code (lower c) \<and> char_code (lower c) \<le> 122
      then Some (char_code (lower c) - 87)
      else None)"

section \<open>ParseBool\<close>

definition ParseBool :: "string \<Rightarrow> bool option" where
  "ParseBool s =
     (if s \<in> {''1'', ''t'', ''T'', ''true'', ''TRUE'', ''True''} then Some True
      else if s \<in> {''0'', ''f'', ''F'', ''false'', ''FALSE'', ''False''} then Some False
      else None)"

section \<open>ParseInt with base 0\<close>

fun parse_digits :: "int \<Rightarrow> string \<Rightarrow> int \<Rightarrow> int option" where
  "parse_digits base [] n = Some n"
| "parse_digits base (c # cs) n =
     (if c = CHR ''_'' then parse_digits base cs n
      else
        case digit_value c of
          None \<Rightarrow> None
        | Some d \<Rightarrow>
            if d \<ge> base \<or> n * base + d \<ge> 2 ^ 64 then None else parse_digits base cs (n * base + d))"

text \<open>
  \<open>underscoreOK\<close>: an underscore separates digits or follows the base prefix. The flag tells
  whether the character before is a digit (or the prefix), an underscore, or something else.
\<close>

datatype seen = SeenDigit | SeenUnderscore | SeenOther

fun underscores_ok :: "bool \<Rightarrow> seen \<Rightarrow> string \<Rightarrow> bool" where
  "underscores_ok hex i [] = (i \<noteq> SeenUnderscore)"
| "underscores_ok hex i (c # cs) =
     (if is_digit c \<or> hex \<and> 97 \<le> char_code (lower c) \<and> char_code (lower c) \<le> 102
      then underscores_ok hex SeenDigit cs
      else if c = CHR ''_'' then i = SeenDigit \<and> underscores_ok hex SeenUnderscore cs
      else i \<noteq> SeenUnderscore \<and> underscores_ok hex SeenOther cs)"

definition base_prefix :: "string \<Rightarrow> (int \<times> string) option" where
  "base_prefix s =
     (case s of
        z # b # rest \<Rightarrow>
          if z = CHR ''0'' \<and> lower b = CHR ''b'' then Some (2, rest)
          else if z = CHR ''0'' \<and> lower b = CHR ''o'' then Some (8, rest)
          else if z = CHR ''0'' \<and> lower b = CHR ''x'' then Some (16, rest)
          else None
      | _ \<Rightarrow> None)"

definition underscoreOK :: "string \<Rightarrow> bool" where
  "underscoreOK s =
     (case base_prefix s of
        Some (base, rest) \<Rightarrow> underscores_ok (base = 16) SeenDigit rest
      | None \<Rightarrow> underscores_ok False SeenOther s)"

definition ParseUint0 :: "string \<Rightarrow> int option" where
  "ParseUint0 s =
     (if s = [] then None
      else
        let (base, digits) =
          (case base_prefix s of
             Some (base, rest) \<Rightarrow> if rest \<noteq> [] then (base, rest) else (8, tl s)
           | None \<Rightarrow> if hd s = CHR ''0'' then (8, tl s) else (10, s))
        in case parse_digits base digits 0 of
             None \<Rightarrow> None
           | Some n \<Rightarrow> if CHR ''_'' \<in> set digits \<and> \<not> underscoreOK s then None else Some n)"

definition ParseInt0 :: "string \<Rightarrow> int option" where
  "ParseInt0 s =
     (let neg = (s \<noteq> [] \<and> hd s = CHR ''-'');
          u = (if s \<noteq> [] \<and> (hd s = CHR ''-'' \<or> hd s = CHR ''+'') then tl s else s)
      in case ParseUint0 u of
           None \<Rightarrow> None
         | Some n \<Rightarrow>
             if \<not> neg \<and> n \<ge> 2 ^ 63 then None
             else if neg \<and> n > 2 ^ 63 then None
             else Some (if neg then - n else n))"

section \<open>ParseDuration\<close>

text \<open>\<open>leadingInt\<close>; \<open>None\<close> is the overflow error.\<close>

fun leadingInt :: "string \<Rightarrow> int \<Rightarrow> (int \<times> string) option" where
  "leadingInt [] x = Some (x, [])"
| "leadingInt (c # cs) x =
     (if \<not> is_digit c then Some (x, c # cs)
      else if x > 2 ^ 63 div 10 then None
      else
        let x' = x * 10 + (char_code c - 48) in
        if x' > 2 ^ 63 then None else leadingInt cs x')"

text \<open>\<open>leadingFraction\<close>: once a digit would overflow, it and all later ones are dropped.\<close>

fun leadingFraction :: "string \<Rightarrow> int \<Rightarrow> int \<Rightarrow> bool \<Rightarrow> int \<times> int \<times> string" where
  "leadingFraction [] x scale overflow = (x, scale, [])"
| "leadingFraction (c # cs) x scale overflow =
     (if \<not> is_digit c then (x, scale, c # cs)
      else if overflow \<or> x > (2 ^ 63 - 1) div 10 then leadingFraction cs x scale True
      else
        let y = x * 10 + (char_code c - 48) in
        if y > 2 ^ 63 then leadingFraction cs x scale True
        else leadingFraction cs y (scale * 10) False)"

definition unitMap :: "(string \<times> int) list" where
  "unitMap =
     [(''ns'', 1), (''us'', 1000),
      ([CHR 0xC2, CHR 0xB5, CHR ''s''], 1000), ([CHR 0xCE, CHR 0xBC, CHR ''s''], 1000),
      (''ms'', 1000000), (''s'', 1000000000), (''m'', 60000000000), (''h'', 3600000000000)]"

text \<open>One number with its unit: its length in nanoseconds and the rest of the text.\<close>

definition duration_part :: "string \<Rightarrow> (int \<times> string) option" where
  "duration_part s =
     (if s = [] \<or> \<not> (hd s = CHR ''.'' \<or> is_digit (hd s)) then None
      else
        case leadingInt s 0 of
          None \<Rightarrow> None
        | Some (v, s1) \<Rightarrow>
            let pre = (length s1 \<noteq> length s);
                dot = (s1 \<noteq> [] \<and> hd s1 = CHR ''.'');
                (f, scale, s2) = (if dot then leadingFraction (tl s1) 0 1 False else (0, 1, s1));
                post = (dot \<and> length s2 \<noteq> length (tl s1));
                u = takeWhile (\<lambda>c. \<not> (c = CHR ''.'' \<or> is_digit c)) s2;
                rest = dropWhile (\<lambda>c. \<not> (c = CHR ''.'' \<or> is_digit c)) s2
            in if \<not> pre \<and> \<not> post then None
               else if u = [] then None
               else
                 case map_of unitMap u of
                   None \<Rightarrow> None
                 | Some unit \<Rightarrow>
                     if v > 2 ^ 63 div unit then None
                     else
                       let v' = v * unit + (if f > 0 then f * unit div scale else 0) in
                       if v' > 2 ^ 63 then None else Some (v', rest))"

text \<open>Every part shortens the text, so its length is fuel enough; the sum is a \<open>uint64\<close>.\<close>

fun duration_parts :: "nat \<Rightarrow> string \<Rightarrow> int \<Rightarrow> int option" where
  "duration_parts n [] d = Some d"
| "duration_parts 0 (c # cs) d = None"
| "duration_parts (Suc n) (c # cs) d =
     (case duration_part (c # cs) of
        None \<Rightarrow> None
      | Some (v, rest) \<Rightarrow>
          let d' = (d + v) mod 2 ^ 64 in
          if d' > 2 ^ 63 then None else duration_parts n rest d')"

definition ParseDuration :: "string \<Rightarrow> duration option" where
  "ParseDuration orig =
     (let neg = (orig \<noteq> [] \<and> hd orig = CHR ''-'');
          s = (if orig \<noteq> [] \<and> (hd orig = CHR ''-'' \<or> hd orig = CHR ''+'') then tl orig else orig)
      in if s = ''0'' then Some 0
         else if s = [] then None
         else
           case duration_parts (length s) s 0 of
             None \<Rightarrow> None
           | Some d \<Rightarrow>
               if neg then Some (int64 (- d))
               else if d > 2 ^ 63 - 1 then None
               else Some d)"

section \<open>Facts\<close>

lemma leadingInt_length: "leadingInt s x = Some (v, r) \<Longrightarrow> length r \<le> length s"
proof (induction s arbitrary: x)
  case (Cons c s)
  then show ?case by (force simp: Let_def split: if_splits)
qed simp

lemma leadingFraction_length: "leadingFraction s x k b = (f, k', r) \<Longrightarrow> length r \<le> length s"
proof (induction s arbitrary: x k b)
  case (Cons c s)
  then show ?case by (force simp: Let_def split: if_splits)
qed simp

text \<open>The fuel is enough: a part consumes at least its unit.\<close>

lemma duration_part_shorter:
  assumes "duration_part s = Some (v, r)"
  shows "length r < length s"
proof -
  obtain w s1 where li: "leadingInt s 0 = Some (w, s1)"
    using assms by (auto simp: duration_part_def split: if_splits option.splits)
  obtain f k s2 where lf: "(if s1 \<noteq> [] \<and> hd s1 = CHR ''.'' then leadingFraction (tl s1) 0 1 False else (0, 1, s1)) = (f, k, s2)"
    by (metis prod_cases3)
  have "r = dropWhile (\<lambda>c. \<not> (c = CHR ''.'' \<or> is_digit c)) s2"
    and ne: "takeWhile (\<lambda>c. \<not> (c = CHR ''.'' \<or> is_digit c)) s2 \<noteq> []"
    using assms li lf by (auto simp: duration_part_def Let_def split: if_splits option.splits)
  then have "length s2 = length (takeWhile (\<lambda>c. \<not> (c = CHR ''.'' \<or> is_digit c)) s2) + length r"
    by (metis length_append takeWhile_dropWhile_id)
  then have "length r < length s2" using ne by simp
  also have "length s2 \<le> length s"
    using leadingInt_length [OF li] lf leadingFraction_length [of "tl s1" 0 1 False f k s2]
    by (auto split: if_splits)
  finally show ?thesis .
qed

lemma duration_parts_fuel:
  "length s \<le> n \<Longrightarrow> length s \<le> m \<Longrightarrow> duration_parts n s d = duration_parts m s d"
proof (induction n s d arbitrary: m rule: duration_parts.induct)
  case (3 n c cs d)
  then obtain k where m: "m = Suc k" by (cases m) auto
  show ?case
  proof (cases "duration_part (c # cs)")
    case (Some p)
    obtain v r where p: "p = (v, r)" by fastforce
    have "length r \<le> n" "length r \<le> k"
      using duration_part_shorter [OF Some [unfolded p]] 3(2,3) m by simp_all
    then have "\<not> (d + v) mod 2 ^ 64 > 2 ^ 63 \<Longrightarrow>
        duration_parts n r ((d + v) mod 2 ^ 64) = duration_parts k r ((d + v) mod 2 ^ 64)"
      using 3(1) [OF Some p [symmetric] refl] by blast
    then show ?thesis unfolding m duration_parts.simps Some p option.case prod.case Let_def
      by (cases "(d + v) mod 2 ^ 64 > 2 ^ 63") (simp_all only: if_True if_False not_False_eq_True simp_thms)
  qed (simp add: m)
qed simp_all

lemma parse_digits_nonneg: "parse_digits base s n = Some m \<Longrightarrow> 0 \<le> n \<Longrightarrow> 0 < base \<Longrightarrow> 0 \<le> m"
proof (induction base s n rule: parse_digits.induct)
  case (2 base c cs n)
  then show ?case by (auto simp: digit_value_def is_digit_def split: if_splits option.splits)
qed simp

lemma ParseUint0_nonneg:
  assumes "ParseUint0 s = Some n"
  shows "0 \<le> n"
proof -
  obtain base digits where b: "(case base_prefix s of
             Some (base, rest) \<Rightarrow> if rest \<noteq> [] then (base, rest) else (8, tl s)
           | None \<Rightarrow> if hd s = CHR ''0'' then (8, tl s) else (10, s)) = (base, digits)"
    by fastforce
  then have "0 < base" by (auto simp: base_prefix_def split: option.splits if_splits list.splits)
  moreover have "parse_digits base digits 0 = Some n"
    using assms unfolding ParseUint0_def b by (simp split: if_splits option.splits)
  ultimately show ?thesis using parse_digits_nonneg by fastforce
qed

lemma duration_parts_nonneg: "duration_parts n s d = Some e \<Longrightarrow> 0 \<le> d \<Longrightarrow> 0 \<le> e"
  by (induction n s d rule: duration_parts.induct) (auto simp: Let_def split: option.splits if_splits)

lemma ParseDuration_int64: "ParseDuration s = Some d \<Longrightarrow> is_int64 d"
  by (auto simp: ParseDuration_def Let_def split: if_splits option.splits dest: duration_parts_nonneg)
    (auto simp: is_int64_def dest: duration_parts_nonneg)

lemma ParseInt0_int64: "ParseInt0 s = Some i \<Longrightarrow> is_int64 i"
  by (auto simp: ParseInt0_def Let_def is_int64_def split: if_splits option.splits dest: ParseUint0_nonneg)


section \<open>Durations round-trip\<close>

text \<open>A duration written in nanoseconds, as a configuration file may have it.\<close>

definition show_duration :: "duration \<Rightarrow> string" where
  "show_duration d = Itoa d @ ''ns''"

definition digits_value :: "int \<Rightarrow> string \<Rightarrow> int" where
  "digits_value x s = foldl (\<lambda>x c. x * 10 + (char_code c - 48)) x s"

lemma digits_value_simps [simp]:
  "digits_value x [] = x" "digits_value x (c # s) = digits_value (x * 10 + (char_code c - 48)) s"
  "digits_value x (s @ t) = digits_value (digits_value x s) t"
  by (simp_all add: digits_value_def)

lemma char_code_digit: "n < 10 \<Longrightarrow> char_code (digit_char n) = 48 + int n"
proof -
  assume "n < 10"
  moreover have "\<forall>n \<in> set [0..<10]. char_code (digit_char n) = 48 + int n" by code_simp
  ultimately show ?thesis by simp
qed

lemma show_base_10: "list_all is_digit (show_base 10 n) \<and> digits_value 0 (show_base 10 n) = int n"
proof (induction n rule: less_induct)
  case (less n)
  show ?case
  proof (cases "n < 10")
    case True
    then show ?thesis by (simp add: show_base.simps [of 10 n] char_code_digit is_digit_def del: digit_char.simps)
  next
    case False
    then have "list_all is_digit (show_base 10 (n div 10)) \<and>
        digits_value 0 (show_base 10 (n div 10)) = int (n div 10)"
      using less [of "n div 10"] by simp
    moreover have "char_code (digit_char (n mod 10)) = 48 + int (n mod 10)" by (rule char_code_digit) simp
    moreover from this have "is_digit (digit_char (n mod 10))" by (simp add: is_digit_def)
    ultimately show ?thesis
      using False by (simp add: show_base.simps [of 10 n] zdiv_int zmod_int del: digit_char.simps)
  qed
qed

lemma show_base_ne: "show_base b n \<noteq> []"
  by (simp add: show_base.simps [of b n])

lemma digits_value_mono: "list_all is_digit s \<Longrightarrow> 0 \<le> x \<Longrightarrow> x \<le> digits_value x s"
proof (induction s arbitrary: x)
  case (Cons c s)
  then have "x * 10 + (char_code c - 48) \<le> digits_value x (c # s)" by (simp add: is_digit_def)
  then show ?case using Cons.prems by (simp add: is_digit_def)
qed simp

lemma leadingInt_digits:
  "list_all is_digit s \<Longrightarrow> 0 \<le> x \<Longrightarrow> digits_value x s \<le> 2 ^ 63 \<Longrightarrow>
   leadingInt (s @ r) x = leadingInt r (digits_value x s)"
proof (induction s arbitrary: x)
  case (Cons c s)
  let ?y = "x * 10 + (char_code c - 48)"
  have d: "is_digit c" "0 \<le> char_code c - 48" using Cons.prems(1) by (simp_all add: is_digit_def)
  have "?y \<le> digits_value ?y s"
    using Cons.prems d by (intro digits_value_mono) simp_all
  then have "?y \<le> 2 ^ 63" using Cons.prems(3) by simp
  moreover from this have "\<not> x > 2 ^ 63 div 10" using d(2) by simp
  ultimately show ?case using Cons d by (simp add: Let_def)
qed simp

lemma char_code_ns: "\<not> is_digit (CHR ''n'')" "\<not> is_digit (CHR ''s'')"
  by (simp_all add: is_digit_def char_code_def)

lemma duration_part_ns:
  assumes "n \<le> 2 ^ 63"
  shows "duration_part (show_base 10 n @ ''ns'') = Some (int n, [])"
proof -
  have n: "int n \<le> 2 ^ 63" using assms by (metis of_nat_le_iff of_nat_numeral of_nat_power)
  have "leadingInt (show_base 10 n @ ''ns'') 0 = Some (int n, ''ns'')"
    using leadingInt_digits [of "show_base 10 n" 0 "''ns''"] show_base_10 [of n] n
    by (simp add: char_code_ns)
  moreover have "is_digit (hd (show_base 10 n))"
    using show_base_10 [of n] show_base_ne [of 10 n] by (cases "show_base 10 n") simp_all
  ultimately show ?thesis
    using n show_base_ne [of 10 n]
    by (simp add: duration_part_def Let_def char_code_ns unitMap_def hd_append)
qed

lemma hd_show_base: "hd (show_base 10 n @ r) \<noteq> CHR ''-'' \<and> hd (show_base 10 n @ r) \<noteq> CHR ''+''"
  using show_base_10 [of n] show_base_ne [of 10 n]
  by (cases "show_base 10 n") (auto simp: is_digit_def char_code_def)

lemma ParseDuration_show [simp]:
  assumes "is_int64 d"
  shows "ParseDuration (show_duration d) = Some d"
proof -
  have parts: "duration_parts (length s) s 0 = Some (int n)"
    if "s = show_base 10 n @ ''ns''" and "n \<le> 2 ^ 63" for s n
  proof -
    have "s \<noteq> []" using that(1) by simp
    then obtain c cs where c: "s = c # cs" by (cases s) auto
    have "int n \<le> 2 ^ 63" using that(2) by (metis of_nat_le_iff of_nat_numeral of_nat_power)
    then show ?thesis
      using duration_part_ns [OF that(2)] unfolding that(1) [symmetric] c by (simp add: Let_def)
  qed
  have ne: "show_base 10 n @ ''ns'' \<noteq> ''0''" for n
  proof
    assume "show_base 10 n @ ''ns'' = ''0''"
    then have "last (show_base 10 n @ ''ns'') = CHR ''0''" by simp
    then show False by simp
  qed
  show ?thesis
  proof (cases "d < 0")
    case True
    then have "nat (- d) \<le> 2 ^ 63" using assms by (simp add: is_int64_def)
    from parts [OF refl this] show ?thesis
      using True ne [of "nat (- d)"] assms
      by (simp add: ParseDuration_def show_duration_def Itoa_def int64_id show_base_ne)
  next
    case False
    then have "nat d \<le> 2 ^ 63" using assms by (simp add: is_int64_def)
    from parts [OF refl this] show ?thesis
      using False ne [of "nat d"] assms hd_show_base [of "nat d" "''ns''"]
      by (simp add: ParseDuration_def show_duration_def Itoa_def is_int64_def show_base_ne)
  qed
qed

lemma show_duration_ne [simp]: "show_duration d \<noteq> []"
  by (simp add: show_duration_def)

end
