(* ===== verification/Config.thy ===== *)
theory Config
  imports Complex_Main Go_Parse
begin

text \<open>
  Package \<open>internal/config\<close>: the configuration, its defaults, and the merge of defaults, file
  and command line. The file system and the YAML library are parameters (\<open>readFile\<close>,
  \<open>unmarshal\<close>); \<open>ParseFloat\<close> of the standard library is the parameter \<open>parseFloat\<close>, and a
  \<open>float64\<close> a rational number, as the configuration only copies it. The flag package is modelled:
  its syntax, its errors and which flags \<open>Visit\<close> visits. Errors are values, one constructor per
  message; the text of a message is left out.
\<close>

section \<open>The resolved configuration\<close>

record server_config =
  ServerPort :: int

record backend_config =
  BackendURL :: string
  BackendWeight :: int

record pool_config =
  Algorithm :: string
  PoolBackends :: "backend_config list"

record health_config =
  HealthPath :: string
  HealthInterval :: duration
  HealthTimeout :: duration
  UnhealthyThreshold :: int
  HealthyThreshold :: int

record admin_config =
  AdminPort :: int

record rate_limit_config =
  RLEnabled :: bool
  RequestsPerSecond :: rat
  Burst :: int
  PerIP :: bool

record metrics_config =
  MetricsEnabled :: bool
  MetricsPort :: int

record circuit_breaker_config =
  CBEnabled :: bool
  CBFailureThreshold :: int
  CBSuccessThreshold :: int
  CBTimeout :: duration

record tls_config =
  TLSEnabled :: bool
  CertFile :: string
  KeyFile :: string
  MinVersion :: string

record sticky_config =
  StickyEnabled :: bool
  StickyCookieName :: string
  TTL :: duration

record config =
  Server :: server_config
  Pool :: pool_config
  HealthCheck :: health_config
  Admin :: admin_config
  RateLimit :: rate_limit_config
  Metrics :: metrics_config
  CircuitBreaker :: circuit_breaker_config
  TLS :: tls_config
  StickySession :: sticky_config

definition seconds :: "int \<Rightarrow> duration" where
  "seconds n = n * 1000000000"

definition Defaults :: config where
  "Defaults = \<lparr>
     Server = \<lparr>ServerPort = 3030\<rparr>,
     Pool = \<lparr>Algorithm = ''round_robin'', PoolBackends = []\<rparr>,
     HealthCheck = \<lparr>HealthPath = ''/health'', HealthInterval = seconds 10, HealthTimeout = seconds 2,
       UnhealthyThreshold = 3, HealthyThreshold = 2\<rparr>,
     Admin = \<lparr>AdminPort = 9090\<rparr>,
     RateLimit = \<lparr>RLEnabled = False, RequestsPerSecond = 1000, Burst = 200, PerIP = True\<rparr>,
     Metrics = \<lparr>MetricsEnabled = True, MetricsPort = 0\<rparr>,
     CircuitBreaker = \<lparr>CBEnabled = False, CBFailureThreshold = 5, CBSuccessThreshold = 2,
       CBTimeout = seconds 30\<rparr>,
     TLS = \<lparr>TLSEnabled = False, CertFile = [], KeyFile = [], MinVersion = ''1.2''\<rparr>,
     StickySession = \<lparr>StickyEnabled = False, StickyCookieName = ''golb_backend'', TTL = seconds 3600\<rparr>\<rparr>"

section \<open>The file\<close>

text \<open>A pointer field is an option, \<open>None\<close> for nil; other absent fields have their zero value.\<close>

record fileConfig =
  fServerPort :: int
  fAlgorithm :: string
  fBackends :: "(string \<times> int) list"
  fHealthPath :: string
  fHealthInterval :: string
  fHealthTimeout :: string
  fUnhealthyThreshold :: int
  fHealthyThreshold :: int
  fAdminPort :: "int option"
  fRLEnabled :: "bool option"
  fRequestsPerSecond :: "rat option"
  fBurst :: "int option"
  fPerIP :: "bool option"
  fMetricsEnabled :: "bool option"
  fMetricsPort :: "int option"
  fCBEnabled :: "bool option"
  fCBFailureThreshold :: "int option"
  fCBSuccessThreshold :: "int option"
  fCBTimeout :: string
  fTLSEnabled :: "bool option"
  fCertFile :: string
  fKeyFile :: string
  fMinVersion :: string
  fStickyEnabled :: "bool option"
  fCookieName :: string
  fTTL :: string

datatype config_error =
    ReadingFile string
  | ParsingFile string
  | InvalidDuration string string \<comment> \<open>field, value\<close>
  | InvalidMinVersion string
  | ParsingFlags string
  | InvalidThreshold string int
  | InvalidBreakerTimeout duration

text \<open>Set the field if the file has a value for it.\<close>

definition or_else :: "'a option \<Rightarrow> 'a \<Rightarrow> 'a" where
  "or_else x d = (case x of None \<Rightarrow> d | Some v \<Rightarrow> v)"

definition if_text :: "string \<Rightarrow> string \<Rightarrow> string" where
  "if_text s d = (if s \<noteq> [] then s else d)"

definition if_nonzero :: "int \<Rightarrow> int \<Rightarrow> int" where
  "if_nonzero n d = (if n \<noteq> 0 then n else d)"

definition if_duration :: "string \<Rightarrow> string \<Rightarrow> duration \<Rightarrow> config_error + duration" where
  "if_duration field s d =
     (if s \<noteq> [] then (case ParseDuration s of None \<Rightarrow> Inl (InvalidDuration field s) | Some v \<Rightarrow> Inr v)
      else Inr d)"

definition if_min_version :: "string \<Rightarrow> string \<Rightarrow> config_error + string" where
  "if_min_version s d =
     (if s \<noteq> [] then
        let v = TrimSpace s in
        if v \<noteq> ''1.2'' \<and> v \<noteq> ''1.3'' then Inl (InvalidMinVersion s) else Inr v
      else Inr d)"

definition file_backends :: "(string \<times> int) list \<Rightarrow> backend_config list" where
  "file_backends bs =
     map (\<lambda>(u, w). \<lparr>BackendURL = u, BackendWeight = (if w \<le> 0 then 1 else w)\<rparr>) bs"

text \<open>
  The fields are set in the order of the code; a failing one stops the merge. On an error the
  caller drops the half-merged configuration, so the error is all that is returned.
\<close>

definition applyFileConfig :: "config \<Rightarrow> fileConfig \<Rightarrow> config_error + config" where
  "applyFileConfig cfg fc =
     (let server = (Server cfg)\<lparr>ServerPort := if_nonzero (fServerPort fc) (ServerPort (Server cfg))\<rparr>;
          pool = (Pool cfg)\<lparr>
            Algorithm := if_text (fAlgorithm fc) (Algorithm (Pool cfg)),
            PoolBackends := (if length (fBackends fc) > 0 then file_backends (fBackends fc)
                             else PoolBackends (Pool cfg))\<rparr>;
          hc = HealthCheck cfg; cb = CircuitBreaker cfg; tls = TLS cfg; st = StickySession cfg
      in sum_bind (if_duration ''health_check.interval'' (fHealthInterval fc) (HealthInterval hc)) (\<lambda>interval.
         sum_bind (if_duration ''health_check.timeout'' (fHealthTimeout fc) (HealthTimeout hc)) (\<lambda>tmo.
         let health = \<lparr>HealthPath = if_text (fHealthPath fc) (HealthPath hc),
               HealthInterval = interval, HealthTimeout = tmo,
               UnhealthyThreshold = if_nonzero (fUnhealthyThreshold fc) (UnhealthyThreshold hc),
               HealthyThreshold = if_nonzero (fHealthyThreshold fc) (HealthyThreshold hc)\<rparr>;
             admin = \<lparr>AdminPort = or_else (fAdminPort fc) (AdminPort (Admin cfg))\<rparr>;
             rl = \<lparr>RLEnabled = or_else (fRLEnabled fc) (RLEnabled (RateLimit cfg)),
               RequestsPerSecond = or_else (fRequestsPerSecond fc) (RequestsPerSecond (RateLimit cfg)),
               Burst = or_else (fBurst fc) (Burst (RateLimit cfg)),
               PerIP = or_else (fPerIP fc) (PerIP (RateLimit cfg))\<rparr>;
             mtr = \<lparr>MetricsEnabled = or_else (fMetricsEnabled fc) (MetricsEnabled (Metrics cfg)),
               MetricsPort = or_else (fMetricsPort fc) (MetricsPort (Metrics cfg))\<rparr>
         in sum_bind (if_duration ''circuit_breaker.timeout'' (fCBTimeout fc) (CBTimeout cb)) (\<lambda>cbTimeout.
         let breaker = \<lparr>CBEnabled = or_else (fCBEnabled fc) (CBEnabled cb),
               CBFailureThreshold = or_else (fCBFailureThreshold fc) (CBFailureThreshold cb),
               CBSuccessThreshold = or_else (fCBSuccessThreshold fc) (CBSuccessThreshold cb),
               CBTimeout = cbTimeout\<rparr>
         in sum_bind (if_min_version (fMinVersion fc) (MinVersion tls)) (\<lambda>version.
         let tls = \<lparr>TLSEnabled = or_else (fTLSEnabled fc) (TLSEnabled tls),
               CertFile = if_text (fCertFile fc) (CertFile tls),
               KeyFile = if_text (fKeyFile fc) (KeyFile tls), MinVersion = version\<rparr>
         in sum_bind (if_duration ''sticky_sessions.ttl'' (fTTL fc) (TTL st)) (\<lambda>ttl.
         let sticky = \<lparr>StickyEnabled = or_else (fStickyEnabled fc) (StickyEnabled st),
               StickyCookieName = if_text (fCookieName fc) (StickyCookieName st), TTL = ttl\<rparr>
         in Inr \<lparr>Server = server, Pool = pool, HealthCheck = health, Admin = admin, RateLimit = rl,
              Metrics = mtr, CircuitBreaker = breaker, TLS = tls, StickySession = sticky\<rparr>))))))"

section \<open>The command line\<close>

text \<open>A flag with its parsed value, one constructor per flag of the flag set.\<close>

datatype flag =
    Port int | BackendsFlag string | AlgorithmFlag string | HealthPathFlag string | HealthIntervalFlag duration
  | HealthTimeoutFlag duration | AdminPortFlag int | RlEnabled bool | RlRPS rat | RlBurst int
  | RlPerIP bool | MetricsEnabledFlag bool | MetricsPortFlag int | CbEnabled bool
  | CbFailureThreshold int | CbSuccessThreshold int | CbTimeout duration | TlsEnabled bool
  | TlsCert string | TlsKey string | TlsMinVersion string | StickyEnabledFlag bool
  | StickyCookieNameFlag string | StickyTTL duration

datatype flag_var =
    IntVar "int \<Rightarrow> flag" | StringVar "string \<Rightarrow> flag" | DurationVar "duration \<Rightarrow> flag"
  | BoolVar "bool \<Rightarrow> flag" | Float64Var "rat \<Rightarrow> flag"

definition flag_set :: "(string \<times> flag_var) list" where
  "flag_set =
     [(''port'', IntVar Port), (''backends'', StringVar BackendsFlag), (''algorithm'', StringVar AlgorithmFlag),
      (''health-path'', StringVar HealthPathFlag), (''health-interval'', DurationVar HealthIntervalFlag),
      (''health-timeout'', DurationVar HealthTimeoutFlag), (''admin-port'', IntVar AdminPortFlag),
      (''rl-enabled'', BoolVar RlEnabled), (''rl-rps'', Float64Var RlRPS), (''rl-burst'', IntVar RlBurst),
      (''rl-per-ip'', BoolVar RlPerIP), (''metrics-enabled'', BoolVar MetricsEnabledFlag),
      (''metrics-port'', IntVar MetricsPortFlag), (''cb-enabled'', BoolVar CbEnabled),
      (''cb-failure-threshold'', IntVar CbFailureThreshold),
      (''cb-success-threshold'', IntVar CbSuccessThreshold), (''cb-timeout'', DurationVar CbTimeout),
      (''tls-enabled'', BoolVar TlsEnabled), (''tls-cert'', StringVar TlsCert), (''tls-key'', StringVar TlsKey),
      (''tls-min-version'', StringVar TlsMinVersion), (''sticky-enabled'', BoolVar StickyEnabledFlag),
      (''sticky-cookie-name'', StringVar StickyCookieNameFlag), (''sticky-ttl'', DurationVar StickyTTL)]"

type_synonym float_parser = "string \<Rightarrow> rat option"

text \<open>\<open>Value.Set\<close>.\<close>

fun flag_value :: "float_parser \<Rightarrow> flag_var \<Rightarrow> string \<Rightarrow> flag option" where
  "flag_value parseFloat (IntVar f) s = map_option f (ParseInt0 s)"
| "flag_value parseFloat (StringVar f) s = Some (f s)"
| "flag_value parseFloat (DurationVar f) s = map_option f (ParseDuration s)"
| "flag_value parseFloat (BoolVar f) s = map_option f (ParseBool s)"
| "flag_value parseFloat (Float64Var f) s = map_option f (parseFloat s)"

text \<open>One argument: a flag's name and its value after \<open>=\<close>, the end of the flags, or bad syntax.\<close>

datatype flag_arg = FlagArg string "string option" | EndOfFlags | BadSyntax

definition flag_syntax :: "string \<Rightarrow> flag_arg" where
  "flag_syntax s =
     (if length s < 2 \<or> hd s \<noteq> CHR ''-'' then EndOfFlags
      else if s = ''--'' then EndOfFlags
      else
        let name = (if s ! 1 = CHR ''-'' then drop 2 s else drop 1 s) in
        if name = [] \<or> hd name = CHR ''-'' \<or> hd name = CHR ''='' then BadSyntax
        else if CHR ''='' \<in> set name
        then FlagArg (takeWhile (\<lambda>c. c \<noteq> CHR ''='') name) (Some (tl (dropWhile (\<lambda>c. c \<noteq> CHR ''='') name)))
        else FlagArg name None)"

text \<open>
  \<open>FlagSet.Parse\<close>: the flags set, latest first, each with its name. A boolean flag takes a value only
  after \<open>=\<close>, another one also from the next argument. Arguments after the flags are ignored.
\<close>

fun Parse :: "float_parser \<Rightarrow> string list \<Rightarrow> (string \<times> flag) list \<Rightarrow> config_error + (string \<times> flag) list" where
  "Parse parseFloat [] actual = Inr actual"
| "Parse parseFloat (a # args) actual =
     (case flag_syntax a of
        EndOfFlags \<Rightarrow> Inr actual
      | BadSyntax \<Rightarrow> Inl (ParsingFlags a)
      | FlagArg name val \<Rightarrow>
          (case map_of flag_set name of
             None \<Rightarrow> Inl (ParsingFlags name)
           | Some var \<Rightarrow>
               (case val of
                  Some s \<Rightarrow>
                    (case flag_value parseFloat var s of
                       None \<Rightarrow> Inl (ParsingFlags name)
                     | Some f \<Rightarrow> Parse parseFloat args ((name, f) # actual))
                | None \<Rightarrow>
                    (case var of
                       BoolVar f \<Rightarrow> Parse parseFloat args ((name, f True) # actual)
                     | _ \<Rightarrow>
                         (case args of
                            [] \<Rightarrow> Inl (ParsingFlags name)
                          | s # args' \<Rightarrow>
                              (case flag_value parseFloat var s of
                                 None \<Rightarrow> Inl (ParsingFlags name)
                               | Some f \<Rightarrow> Parse parseFloat args' ((name, f) # actual)))))))"

text \<open>The backends flag: the nonempty trimmed pieces between commas.\<close>

definition cli_backends :: "string \<Rightarrow> backend_config list" where
  "cli_backends raw =
     map (\<lambda>u. \<lparr>BackendURL = u, BackendWeight = 1\<rparr>)
       (filter (\<lambda>u. u \<noteq> []) (map TrimSpace (split_on (CHR '','') raw)))"

fun apply_flag :: "flag \<Rightarrow> config \<Rightarrow> config" where
  "apply_flag (Port v) c = c\<lparr>Server := (Server c)\<lparr>ServerPort := v\<rparr>\<rparr>"
| "apply_flag (BackendsFlag v) c = c\<lparr>Pool := (Pool c)\<lparr>PoolBackends := cli_backends v\<rparr>\<rparr>"
| "apply_flag (AlgorithmFlag v) c = c\<lparr>Pool := (Pool c)\<lparr>Algorithm := v\<rparr>\<rparr>"
| "apply_flag (HealthPathFlag v) c = c\<lparr>HealthCheck := (HealthCheck c)\<lparr>HealthPath := v\<rparr>\<rparr>"
| "apply_flag (HealthIntervalFlag v) c = c\<lparr>HealthCheck := (HealthCheck c)\<lparr>HealthInterval := v\<rparr>\<rparr>"
| "apply_flag (HealthTimeoutFlag v) c = c\<lparr>HealthCheck := (HealthCheck c)\<lparr>HealthTimeout := v\<rparr>\<rparr>"
| "apply_flag (AdminPortFlag v) c = c\<lparr>Admin := (Admin c)\<lparr>AdminPort := v\<rparr>\<rparr>"
| "apply_flag (RlEnabled v) c = c\<lparr>RateLimit := (RateLimit c)\<lparr>RLEnabled := v\<rparr>\<rparr>"
| "apply_flag (RlRPS v) c = c\<lparr>RateLimit := (RateLimit c)\<lparr>RequestsPerSecond := v\<rparr>\<rparr>"
| "apply_flag (RlBurst v) c = c\<lparr>RateLimit := (RateLimit c)\<lparr>Burst := v\<rparr>\<rparr>"
| "apply_flag (RlPerIP v) c = c\<lparr>RateLimit := (RateLimit c)\<lparr>PerIP := v\<rparr>\<rparr>"
| "apply_flag (MetricsEnabledFlag v) c = c\<lparr>Metrics := (Metrics c)\<lparr>MetricsEnabled := v\<rparr>\<rparr>"
| "apply_flag (MetricsPortFlag v) c = c\<lparr>Metrics := (Metrics c)\<lparr>MetricsPort := v\<rparr>\<rparr>"
| "apply_flag (CbEnabled v) c = c\<lparr>CircuitBreaker := (CircuitBreaker c)\<lparr>CBEnabled := v\<rparr>\<rparr>"
| "apply_flag (CbFailureThreshold v) c = c\<lparr>CircuitBreaker := (CircuitBreaker c)\<lparr>CBFailureThreshold := v\<rparr>\<rparr>"
| "apply_flag (CbSuccessThreshold v) c = c\<lparr>CircuitBreaker := (CircuitBreaker c)\<lparr>CBSuccessThreshold := v\<rparr>\<rparr>"
| "apply_flag (CbTimeout v) c = c\<lparr>CircuitBreaker := (CircuitBreaker c)\<lparr>CBTimeout := v\<rparr>\<rparr>"
| "apply_flag (TlsEnabled v) c = c\<lparr>TLS := (TLS c)\<lparr>TLSEnabled := v\<rparr>\<rparr>"
| "apply_flag (TlsCert v) c = c\<lparr>TLS := (TLS c)\<lparr>CertFile := v\<rparr>\<rparr>"
| "apply_flag (TlsKey v) c = c\<lparr>TLS := (TLS c)\<lparr>KeyFile := v\<rparr>\<rparr>"
| "apply_flag (TlsMinVersion v) c = c\<lparr>TLS := (TLS c)\<lparr>MinVersion := TrimSpace v\<rparr>\<rparr>"
| "apply_flag (StickyEnabledFlag v) c = c\<lparr>StickySession := (StickySession c)\<lparr>StickyEnabled := v\<rparr>\<rparr>"
| "apply_flag (StickyCookieNameFlag v) c = c\<lparr>StickySession := (StickySession c)\<lparr>StickyCookieName := v\<rparr>\<rparr>"
| "apply_flag (StickyTTL v) c = c\<lparr>StickySession := (StickySession c)\<lparr>TTL := v\<rparr>\<rparr>"

text \<open>
  \<open>Visit\<close> visits each flag that was set once, with its last value. It does so by name in
  lexical order, here in the order of the flag set: the flags set different fields.
\<close>

definition visited :: "(string \<times> flag) list \<Rightarrow> flag list" where
  "visited actual =
     concat (map (\<lambda>(name, _). case map_of actual name of None \<Rightarrow> [] | Some f \<Rightarrow> [f]) flag_set)"

definition applyCLI :: "float_parser \<Rightarrow> config \<Rightarrow> string list \<Rightarrow> config_error + config" where
  "applyCLI parseFloat cfg args =
     sum_bind (Parse parseFloat args []) (\<lambda>actual.
       let cfg = fold apply_flag (visited actual) cfg;
           v = MinVersion (TLS cfg)
       in if v \<noteq> [] \<and> v \<noteq> ''1.2'' \<and> v \<noteq> ''1.3'' then Inl (InvalidMinVersion v) else Inr cfg)"

section \<open>Loading\<close>

record files =
  readFile :: "string \<Rightarrow> string + string"
  unmarshal :: "string \<Rightarrow> string + fileConfig"

definition load_file_part :: "files \<Rightarrow> string \<Rightarrow> config_error + config" where
  "load_file_part fs path =
     (if path \<noteq> [] then
        (case readFile fs path of
           Inl err \<Rightarrow> Inl (ReadingFile err)
         | Inr data \<Rightarrow>
             (case unmarshal fs data of
                Inl err \<Rightarrow> Inl (ParsingFile err)
              | Inr fc \<Rightarrow> applyFileConfig Defaults fc))
      else Inr Defaults)"

definition check_breaker :: "config \<Rightarrow> config_error + config" where
  "check_breaker cfg =
     (let cb = CircuitBreaker cfg in
      if CBEnabled cb then
        if CBFailureThreshold cb \<le> 0
        then Inl (InvalidThreshold ''circuit_breaker.failure_threshold'' (CBFailureThreshold cb))
        else if CBSuccessThreshold cb \<le> 0
        then Inl (InvalidThreshold ''circuit_breaker.success_threshold'' (CBSuccessThreshold cb))
        else if CBTimeout cb \<le> 0 then Inl (InvalidBreakerTimeout (CBTimeout cb))
        else Inr cfg
      else Inr cfg)"

definition Load :: "files \<Rightarrow> float_parser \<Rightarrow> string \<Rightarrow> string list \<Rightarrow> config_error + config" where
  "Load fs parseFloat path args =
     sum_bind (load_file_part fs path) (\<lambda>cfg.
       sum_bind (applyCLI parseFloat cfg args) check_breaker)"

definition LoadFile :: "files \<Rightarrow> float_parser \<Rightarrow> string \<Rightarrow> config_error + config" where
  "LoadFile fs parseFloat path = Load fs parseFloat path []"

end
