(* ===== verification/Health.thy ===== *)
theory Health
  imports Pools
begin

text \<open>
  Package \<open>internal/health\<close>: the active health checker. A probe's result is the parameter
  \<open>probe\<close>: given the client's timeout and the target URL text it returns an error (the request
  could not be built or sent) or the response's status code. The probes of one round run in
  goroutines, each of which ends in one of two methods that hold the checker's lock throughout; a
  round is therefore the sequence of these calls in some order of the pool's backends.
  Log lines are left out.
\<close>

section \<open>Health checker\<close>

record health_checker =
  hcPath :: string
  hcInterval :: duration
  hcTimeout :: duration
  unhealthyThreshold :: int
  healthyThreshold :: int
  client :: duration \<comment> \<open>the HTTP client's timeout\<close>
  consecutive :: "string \<rightharpoonup> int"

datatype hc_option = WithUnhealthyThreshold int | WithHealthyThreshold int

fun apply_hc_option :: "hc_option \<Rightarrow> health_checker \<Rightarrow> health_checker" where
  "apply_hc_option (WithUnhealthyThreshold n) hc = hc\<lparr>unhealthyThreshold := n\<rparr>"
| "apply_hc_option (WithHealthyThreshold n) hc = hc\<lparr>healthyThreshold := n\<rparr>"

definition Second :: duration where "Second = 1000000000"

definition NewHealthChecker :: "string \<Rightarrow> duration \<Rightarrow> duration \<Rightarrow> hc_option list \<Rightarrow> health_checker" where
  "NewHealthChecker p interval tmo opts =
     (let interval = (if interval \<le> 0 then 10 * Second else interval);
          tmo = (if tmo \<le> 0 then 2 * Second else tmo);
          hc = fold apply_hc_option opts
            \<lparr>hcPath = p, hcInterval = interval, hcTimeout = tmo, unhealthyThreshold = 3,
             healthyThreshold = 2, client = tmo, consecutive = Map.empty\<rparr>;
          hc = (if unhealthyThreshold hc < 1 then hc\<lparr>unhealthyThreshold := 1\<rparr> else hc);
          hc = (if healthyThreshold hc < 1 then hc\<lparr>healthyThreshold := 1\<rparr> else hc)
      in hc)"

definition UpdateConfig ::
  "string \<Rightarrow> duration \<Rightarrow> duration \<Rightarrow> int \<Rightarrow> int \<Rightarrow> health_checker \<Rightarrow> health_checker" where
  "UpdateConfig p interval tmo unhealthy healthy hc =
     (let hc = hc\<lparr>hcPath := p\<rparr>;
          hc = (if interval > 0 then hc\<lparr>hcInterval := interval\<rparr> else hc);
          hc = (if tmo > 0 then hc\<lparr>hcTimeout := tmo, client := tmo\<rparr> else hc);
          unhealthy = (if unhealthy < 1 then 1 else unhealthy);
          healthy = (if healthy < 1 then 1 else healthy)
      in hc\<lparr>unhealthyThreshold := unhealthy, healthyThreshold := healthy\<rparr>)"

section \<open>Recording a probe\<close>

definition recordSuccess ::
  "ref \<Rightarrow> health_checker \<times> 'a pool_state_scheme \<Rightarrow> health_checker \<times> 'a pool_state_scheme" where
  "recordSuccess b st =
     (case st of (hc, s) \<Rightarrow>
        let key = ref_url s b;
            m = consecutive hc;
            m = (if lookup0 m key < 0 then m(key \<mapsto> 0) else m);
            m = m(key \<mapsto> int64 (lookup0 m key + 1))
        in if lookup0 m key \<ge> healthyThreshold hc
           then
             let s = (if \<not> IsAlive (heap s b) then s\<lparr>heap := modify b (SetAlive True) (heap s)\<rparr> else s);
                 s = s\<lparr>mets := SetBackendUp key True (mets s)\<rparr>
             in (hc\<lparr>consecutive := m(key \<mapsto> 0)\<rparr>, s)
           else (hc\<lparr>consecutive := m\<rparr>, s))"

definition recordFailure ::
  "ref \<Rightarrow> health_checker \<times> 'a pool_state_scheme \<Rightarrow> health_checker \<times> 'a pool_state_scheme" where
  "recordFailure b st =
     (case st of (hc, s) \<Rightarrow>
        let key = ref_url s b;
            m = consecutive hc;
            m = (if lookup0 m key > 0 then m(key \<mapsto> 0) else m);
            m = m(key \<mapsto> int64 (lookup0 m key - 1))
        in if int64 (- lookup0 m key) \<ge> unhealthyThreshold hc
           then
             let s = (if IsAlive (heap s b) then s\<lparr>heap := modify b (SetAlive False) (heap s)\<rparr> else s);
                 s = s\<lparr>mets := SetBackendUp key False (mets s)\<rparr>
             in (hc\<lparr>consecutive := m(key \<mapsto> 0)\<rparr>, s)
           else (hc\<lparr>consecutive := m\<rparr>, s))"

type_synonym prober = "duration \<Rightarrow> string \<Rightarrow> string + int"

definition CheckBackend ::
  "prober \<Rightarrow> ref \<Rightarrow> health_checker \<times> 'a pool_state_scheme \<Rightarrow> health_checker \<times> 'a pool_state_scheme" where
  "CheckBackend probe b st =
     (case st of (hc, s) \<Rightarrow>
        (case probe (client hc) (ref_url s b @ hcPath hc) of
           Inl err \<Rightarrow> recordFailure b (hc, s)
         | Inr code \<Rightarrow>
             if code < 200 \<or> code \<ge> 300 then recordFailure b (hc, s)
             else recordSuccess b (hc, s)))"

section \<open>One tick of the loop\<close>

definition prune_stale :: "'a pool_state_scheme \<Rightarrow> health_checker \<Rightarrow> health_checker" where
  "prune_stale s hc =
     hc\<lparr>consecutive := consecutive hc |` set (map (\<lambda>b. ref_url s b) (Backends s))\<rparr>"

text \<open>
  \<open>order\<close> is the order in which the goroutines of the round report. The third component is the
  interval the ticker runs at, reset when \<open>UpdateConfig\<close> has changed it.
\<close>

definition Start_tick ::
  "prober \<Rightarrow> ref list \<Rightarrow> duration \<times> health_checker \<times> 'a pool_state_scheme
     \<Rightarrow> duration \<times> health_checker \<times> 'a pool_state_scheme" where
  "Start_tick probe order st =
     (case st of (currentInterval, hc, s) \<Rightarrow>
        (case fold (CheckBackend probe) order (hc, s) of
           (hc, s) \<Rightarrow>
             (if hcInterval hc \<noteq> currentInterval then hcInterval hc else currentInterval,
              prune_stale s hc, s)))"

text \<open>
  The loop of \<open>Start\<close>: at each turn \<open>select\<close> takes a tick or the end of the context, which ends
  the loop. Between two turns the rest of the program may change the checker's settings and the pool
  (\<open>change\<close>).
\<close>

datatype 'a select = TickerC prober "ref list" | CtxDone
  | Change "health_checker \<times> 'a pool_state_scheme \<Rightarrow> health_checker \<times> 'a pool_state_scheme"

fun Start_loop :: "'a select list \<Rightarrow> duration \<times> health_checker \<times> 'a pool_state_scheme
     \<Rightarrow> bool \<times> duration \<times> health_checker \<times> 'a pool_state_scheme" where
  "Start_loop [] st = (False, st)"
| "Start_loop (TickerC probe order # es) st = Start_loop es (Start_tick probe order st)"
| "Start_loop (Change f # es) st = (case st of (i, hcs) \<Rightarrow> Start_loop es (i, f hcs))"
| "Start_loop (CtxDone # es) st = (True, st)"

definition Start :: "'a select list \<Rightarrow> health_checker \<times> 'a pool_state_scheme
     \<Rightarrow> bool \<times> duration \<times> health_checker \<times> 'a pool_state_scheme" where
  "Start es st = Start_loop es (hcInterval (fst st), st)"

fun is_done :: "'a select \<Rightarrow> bool" where
  "is_done CtxDone \<longleftrightarrow> True"
| "is_done e \<longleftrightarrow> False"

lemma Start_returns: "fst (Start_loop es st) \<longleftrightarrow> list_ex is_done es"
  by (induction es st rule: Start_loop.induct) (simp_all split: prod.split)

text \<open>Once the context is cancelled no probe is made.\<close>

lemma Start_cancelled: "list_ex is_done es \<Longrightarrow> Start_loop (es @ es') st = Start_loop es st"
  by (induction es st rule: Start_loop.induct) (simp_all split: prod.split)

section \<open>What one probe decides\<close>

definition hc_wf :: "health_checker \<Rightarrow> bool" where
  "hc_wf hc \<longleftrightarrow> 1 \<le> unhealthyThreshold hc \<and> is_int64 (unhealthyThreshold hc) \<and>
     1 \<le> healthyThreshold hc \<and> is_int64 (healthyThreshold hc) \<and>
     (\<forall>k. \<bar>lookup0 (consecutive hc) k\<bar> \<le> 2 ^ 63 - 2)"

text \<open>The effect of one probe on a backend's counter and liveness.\<close>

definition judge :: "health_checker \<Rightarrow> bool \<Rightarrow> int \<times> bool \<Rightarrow> int \<times> bool" where
  "judge hc ok ca =
     (case ca of (c, a) \<Rightarrow>
        if ok then (let c = max c 0 + 1 in if c \<ge> healthyThreshold hc then (0, True) else (c, a))
        else (let c = max (- c) 0 + 1 in if c \<ge> unhealthyThreshold hc then (0, False) else (- c, a)))"

definition standing :: "health_checker \<times> 'a pool_state_scheme \<Rightarrow> ref \<Rightarrow> int \<times> bool" where
  "standing st b = (lookup0 (consecutive (fst st)) (ref_url (snd st) b), alive (heap (snd st) b))"

definition record_probe ::
  "bool \<Rightarrow> ref \<Rightarrow> health_checker \<times> 'a pool_state_scheme \<Rightarrow> health_checker \<times> 'a pool_state_scheme" where
  "record_probe ok b st = (if ok then recordSuccess b st else recordFailure b st)"

fun option_int :: "hc_option \<Rightarrow> bool" where
  "option_int (WithUnhealthyThreshold n) = is_int64 n"
| "option_int (WithHealthyThreshold n) = is_int64 n"

lemma apply_hc_options_int:
  "list_all option_int opts \<Longrightarrow> is_int64 (unhealthyThreshold hc) \<Longrightarrow> is_int64 (healthyThreshold hc) \<Longrightarrow>
   is_int64 (unhealthyThreshold (fold apply_hc_option opts hc)) \<and>
   is_int64 (healthyThreshold (fold apply_hc_option opts hc)) \<and>
   consecutive (fold apply_hc_option opts hc) = consecutive hc"
proof (induction opts arbitrary: hc)
  case (Cons x opts)
  then show ?case by (cases x) simp_all
qed simp

lemma NewHealthChecker_wf [wf_intros]: "list_all option_int opts \<Longrightarrow> hc_wf (NewHealthChecker p i t opts)"
  using apply_hc_options_int [of opts]
  by (simp add: NewHealthChecker_def Let_def hc_wf_def) (simp add: is_int64_def)

lemma UpdateConfig_wf [wf_intros]:
  "hc_wf hc \<Longrightarrow> is_int64 u \<Longrightarrow> is_int64 h \<Longrightarrow> hc_wf (UpdateConfig p i t u h hc)"
  by (auto simp: UpdateConfig_def Let_def hc_wf_def is_int64_def)

lemma record_probe_fields [frame_simps]:
  "backends (snd (record_probe ok b st)) = backends (snd st)"
  "fresh (snd (record_probe ok b st)) = fresh (snd st)"
  "URL (heap (snd (record_probe ok b st)) x) = URL (heap (snd st) x)"
  "Weight (heap (snd (record_probe ok b st)) x) = Weight (heap (snd st) x)"
  "activeConns (heap (snd (record_probe ok b st)) x) = activeConns (heap (snd st) x)"
  "ReverseProxy (heap (snd (record_probe ok b st)) x) = ReverseProxy (heap (snd st) x)"
  "healthyThreshold (fst (record_probe ok b st)) = healthyThreshold (fst st)"
  "unhealthyThreshold (fst (record_probe ok b st)) = unhealthyThreshold (fst st)"
  "hcPath (fst (record_probe ok b st)) = hcPath (fst st)"
  "client (fst (record_probe ok b st)) = client (fst st)"
  "hcInterval (fst (record_probe ok b st)) = hcInterval (fst st)"
  "enabled (mets (snd (record_probe ok b st))) = enabled (mets (snd st))"
  by (auto simp: record_probe_def recordSuccess_def recordFailure_def Let_def case_prod_unfold
      modify_def heap_simps frame_simps)


lemma record_probe_standing:
  assumes "hc_wf (fst st)"
  shows "standing (record_probe ok b st) b = judge (fst st) ok (standing st b)"
    and "ref_url (snd st) x \<noteq> ref_url (snd st) b \<Longrightarrow> standing (record_probe ok b st) x = standing st x"
    and "hc_wf (fst (record_probe ok b st))"
proof -
  obtain hc s where st: "st = (hc, s)" by fastforce
  let ?key = "ref_url s b"
  have c: "\<bar>lookup0 (consecutive hc) k\<bar> \<le> 2 ^ 63 - 2" for k using assms st by (simp add: hc_wf_def)
  have inc: "int64 (lookup0 (consecutive hc) k + 1) = lookup0 (consecutive hc) k + 1"
    "int64 (lookup0 (consecutive hc) k - 1) = lookup0 (consecutive hc) k - 1"
    "int64 1 = 1" "int64 (- 1) = - 1"
    "int64 (1 - lookup0 (consecutive hc) k) = 1 - lookup0 (consecutive hc) k" for k
    using c [of k] by (auto simp: int64_id is_int64_def abs_le_iff)
  show "standing (record_probe ok b st) b = judge (fst st) ok (standing st b)"
    unfolding st
    by (auto simp: record_probe_def recordSuccess_def recordFailure_def standing_def judge_def Let_def
        modify_def heap_simps inc max_def IsAlive_def)
  show "ref_url (snd st) x \<noteq> ref_url (snd st) b \<Longrightarrow> standing (record_probe ok b st) x = standing st x"
    unfolding st
    by (auto simp: record_probe_def recordSuccess_def recordFailure_def standing_def Let_def
        modify_def heap_simps)
  show "hc_wf (fst (record_probe ok b st))"
    using assms c unfolding st
    by (auto simp: record_probe_def recordSuccess_def recordFailure_def hc_wf_def Let_def inc is_int64_def
        split: if_splits)
qed

section \<open>Rounds\<close>

text \<open>Whether a probe of a backend succeeds.\<close>

definition probe_success :: "prober \<Rightarrow> health_checker \<Rightarrow> string \<Rightarrow> bool" where
  "probe_success probe hc u = (case probe (client hc) (u @ hcPath hc) of
     Inl _ \<Rightarrow> False | Inr code \<Rightarrow> 200 \<le> code \<and> code < 300)"

lemma CheckBackend_record:
  "CheckBackend probe b st = record_probe (probe_success probe (fst st) (ref_url (snd st) b)) b st"
  by (auto simp: CheckBackend_def probe_success_def record_probe_def split: prod.split sum.split)


lemma record_probe_hc:
  "judge (fst (record_probe ok b st)) = judge (fst st)"
  "probe_success probe (fst (record_probe ok b st)) = probe_success probe (fst st)"
  by (simp_all add: judge_def probe_success_def frame_simps fun_eq_iff split: prod.split)

lemma checks_standing:
  assumes "hc_wf (fst st)" and "distinct (map (ref_url (snd st)) order)"
  shows "(\<forall>b \<in> set order. standing (fold (CheckBackend probe) order st) b =
      judge (fst st) (probe_success probe (fst st) (ref_url (snd st) b)) (standing st b)) \<and>
    (\<forall>b. ref_url (snd st) b \<notin> ref_url (snd st) ` set order \<longrightarrow>
      standing (fold (CheckBackend probe) order st) b = standing st b) \<and>
    hc_wf (fst (fold (CheckBackend probe) order st))"
  using assms
proof (induction order arbitrary: st)
  case (Cons c order)
  let ?st = "CheckBackend probe c st" and ?ok = "probe_success probe (fst st) (ref_url (snd st) c)"
  have st': "?st = record_probe ?ok c st" by (rule CheckBackend_record)
  have url: "ref_url (snd ?st) x = ref_url (snd st) x" for x unfolding st' by (simp add: frame_simps)
  have wf: "hc_wf (fst ?st)" unfolding st' by (rule record_probe_standing(3) [OF Cons.prems(1)])
  have d: "distinct (map (ref_url (snd ?st)) order)" using Cons.prems(2) unfolding url by simp
  have same: "judge (fst ?st) = judge (fst st)" "probe_success probe (fst ?st) = probe_success probe (fst st)"
    unfolding st' by (rule record_probe_hc)+
  note ih = Cons.IH [OF wf d, unfolded url same]
  have other: "ref_url (snd st) x \<noteq> ref_url (snd st) c \<Longrightarrow> standing ?st x = standing st x" for x
    unfolding st' by (rule record_probe_standing(2) [OF Cons.prems(1)])
  have own: "standing ?st c = judge (fst st) ?ok (standing st c)"
    unfolding st' by (rule record_probe_standing(1) [OF Cons.prems(1)])
  have fresh_c: "ref_url (snd st) c \<notin> ref_url (snd st) ` set order" using Cons.prems(2) by auto
  show ?case
  proof (intro conjI ballI allI impI)
    show "hc_wf (fst (fold (CheckBackend probe) (c # order) st))" using ih by simp
  next
    fix b assume b: "b \<in> set (c # order)"
    show "standing (fold (CheckBackend probe) (c # order) st) b =
        judge (fst st) (probe_success probe (fst st) (ref_url (snd st) b)) (standing st b)"
    proof (cases "b = c")
      case True
      then show ?thesis using ih fresh_c own by simp
    next
      case False
      then have "b \<in> set order" using b by simp
      moreover from this have "ref_url (snd st) b \<noteq> ref_url (snd st) c" using fresh_c by (metis image_eqI)
      ultimately show ?thesis using ih other by simp
    qed
  next
    fix b assume "ref_url (snd st) b \<notin> ref_url (snd st) ` set (c # order)"
    then show "standing (fold (CheckBackend probe) (c # order) st) b = standing st b"
      using ih other by simp
  qed
qed simp

section \<open>Runs of outcomes\<close>

text \<open>
  The specification of the thresholds, over one backend's outcomes, newest first: the current
  streak is decisive when its length is a multiple of its threshold.
\<close>

fun streak :: "bool list \<Rightarrow> nat" where
  "streak [] = 0"
| "streak [x] = 1"
| "streak (x # y # os) = (if x = y then Suc (streak (y # os)) else 1)"

definition threshold :: "health_checker \<Rightarrow> bool \<Rightarrow> nat" where
  "threshold hc ok = nat (if ok then healthyThreshold hc else unhealthyThreshold hc)"

fun verdict :: "health_checker \<Rightarrow> bool \<Rightarrow> bool list \<Rightarrow> bool" where
  "verdict hc a [] = a"
| "verdict hc a (x # os) =
     (if streak (x # os) mod threshold hc x = 0 then x else verdict hc a os)"

definition judged :: "health_checker \<Rightarrow> int \<times> bool \<Rightarrow> bool list \<Rightarrow> int \<times> bool" where
  "judged hc ca os = foldr (judge hc) os ca"

definition count_of :: "health_checker \<Rightarrow> bool list \<Rightarrow> int" where
  "count_of hc os = (case os of [] \<Rightarrow> 0
     | x # _ \<Rightarrow> (if x then 1 else - 1) * int (streak os mod threshold hc x))"

lemma streak_pos: "os \<noteq> [] \<Longrightarrow> 0 < streak os"
  by (cases os rule: streak.cases) simp_all

lemma judged_verdict:
  assumes "hc_wf hc"
  shows "judged hc (0, a) os = (count_of hc os, verdict hc a os)"
proof (induction os)
  case Nil
  show ?case by (simp add: judged_def count_of_def)
next
  case (Cons x os)
  let ?T = "threshold hc x" and ?n = "streak (x # os)"
  have T: "0 < ?T" "int ?T = (if x then healthyThreshold hc else unhealthyThreshold hc)"
    using assms by (auto simp: threshold_def hc_wf_def)
  let ?c = "(if x then max (count_of hc os) 0 else max (- count_of hc os) 0) + 1"
  have c: "?c = int ((?n - 1) mod ?T) + 1"
  proof (cases os)
    case Nil
    then show ?thesis by (simp add: count_of_def)
  next
    case (Cons y os')
    then show ?thesis by (cases x; cases y) (simp_all add: count_of_def)
  qed
  have n: "?n = Suc (?n - 1)" using streak_pos [of "x # os"] by simp
  have "?n mod ?T = (if Suc ((?n - 1) mod ?T) = ?T then 0 else Suc ((?n - 1) mod ?T))"
    by (subst n) (rule mod_Suc)
  moreover have "(?n - 1) mod ?T < ?T" using T(1) by simp
  ultimately have mod: "int (?n mod ?T) = (if ?c \<ge> int ?T then 0 else ?c)"
    "?n mod ?T = 0 \<longleftrightarrow> ?c \<ge> int ?T" using c by auto
  have "judged hc (0, a) (x # os) = judge hc x (count_of hc os, verdict hc a os)"
    using Cons.IH by (simp add: judged_def)
  also have "\<dots> = (count_of hc (x # os), verdict hc a (x # os))"
    using mod T(2) by (cases x) (auto simp: judge_def Let_def count_of_def)
  finally show ?case .
qed

lemma streak_replicate:
  "streak (replicate n x @ os) = (if n = 0 then streak os
     else n + (if os \<noteq> [] \<and> hd os = x then streak os else 0))"
proof (induction n)
  case (Suc n)
  then show ?case by (cases n; cases os) auto
qed simp

lemma take_streak: "os \<noteq> [] \<Longrightarrow> take (streak os) os = replicate (streak os) (hd os)"
  by (induction os rule: streak.induct) auto

lemma verdict_replicate_at:
  assumes "1 \<le> j" and "j \<le> n"
    and "(j + (if os \<noteq> [] \<and> hd os = x then streak os else 0)) mod threshold hc x = 0"
  shows "verdict hc a (replicate n x @ os) = x"
  using assms(2)
proof (induction n)
  case (Suc n)
  show ?case
  proof (cases "j = Suc n")
    case True
    then have "streak (x # replicate n x @ os) mod threshold hc x = 0"
      using assms(3) streak_replicate [of "Suc n" x os] by simp
    then show ?thesis by simp
  next
    case False
    then show ?thesis using Suc by simp
  qed
qed (use assms(1) in simp)

text \<open>A backend whose last threshold-many outcomes agree stands as they say.\<close>

lemma verdict_replicate:
  assumes "hc_wf hc" and "n \<ge> threshold hc x"
  shows "verdict hc a (replicate n x @ os) = x"
proof -
  let ?T = "threshold hc x" and ?m = "if os \<noteq> [] \<and> hd os = x then streak os else 0"
  have T: "0 < ?T" using assms(1) by (auto simp: threshold_def hc_wf_def)
  have lt: "?m mod ?T < ?T" using T by simp
  have "(?T - ?m mod ?T + ?m) mod ?T = (?T - ?m mod ?T + ?m mod ?T) mod ?T"
    by (simp only: mod_add_right_eq)
  then have "(?T - ?m mod ?T + ?m) mod ?T = 0" using lt by simp
  then show ?thesis
    using verdict_replicate_at [of "?T - ?m mod ?T" n os x hc a] lt assms(2) by simp
qed

text \<open>Only a full streak turns a backend over.\<close>

lemma verdict_turns:
  assumes "hc_wf hc" and "verdict hc a (x # os) \<noteq> verdict hc a os"
  shows "verdict hc a (x # os) = x \<and> take (threshold hc x) (x # os) = replicate (threshold hc x) x"
proof -
  let ?T = "threshold hc x" and ?n = "streak (x # os)"
  have m: "?n mod ?T = 0" using assms(2) by (auto split: if_splits)
  then have "?T dvd ?n" by (simp add: mod_0_imp_dvd)
  then have le: "?T \<le> ?n" using streak_pos [of "x # os"] by (auto dest: dvd_imp_le)
  have "take ?T (take ?n (x # os)) = take ?T (replicate ?n x)"
    by (subst take_streak) simp_all
  then show ?thesis using m le by (simp add: min_def)
qed


section \<open>The up gauge\<close>

definition gauge_ok :: "'a pool_state_scheme \<Rightarrow> bool" where
  "gauge_ok s \<longleftrightarrow> (\<forall>b \<in> set (backends s). enabled (mets s) \<longrightarrow>
     up_value (ref_url s b) (calls (mets s)) = Some (if IsAlive (heap s b) then 1 else 0))"

text \<open>A probe is decisive or not; if it is, liveness and gauge are both set.\<close>

lemma SetAlive_id: "alive b = v \<Longrightarrow> SetAlive v b = b"
  by (simp add: SetAlive_def)

lemma modify_id: "f (h r) = h r \<Longrightarrow> modify r f h = h"
  by (auto simp: modify_def)

lemma record_probe_cases:
  "\<exists>m. record_probe ok b (hc, s) = (hc\<lparr>consecutive := m\<rparr>, s) \<or>
     record_probe ok b (hc, s) = (hc\<lparr>consecutive := m\<rparr>,
       s\<lparr>heap := modify b (SetAlive ok) (heap s), mets := SetBackendUp (ref_url s b) ok (mets s)\<rparr>)"
proof -
  have "(if \<not> IsAlive (heap s b) then s\<lparr>heap := modify b (SetAlive True) (heap s)\<rparr> else s) =
      s\<lparr>heap := modify b (SetAlive True) (heap s)\<rparr>"
    and "(if IsAlive (heap s b) then s\<lparr>heap := modify b (SetAlive False) (heap s)\<rparr> else s) =
      s\<lparr>heap := modify b (SetAlive False) (heap s)\<rparr>"
    by (simp_all add: IsAlive_def modify_id SetAlive_id)
  then show ?thesis
    by (cases ok) (auto simp: record_probe_def recordSuccess_def recordFailure_def Let_def modify_def heap_simps)
qed

lemma record_probe_effect:
  "\<exists>d. (\<forall>x. alive (heap (snd (record_probe ok b st)) x) = (if d \<and> x = b then ok else alive (heap (snd st) x))) \<and>
    (\<forall>u. up_value u (calls (mets (snd (record_probe ok b st)))) =
       (if d \<and> enabled (mets (snd st)) \<and> u = ref_url (snd st) b then Some (if ok then 1 else 0)
        else up_value u (calls (mets (snd st)))))"
proof -
  obtain hc s where st: "st = (hc, s)" by fastforce
  from record_probe_cases [of ok b hc s] consider m where "record_probe ok b st = (hc\<lparr>consecutive := m\<rparr>, s)"
    | m where "record_probe ok b st = (hc\<lparr>consecutive := m\<rparr>,
       s\<lparr>heap := modify b (SetAlive ok) (heap s), mets := SetBackendUp (ref_url s b) ok (mets s)\<rparr>)"
    unfolding st by blast
  then show ?thesis
  proof cases
    case 1
    then show ?thesis unfolding st by (intro exI [of _ False]) simp
  next
    case 2
    then show ?thesis unfolding st by (intro exI [of _ True]) (auto simp: heap_simps)
  qed
qed

lemma record_probe_gauge:
  assumes "pool_wf (snd st)" and "b \<in> set (backends (snd st))" and "gauge_ok (snd st)"
  shows "gauge_ok (snd (record_probe ok b st))"
proof -
  obtain d where d: "\<And>x. alive (heap (snd (record_probe ok b st)) x) =
      (if d \<and> x = b then ok else alive (heap (snd st) x))"
    "\<And>u. up_value u (calls (mets (snd (record_probe ok b st)))) =
      (if d \<and> enabled (mets (snd st)) \<and> u = ref_url (snd st) b then Some (if ok then 1 else 0)
       else up_value u (calls (mets (snd st))))"
    using record_probe_effect [of ok b st] by blast
  show ?thesis
    using assms(3) pool_unique [OF assms(1) _ assms(2)] unfolding gauge_ok_def d IsAlive_def frame_simps
    by simp
qed

lemma MarkBackendStatus_gauge:
  assumes "pool_wf s" and "gauge_ok s"
  shows "gauge_ok (MarkBackendStatus u v s)"
proof (cases "find_url (heap s) (URLString u) (backends s)")
  case None
  then show ?thesis using assms(2) by (simp add: MarkBackendStatus_def)
next
  case (Some b)
  then have b: "b \<in> set (backends s)" "ref_url s b = URLString u" using find_url_Some by auto
  then have uniq: "x \<in> set (backends s) \<Longrightarrow> ref_url s x = URLString u \<Longrightarrow> x = b" for x
    using pool_unique [OF assms(1)] by metis
  have m: "MarkBackendStatus u v s = s\<lparr>heap := modify b (SetAlive v) (heap s),
      mets := SetBackendUp (URLString u) v (mets s)\<rparr>"
    using Some by (simp add: MarkBackendStatus_def)
  show ?thesis unfolding gauge_ok_def m
  proof (intro ballI impI)
    fix x
    let ?t = "s\<lparr>heap := modify b (SetAlive v) (heap s), mets := SetBackendUp (URLString u) v (mets s)\<rparr>"
    assume x: "x \<in> set (backends ?t)" and "enabled (mets ?t)"
    then have e: "enabled (mets s)" "x \<in> set (backends s)" by (simp_all add: frame_simps)
    then have "up_value (ref_url s x) (calls (mets s)) = Some (if IsAlive (heap s x) then 1 else 0)"
      using assms(2) by (simp add: gauge_ok_def)
    then show "up_value (ref_url ?t x) (calls (mets ?t)) = Some (if IsAlive (heap ?t x) then 1 else 0)"
    proof (cases "x = b")
      case True
      then show ?thesis using e(1) b(2) by (simp add: heap_simps IsAlive_def)
    next
      case False
      then have "ref_url s x \<noteq> URLString u" using uniq e(2) by blast
      then show ?thesis using False \<open>up_value _ _ = _\<close> by (simp add: heap_simps IsAlive_def)
    qed
  qed
qed

lemma pool_wf_record_probe [wf_intros]: "pool_wf (snd st) \<Longrightarrow> pool_wf (snd (record_probe ok b st))"
  by (simp add: pool_wf_def BackendURLs_def frame_simps)

section \<open>Properties\<close>

text \<open>
  C18: a health-check round is deterministic although its probes run concurrently. In whatever
  order the goroutines report, each backend of the pool gets exactly the verdict of its own probe
  on its own counter and liveness; the pool's membership does not change, and counters of backends
  that left the pool are gone.
\<close>

theorem health_round_pointwise:
  assumes "hc_wf hc" and "pool_wf s" and "distinct order" and "set order = set (backends s)"
    and "Start_tick probe order (i, hc, s) = (i', hc', s')"
  shows "(\<forall>b \<in> set (backends s). standing (hc', s') b =
      judge hc (probe_success probe hc (ref_url s b)) (standing (hc, s) b)) \<and>
    backends s' = backends s \<and> dom (consecutive hc') \<subseteq> set (BackendURLs s') \<and>
    hc_wf hc' \<and> pool_wf s' \<and> i' = hcInterval hc"
proof -
  obtain hc1 where run: "fold (CheckBackend probe) order (hc, s) = (hc1, s')"
    "hc' = prune_stale s' hc1" "i' = (if hcInterval hc1 \<noteq> i then hcInterval hc1 else i)"
    using assms(5) by (auto simp: Start_tick_def split: prod.splits)
  have inv: "backends (snd (fold (CheckBackend probe) bs st)) = backends (snd st) \<and>
      (pool_wf (snd st) \<longrightarrow> pool_wf (snd (fold (CheckBackend probe) bs st))) \<and>
      hcInterval (fst (fold (CheckBackend probe) bs st)) = hcInterval (fst st)"
    for bs and st :: "health_checker \<times> 'a pool_state_scheme"
    by (induction bs arbitrary: st) (simp_all add: CheckBackend_record frame_simps wf_intros)
  have s': "backends s' = backends s" "pool_wf s'" "hcInterval hc1 = hcInterval hc"
    using inv [of order "(hc, s)"] assms(2) unfolding run(1) by simp_all
  have "distinct (map (ref_url s) order)"
    using assms(2-4) by (auto simp: pool_wf_def BackendURLs_def distinct_map)
  then have "distinct (map (ref_url (snd (hc, s))) order)" by simp
  note checked = checks_standing [OF _ this, of probe, unfolded run(1) fst_conv snd_conv, OF assms(1)]
  then have st: "\<forall>b \<in> set (backends s). standing (hc1, s') b =
      judge hc (probe_success probe hc (ref_url s b)) (standing (hc, s) b)" and wf: "hc_wf hc1"
    using assms(4) by simp_all
  have "standing (hc', s') b = standing (hc1, s') b" if "b \<in> set (backends s)" for b
    using that s'(1) by (simp add: standing_def run(2) prune_stale_def lookup0_restrict Backends_def)
  moreover have "hc_wf hc'"
    using wf by (simp add: run(2) prune_stale_def hc_wf_def lookup0_restrict)
  moreover have "dom (consecutive hc') \<subseteq> set (BackendURLs s')"
    by (auto simp: run(2) prune_stale_def BackendURLs_def Backends_def)
  ultimately show ?thesis using st s' run(3) by simp
qed

text \<open>A pool with two backends, the second of which is dead.\<close>

definition health_pool :: pool_state where
  "health_pool = \<lparr>heap = (\<lambda>r. if r = 0 then http_backend ''a'' 1 else SetAlive False (http_backend ''b'' 1)),
     fresh = 2, mets = metrics0\<lparr>initialized := True, enabled := True\<rparr>, backends = [0, 1]\<rparr>"

definition health_probe :: prober where
  "health_probe t u = (if u = ''http://a/health'' then Inr 200 else Inl ''refused'')"

lemma health_pool_wf: "pool_wf health_pool"
  by (simp add: pool_wf_def BackendURLs_def health_pool_def http_backend_def http_url_def SetAlive_def)

theorem health_round_pointwise_witness:
  "standing (snd (Start_tick health_probe [1, 0] (0, NewHealthChecker ''/health'' 0 0 [], health_pool))) 1 = (- 1, False)"
proof -
  let ?hc = "NewHealthChecker ''/health'' 0 0 []"
  obtain i hc s where t: "Start_tick health_probe [1, 0] (0, ?hc, health_pool) = (i, hc, s)"
    by (metis prod_cases3)
  have "hc_wf ?hc" by (simp add: NewHealthChecker_wf)
  moreover have "set [1, 0] = set (backends health_pool)" by (auto simp: health_pool_def)
  moreover have "1 \<in> set (backends health_pool)" by (simp add: health_pool_def)
  ultimately have "standing (hc, s) 1 = judge ?hc (probe_success health_probe ?hc (ref_url health_pool 1))
      (standing (?hc, health_pool) 1)"
    using health_round_pointwise [OF _ health_pool_wf _ _ t] by simp
  also have "\<dots> = (- 1, False)" by code_simp
  finally show ?thesis using t by simp
qed

text \<open>
  C17: hysteresis. From a fresh counter and over any sequence of probe results of a backend that
  nothing else writes to: once as many of the latest results agree as that direction's threshold
  asks for, the backend stands as they say; and a result turns the backend over only if it
  completes such a run. The counter stays strictly between the two thresholds.
\<close>

theorem health_hysteresis:
  assumes "hc_wf (fst st)" and "lookup0 (consecutive (fst st)) (ref_url (snd st) b) = 0"
  shows "(n \<ge> threshold (fst st) x \<longrightarrow>
      alive (heap (snd (foldr (\<lambda>ok. record_probe ok b) (replicate n x @ os) st)) b) = x) \<and>
    (alive (heap (snd (foldr (\<lambda>ok. record_probe ok b) (x # os) st)) b) \<noteq>
       alive (heap (snd (foldr (\<lambda>ok. record_probe ok b) os st)) b) \<longrightarrow>
      take (threshold (fst st) x) (x # os) = replicate (threshold (fst st) x) x) \<and>
    - unhealthyThreshold (fst st) < fst (standing (foldr (\<lambda>ok. record_probe ok b) os st) b) \<and>
    fst (standing (foldr (\<lambda>ok. record_probe ok b) os st) b) < healthyThreshold (fst st)"
proof -
  have run: "standing (foldr (\<lambda>ok. record_probe ok b) os st) b = judged (fst st) (standing st b) os \<and>
      hc_wf (fst (foldr (\<lambda>ok. record_probe ok b) os st)) \<and>
      judge (fst (foldr (\<lambda>ok. record_probe ok b) os st)) = judge (fst st)" for os
  proof (induction os)
    case (Cons y ys)
    let ?st = "foldr (\<lambda>ok. record_probe ok b) ys st"
    have "standing (record_probe y b ?st) b = judge (fst ?st) y (standing ?st b)"
      by (rule record_probe_standing(1)) (use Cons.IH in simp)
    then show ?case
      using Cons.IH record_probe_standing(3) [of ?st y b] record_probe_hc(1) [of y b ?st]
      by (simp add: judged_def)
  qed (simp add: judged_def assms(1))
  have st: "standing st b = (0, alive (heap (snd st) b))" using assms(2) by (simp add: standing_def)
  have run': "standing (foldr (\<lambda>ok. record_probe ok b) os st) b =
      (count_of (fst st) os, verdict (fst st) (alive (heap (snd st) b)) os)" for os
    using run [of os] judged_verdict [OF assms(1)] st by metis
  then have al: "alive (heap (snd (foldr (\<lambda>ok. record_probe ok b) os st)) b) =
      verdict (fst st) (alive (heap (snd st) b)) os" for os
    by (metis snd_conv standing_def)
  have "- unhealthyThreshold (fst st) < count_of (fst st) os \<and> count_of (fst st) os < healthyThreshold (fst st)"
  proof (cases os)
    case (Cons y ys)
    have "0 < threshold (fst st) y" using assms(1) by (auto simp: threshold_def hc_wf_def)
    then have "int (streak os mod threshold (fst st) y) < int (threshold (fst st) y)" by simp
    then show ?thesis using Cons assms(1) by (cases y) (simp_all add: count_of_def threshold_def hc_wf_def)
  qed (use assms(1) in \<open>simp add: count_of_def hc_wf_def\<close>)
  then show ?thesis
    unfolding al run' using verdict_replicate [OF assms(1)] verdict_turns [OF assms(1)] by simp
qed

theorem health_hysteresis_witness:
  "\<not> alive (heap (snd (foldr (\<lambda>ok. record_probe ok 0) [False, False, False, True]
     (NewHealthChecker ''/health'' 0 0 [], health_pool))) 0)"
proof -
  let ?st = "(NewHealthChecker ''/health'' 0 0 [], health_pool)"
  have "hc_wf (fst ?st)" by (simp add: NewHealthChecker_wf)
  moreover have "lookup0 (consecutive (fst ?st)) (ref_url (snd ?st) 0) = 0"
    by (simp add: NewHealthChecker_def Let_def)
  moreover have "threshold (fst ?st) False = 3" by code_simp
  ultimately show ?thesis
    using health_hysteresis [of ?st 0 False 3 "[True]"] by (simp add: numeral_eq_Suc)
qed

end
