(* ===== verification/Reload.thy ===== *)
theory Reload
  imports Config Proxy_Props Health
begin

text \<open>
  Package \<open>internal/reload\<close>: the difference of two configurations and its application to the
  running system. The applier's three components are the load balancer's state, which holds the
  pool, and the health checker. \<open>url.Parse\<close> is the parameter \<open>parse_url\<close>, and the order in which
  Go iterates over a map is a parameter too: a list of the map's keys. Log lines are left out, and
  so is the second argument of \<open>Apply\<close>, which the code does not use.
\<close>

section \<open>Differences\<close>

record diff =
  BackendsAdded :: "backend_config list"
  BackendsRemoved :: "string list"
  BackendsChanged :: "backend_config list"
  AlgorithmChanged :: bool
  NewAlgorithm :: string
  HealthChanged :: bool
  NewHealthCheck :: health_config
  TLSChanged :: bool

definition Empty :: "diff \<Rightarrow> bool" where
  "Empty d \<longleftrightarrow> length (BackendsAdded d) = 0 \<and> length (BackendsRemoved d) = 0 \<and>
     length (BackendsChanged d) = 0 \<and> \<not> AlgorithmChanged d \<and> \<not> HealthChanged d \<and> \<not> TLSChanged d"

text \<open>The map from URL to backend configuration: of two entries the later one counts.\<close>

definition backend_map :: "config \<Rightarrow> string \<rightharpoonup> backend_config" where
  "backend_map c = fold (\<lambda>b m. m(BackendURL b \<mapsto> b)) (PoolBackends (Pool c)) Map.empty"

definition no_health :: health_config where
  "no_health = \<lparr>HealthPath = [], HealthInterval = 0, HealthTimeout = 0, UnhealthyThreshold = 0, HealthyThreshold = 0\<rparr>"

definition ComputeDiff :: "string list \<Rightarrow> string list \<Rightarrow> config \<Rightarrow> config \<Rightarrow> diff" where
  "ComputeDiff newKeys oldKeys old new =
     (let oldBackends = backend_map old; newBackends = backend_map new;
          added = concat (map (\<lambda>u. case newBackends u of None \<Rightarrow> []
            | Some nb \<Rightarrow> (case oldBackends u of None \<Rightarrow> [nb] | Some ob \<Rightarrow> [])) newKeys);
          changed = concat (map (\<lambda>u. case newBackends u of None \<Rightarrow> []
            | Some nb \<Rightarrow> (case oldBackends u of None \<Rightarrow> []
                | Some ob \<Rightarrow> if BackendWeight ob \<noteq> BackendWeight nb then [nb] else [])) newKeys);
          removed = filter (\<lambda>u. newBackends u = None) oldKeys;
          algo_changed = (Algorithm (Pool old) \<noteq> Algorithm (Pool new));
          oh = HealthCheck old; nh = HealthCheck new;
          health_changed = (HealthPath oh \<noteq> HealthPath nh \<or> HealthInterval oh \<noteq> HealthInterval nh \<or>
            HealthTimeout oh \<noteq> HealthTimeout nh \<or> UnhealthyThreshold oh \<noteq> UnhealthyThreshold nh \<or>
            HealthyThreshold oh \<noteq> HealthyThreshold nh)
      in \<lparr>BackendsAdded = added, BackendsRemoved = removed, BackendsChanged = changed,
          AlgorithmChanged = algo_changed,
          NewAlgorithm = (if algo_changed then Algorithm (Pool new) else []),
          HealthChanged = health_changed,
          NewHealthCheck = (if health_changed then nh else no_health),
          TLSChanged = (TLS old \<noteq> TLS new)\<rparr>)"

section \<open>Applying a difference\<close>

datatype reload_error =
    InvalidURL string | UnsupportedScheme string | MissingHost string | UnknownAlgorithm string

fun parse_added :: "url_parser \<Rightarrow> backend_config list \<Rightarrow> reload_error + (url \<times> int) list" where
  "parse_added parse_url [] = Inr []"
| "parse_added parse_url (bc # bcs) =
     (case parse_url (BackendURL bc) of
        Inl err \<Rightarrow> Inl (InvalidURL (BackendURL bc))
      | Inr u \<Rightarrow>
          if Scheme u \<noteq> ''http'' \<and> Scheme u \<noteq> ''https'' then Inl (UnsupportedScheme (BackendURL bc))
          else if Host u = [] then Inl (MissingHost (BackendURL bc))
          else sum_bind (parse_added parse_url bcs) (\<lambda>rest. Inr ((u, BackendWeight bc) # rest)))"

definition parse_algorithm :: "diff \<Rightarrow> reload_error + algorithm option" where
  "parse_algorithm d =
     (if AlgorithmChanged d then
        (case New (NewAlgorithm d) of Inl err \<Rightarrow> Inl (UnknownAlgorithm err) | Inr a \<Rightarrow> Inr (Some a))
      else Inr None)"

definition add_one :: "backend_config \<times> url \<times> int \<Rightarrow> lb_state \<Rightarrow> lb_state" where
  "add_one x s =
     (case x of (bc, u, w) \<Rightarrow>
        (case alloc \<lparr>URL = u, Weight = w, alive = False, activeConns = 0, ReverseProxy = None\<rparr> s of
           (b, s) \<Rightarrow>
             let s = SetupProxy b s;
                 s = s\<lparr>heap := modify b (SetAlive True) (heap s)\<rparr>;
                 s = AddBackend b s
             in s\<lparr>mets := SetBackendUp (BackendURL bc) True (mets s)\<rparr>))"

definition remove_one :: "string \<Rightarrow> lb_state \<Rightarrow> lb_state" where
  "remove_one rawURL s =
     (let s = snd (Remove rawURL s) in s\<lparr>mets := SetBackendUp rawURL False (mets s)\<rparr>)"

text \<open>The map by URL over the pool's backends; a later backend overwrites an earlier one.\<close>

definition by_url :: "lb_state \<Rightarrow> string \<rightharpoonup> ref" where
  "by_url s = fold (\<lambda>b m. m(ref_url s b \<mapsto> b)) (Backends s) Map.empty"

definition change_one :: "(string \<rightharpoonup> ref) \<Rightarrow> backend_config \<Rightarrow> lb_state \<Rightarrow> lb_state" where
  "change_one byURL bc s =
     (case byURL (BackendURL bc) of
        None \<Rightarrow> s
      | Some b \<Rightarrow> s\<lparr>heap := modify b (SetWeight (BackendWeight bc)) (heap s)\<rparr>)"

definition Apply ::
  "url_parser \<Rightarrow> diff \<Rightarrow> health_checker \<times> lb_state \<Rightarrow> reload_error option \<times> health_checker \<times> lb_state" where
  "Apply parse_url d st =
     (case st of (hc, s) \<Rightarrow>
        (case parse_added parse_url (BackendsAdded d) of
           Inl err \<Rightarrow> (Some err, hc, s)
         | Inr toAdd \<Rightarrow>
             (case parse_algorithm d of
                Inl err \<Rightarrow> (Some err, hc, s)
              | Inr newAlgo \<Rightarrow>
                  let s = fold add_one (zip (BackendsAdded d) toAdd) s;
                      s = fold remove_one (BackendsRemoved d) s;
                      s = (if length (BackendsChanged d) > 0
                           then fold (change_one (by_url s)) (BackendsChanged d) s else s);
                      s = (case newAlgo of None \<Rightarrow> s | Some a \<Rightarrow> SetAlgorithm a s);
                      nh = NewHealthCheck d;
                      hc = (if HealthChanged d
                            then UpdateConfig (HealthPath nh) (HealthInterval nh) (HealthTimeout nh)
                                   (UnhealthyThreshold nh) (HealthyThreshold nh) hc
                            else hc)
                  in (None, hc, s))))"

section \<open>The steps on the pool seen as a map\<close>

text \<open>Adding a configured backend is registering it with its proxy, alive.\<close>

definition configured :: "url \<Rightarrow> int \<Rightarrow> backend" where
  "configured u w = \<lparr>URL = u, Weight = w, alive = True, activeConns = 0, ReverseProxy = Some u\<rparr>"

lemma add_one_register:
  "add_one (bc, u, w) s = (register (configured u w) s)\<lparr>mets := SetBackendUp (BackendURL bc) True (mets s)\<rparr>"
  by (simp add: add_one_def alloc_def SetupProxy_def modify_def SetAlive_def register_def configured_def
      AddBackend_def Let_def)

lemma backend_map_Some: "backend_map c u = Some b \<Longrightarrow> BackendURL b = u \<and> b \<in> set (PoolBackends (Pool c))"
proof -
  have "fold (\<lambda>b m. m(BackendURL b \<mapsto> b)) bs m u = Some b \<Longrightarrow>
      (BackendURL b = u \<and> b \<in> set bs) \<or> m u = Some b" for bs m
    by (induction bs arbitrary: m) (simp, fastforce split: if_splits)
  from this [of "PoolBackends (Pool c)" Map.empty] show "backend_map c u = Some b \<Longrightarrow> ?thesis"
    by (simp add: backend_map_def)
qed

lemma backend_map_self: "backend_map c u = Some b \<Longrightarrow> backend_map c (BackendURL b) = Some b"
  using backend_map_Some by metis

text \<open>The load balancer's invariant is a property of the view.\<close>

lemma lb_wf_view: "lb_wf s \<longleftrightarrow> pool_wf s \<and> (\<forall>b \<in> ran (view s). ReverseProxy b = Some (URL b))"
proof (cases "pool_wf s")
  case True
  then have "ran (view s) = heap s ` set (backends s)"
    by (auto simp: ran_def dest: view_mem elim!: view_SomeE)
  then show ?thesis by (auto simp: lb_wf_def)
qed (simp add: lb_wf_def)

section \<open>The three loops of the mutation phase\<close>

lemma add_all:
  assumes "pool_wf s" and "list_all (\<lambda>(bc, u, w). URLString u = BackendURL bc \<and> f (BackendURL bc) = configured u w) xs"
  shows "pool_wf (fold add_one xs s) \<and> view (fold add_one xs s) =
    (\<lambda>u. case view s u of Some b \<Rightarrow> Some b
         | None \<Rightarrow> if u \<in> set (map (\<lambda>x. BackendURL (fst x)) xs) then Some (f u) else None)"
  using assms
proof (induction xs arbitrary: s)
  case (Cons x xs)
  obtain bc u w where x: "x = (bc, u, w)" by (cases x) auto
  have k: "url_of (configured u w) = BackendURL bc" "f (BackendURL bc) = configured u w"
    using Cons.prems(2) x by (simp_all add: configured_def)
  have wf: "pool_wf (add_one x s)"
    using Cons.prems(1) by (simp add: x add_one_register pool.inv_put)
  have "view (add_one x s) = (case view s (BackendURL bc) of None \<Rightarrow> (view s)(BackendURL bc \<mapsto> configured u w)
      | Some _ \<Rightarrow> view s)"
    using pool.look_put [OF Cons.prems(1), of "configured u w", unfolded k(1)] by (simp add: x add_one_register)
  with Cons.IH [OF wf] Cons.prems(2) show ?case
    by (auto simp: x k fun_eq_iff split: option.splits)
qed (auto simp: fun_eq_iff split: option.splits)

lemma remove_all:
  "pool_wf s \<Longrightarrow> pool_wf (fold remove_one us s) \<and> view (fold remove_one us s) = view s |` (- set us)"
proof (induction us arbitrary: s)
  case (Cons u us)
  have "pool_wf (remove_one u s) \<and> view (remove_one u s) = (view s)(u := None)"
    using pool.look_del [OF Cons.prems] pool.inv_del [OF Cons.prems] by (simp add: remove_one_def Let_def)
  with Cons.IH [of "remove_one u s"] show ?case
    by (auto simp: restrict_map_def fun_eq_iff)
qed (simp add: restrict_map_def)

lemma by_url_find: "pool_wf s \<Longrightarrow> by_url s u = find_url (heap s) u (backends s)"
proof -
  have "distinct (map (\<lambda>r. url_of (h r)) bs) \<Longrightarrow>
      fold (\<lambda>b m. m(url_of (h b) \<mapsto> b)) bs m u =
        (case find_url h u bs of None \<Rightarrow> m u | Some r \<Rightarrow> Some r)" for h bs m
    by (induction bs arbitrary: m) (auto simp: find_url_None image_iff split: option.splits dest!: find_url_Some)
  from this [of "heap s" "backends s" Map.empty] show "pool_wf s \<Longrightarrow> ?thesis"
    by (simp add: by_url_def Backends_def pool_wf_def BackendURLs_def split: option.split)
qed

lemma change_all:
  assumes "pool_wf s" and "\<And>u. m u = find_url (heap s) u (backends s)"
    and "list_all (\<lambda>bc. BackendWeight bc = g (BackendURL bc)) bcs"
  shows "pool_wf (fold (change_one m) bcs s) \<and> view (fold (change_one m) bcs s) =
    (\<lambda>u. if u \<in> set (map BackendURL bcs) then map_option (SetWeight (g u)) (view s u) else view s u)"
  using assms
proof (induction bcs arbitrary: s)
  case (Cons bc bcs)
  let ?u = "BackendURL bc" and ?s = "change_one m bc s"
  have "pool_wf ?s \<and> (\<forall>u. m u = find_url (heap ?s) u (backends ?s)) \<and>
      view ?s = (view s)(?u := map_option (SetWeight (g ?u)) (view s ?u))"
  proof (cases "m ?u")
    case None
    with Cons.prems show ?thesis by (auto simp: change_one_def view_def)
  next
    case (Some r)
    then have r: "r \<in> set (backends s)" "ref_url s r = ?u" "find_url (heap s) ?u (backends s) = Some r"
      using Cons.prems(2) find_url_Some by auto
    have "find_url (modify r (SetWeight w) (heap s)) u (backends s) = find_url (heap s) u (backends s)" for u w
      by (rule find_url_cong) (simp add: modify_apply accessor_fields)
    with Some Cons.prems r view_modify [OF Cons.prems(1) r(1), of "SetWeight (g ?u)"] show ?thesis
      by (auto simp: change_one_def view_def [of s] accessor_fields intro!: pool_wf_modify)
  qed
  then have wf: "pool_wf ?s" and m: "\<And>u. m u = find_url (heap ?s) u (backends ?s)"
    and v: "view ?s = (view s)(?u := map_option (SetWeight (g ?u)) (view s ?u))" by blast+
  have "SetWeight w (SetWeight w b) = SetWeight w b" for w b by (simp add: accessor_defs)
  with Cons.IH [OF wf m] Cons.prems(3) show ?case
    by (auto simp: v fun_eq_iff option.map_comp comp_def)
qed simp

section \<open>The validation phase\<close>

definition url_ok :: "url_parser \<Rightarrow> string \<Rightarrow> bool" where
  "url_ok parse_url raw =
     (case parse_url raw of Inl err \<Rightarrow> False
      | Inr u \<Rightarrow> Scheme u \<in> {''http'', ''https''} \<and> Host u \<noteq> [])"

lemma parse_added_ok: "isl (parse_added parse_url bcs) \<longleftrightarrow> \<not> list_all (\<lambda>bc. url_ok parse_url (BackendURL bc)) bcs"
  by (induction bcs) (auto simp: url_ok_def sum_bind_def isl_def split: sum.splits)

lemma parse_added_Inr:
  "parse_added parse_url bcs = Inr xs \<Longrightarrow>
   list_all2 (\<lambda>bc (u, w). parse_url (BackendURL bc) = Inr u \<and> w = BackendWeight bc) bcs xs"
  by (induction bcs arbitrary: xs) (auto simp: sum_bind_Inr_iff split: sum.splits if_splits)

lemma parse_algorithm_ok: "isl (parse_algorithm d) \<longleftrightarrow> AlgorithmChanged d \<and> isl (New (NewAlgorithm d))"
  by (auto simp: parse_algorithm_def isl_def split: sum.splits)

section \<open>Which backends a difference names\<close>

lemma diff_added:
  "set (BackendsAdded (ComputeDiff newKeys oldKeys old new)) =
     {b. \<exists>u \<in> set newKeys. backend_map new u = Some b \<and> backend_map old u = None}"
  by (auto simp: ComputeDiff_def Let_def split: option.splits)

lemma diff_changed:
  "set (BackendsChanged (ComputeDiff newKeys oldKeys old new)) =
     {b. \<exists>u \<in> set newKeys. backend_map new u = Some b \<and>
        (\<exists>ob. backend_map old u = Some ob \<and> BackendWeight ob \<noteq> BackendWeight b)}"
  by (auto simp: ComputeDiff_def Let_def split: option.splits if_splits) metis

lemma diff_removed:
  "set (BackendsRemoved (ComputeDiff newKeys oldKeys old new)) = {u \<in> set oldKeys. backend_map new u = None}"
  by (auto simp: ComputeDiff_def Let_def)

text \<open>Where the iteration orders run through the maps' keys, the URLs named are the expected ones.\<close>

lemma diff_urls:
  assumes "set newKeys = dom (backend_map new)" and "set oldKeys = dom (backend_map old)"
  shows "u \<in> BackendURL ` set (BackendsAdded (ComputeDiff newKeys oldKeys old new)) \<longleftrightarrow>
      backend_map new u \<noteq> None \<and> backend_map old u = None"
    and "u \<in> BackendURL ` set (BackendsChanged (ComputeDiff newKeys oldKeys old new)) \<longleftrightarrow>
      (\<exists>nb ob. backend_map new u = Some nb \<and> backend_map old u = Some ob \<and> BackendWeight ob \<noteq> BackendWeight nb)"
    and "u \<in> set (BackendsRemoved (ComputeDiff newKeys oldKeys old new)) \<longleftrightarrow>
      backend_map old u \<noteq> None \<and> backend_map new u = None"
  using assms by (force simp: diff_added diff_changed diff_removed dest: backend_map_Some)+

lemma diff_settings:
  "AlgorithmChanged (ComputeDiff newKeys oldKeys old new) \<longleftrightarrow> Algorithm (Pool old) \<noteq> Algorithm (Pool new)"
  "Algorithm (Pool old) \<noteq> Algorithm (Pool new) \<Longrightarrow>
     NewAlgorithm (ComputeDiff newKeys oldKeys old new) = Algorithm (Pool new)"
  "HealthChanged (ComputeDiff newKeys oldKeys old new) \<longleftrightarrow> HealthCheck old \<noteq> HealthCheck new"
  "HealthCheck old \<noteq> HealthCheck new \<Longrightarrow>
     NewHealthCheck (ComputeDiff newKeys oldKeys old new) = HealthCheck new"
  "TLSChanged (ComputeDiff newKeys oldKeys old new) \<longleftrightarrow> TLS old \<noteq> TLS new"
  by (auto simp: ComputeDiff_def Let_def)

section \<open>Reloading\<close>

text \<open>The pool runs a configuration: the same URLs, with the same weights.\<close>

definition runs_config :: "config \<Rightarrow> 'a pool_state_scheme \<Rightarrow> bool" where
  "runs_config c s \<longleftrightarrow> (\<forall>u. map_option Weight (view s u) = map_option BackendWeight (backend_map c u))"

text \<open>What a reload should make of the pool: kept backends keep everything but their weight.\<close>

definition reload_target :: "url_parser \<Rightarrow> config \<Rightarrow> (string \<rightharpoonup> backend) \<Rightarrow> string \<rightharpoonup> backend" where
  "reload_target parse_url new v =
     (\<lambda>u. case backend_map new u of None \<Rightarrow> None
      | Some nb \<Rightarrow> Some (case v u of Some b \<Rightarrow> SetWeight (BackendWeight nb) b
          | None \<Rightarrow> configured (projr (parse_url u)) (BackendWeight nb)))"

text \<open>The URL texts of a configuration are written as \<open>String()\<close> prints them.\<close>

definition canonical :: "url_parser \<Rightarrow> config \<Rightarrow> bool" where
  "canonical parse_url c \<longleftrightarrow>
     list_all (\<lambda>b. case parse_url (BackendURL b) of Inl err \<Rightarrow> True
       | Inr u \<Rightarrow> URLString u = BackendURL b) (PoolBackends (Pool c))"

lemma Apply_None:
  assumes "Apply parse_url d (hc, s) = (None, hc', s')"
  obtains toAdd newAlgo s1 s2 s3 where "parse_added parse_url (BackendsAdded d) = Inr toAdd"
    and "parse_algorithm d = Inr newAlgo"
    and "s1 = fold add_one (zip (BackendsAdded d) toAdd) s"
    and "s2 = fold remove_one (BackendsRemoved d) s1"
    and "s3 = fold (change_one (by_url s2)) (BackendsChanged d) s2"
    and "s' = (case newAlgo of None \<Rightarrow> s3 | Some a \<Rightarrow> SetAlgorithm a s3)"
    and "hc' = (if HealthChanged d then UpdateConfig (HealthPath (NewHealthCheck d))
      (HealthInterval (NewHealthCheck d)) (HealthTimeout (NewHealthCheck d))
      (UnhealthyThreshold (NewHealthCheck d)) (HealthyThreshold (NewHealthCheck d)) hc else hc)"
proof (cases "parse_added parse_url (BackendsAdded d)"; cases "parse_algorithm d")
  fix toAdd newAlgo
  assume "parse_added parse_url (BackendsAdded d) = Inr toAdd" and "parse_algorithm d = Inr newAlgo"
  with assms show thesis
    by (intro that [OF _ _ refl refl refl])
      (cases "BackendsChanged d"; auto simp: Apply_def Let_def split: option.splits if_splits)+
qed (use assms in \<open>simp_all add: Apply_def\<close>)

lemma Apply_error:
  "(fst (Apply parse_url d (hc, s)) = None \<longleftrightarrow>
      list_all (\<lambda>bc. url_ok parse_url (BackendURL bc)) (BackendsAdded d) \<and>
      \<not> (AlgorithmChanged d \<and> isl (New (NewAlgorithm d)))) \<and>
   (fst (Apply parse_url d (hc, s)) = None \<or> snd (Apply parse_url d (hc, s)) = (hc, s))"
  using parse_added_ok [of parse_url "BackendsAdded d"] parse_algorithm_ok [of d]
  by (auto simp: Apply_def Let_def isl_def split: sum.splits)

lemma view_SetAlgorithm [simp]: "view (SetAlgorithm a s) = view s" "pool_wf (SetAlgorithm a s) = pool_wf s"
  by (auto simp: SetAlgorithm_def view_def pool_wf_def BackendURLs_def)

lemma reload_view:
  assumes wf: "lb_wf s" and runs: "runs_config old s" and canon: "canonical parse_url new"
    and keys: "set newKeys = dom (backend_map new)" "set oldKeys = dom (backend_map old)"
    and app: "Apply parse_url (ComputeDiff newKeys oldKeys old new) (hc, s) = (None, hc', s')"
  shows "lb_wf s' \<and> view s' = reload_target parse_url new (view s)"
proof -
  let ?d = "ComputeDiff newKeys oldKeys old new"
  let ?w = "\<lambda>u. BackendWeight (the (backend_map new u))"
  let ?f = "\<lambda>u. configured (projr (parse_url u)) (?w u)"
  from app obtain toAdd newAlgo s1 s2 s3 where add: "parse_added parse_url (BackendsAdded ?d) = Inr toAdd"
    and s1: "s1 = fold add_one (zip (BackendsAdded ?d) toAdd) s"
    and s2: "s2 = fold remove_one (BackendsRemoved ?d) s1"
    and s3: "s3 = fold (change_one (by_url s2)) (BackendsChanged ?d) s2"
    and s': "s' = (case newAlgo of None \<Rightarrow> s3 | Some a \<Rightarrow> SetAlgorithm a s3)"
    by (rule Apply_None)
  have len: "length (BackendsAdded ?d) = length toAdd" and
    each: "\<And>bc u w. (bc, u, w) \<in> set (zip (BackendsAdded ?d) toAdd) \<Longrightarrow>
      parse_url (BackendURL bc) = Inr u \<and> w = BackendWeight bc"
    using parse_added_Inr [OF add] by (auto simp: list_all2_iff)
  have names: "map (\<lambda>x. BackendURL (fst x)) (zip (BackendsAdded ?d) toAdd) = map BackendURL (BackendsAdded ?d)"
    using arg_cong [OF map_fst_zip [OF len], of "map BackendURL"] by (simp add: comp_def)
  have "list_all (\<lambda>(bc, u, w). URLString u = BackendURL bc \<and> ?f (BackendURL bc) = configured u w)
      (zip (BackendsAdded ?d) toAdd)"
  proof (unfold list_all_iff, clarify, intro conjI)
    fix bc u w
    assume x: "(bc, u, w) \<in> set (zip (BackendsAdded ?d) toAdd)"
    then have "bc \<in> set (BackendsAdded ?d)" by (rule set_zip_leftD)
    then obtain v where "backend_map new v = Some bc" by (auto simp: diff_added)
    then have bc: "backend_map new (BackendURL bc) = Some bc" "bc \<in> set (PoolBackends (Pool new))"
      by (auto dest: backend_map_Some)
    show "URLString u = BackendURL bc"
      using canon bc(2) each [OF x] by (auto simp: canonical_def list_all_iff)
    show "?f (BackendURL bc) = configured u w" using each [OF x] bc(1) by simp
  qed
  then have wf1: "pool_wf s1" and v1: "view s1 = (\<lambda>u. case view s u of Some b \<Rightarrow> Some b
      | None \<Rightarrow> if u \<in> set (map BackendURL (BackendsAdded ?d)) then Some (?f u) else None)"
    using add_all [of s ?f "zip (BackendsAdded ?d) toAdd", unfolded names] wf
    by (simp_all add: s1 lb_wf_def)
  have wf2: "pool_wf s2" and v2: "view s2 = view s1 |` (- set (BackendsRemoved ?d))"
    using remove_all [OF wf1] by (simp_all add: s2)
  have g: "list_all (\<lambda>bc. BackendWeight bc = ?w (BackendURL bc)) (BackendsChanged ?d)"
    by (auto simp: list_all_iff diff_changed backend_map_self)
  have wf3: "pool_wf s3" and v3: "view s3 = (\<lambda>u. if u \<in> set (map BackendURL (BackendsChanged ?d))
      then map_option (SetWeight (?w u)) (view s2 u) else view s2 u)"
    using change_all [OF wf2 by_url_find [OF wf2] g] by (simp_all add: s3)
  have view: "view s' = view s3" and wf': "pool_wf s'"
    using wf3 by (simp_all add: s' split: option.split)
  have old: "map_option Weight (view s u) = map_option BackendWeight (backend_map old u)" for u
    using runs by (simp add: runs_config_def)
  have same: "Weight b = w \<Longrightarrow> SetWeight w b = b" for b w by (auto simp: SetWeight_def)
  have "view s' u = reload_target parse_url new (view s) u" for u
    unfolding view v3 v2 v1 set_map diff_urls [OF keys] restrict_map_def reload_target_def Compl_iff
    using old [of u]
    by (cases "backend_map new u"; cases "backend_map old u"; cases "view s u") (auto simp: same)
  then have v: "view s' = reload_target parse_url new (view s)" ..
  have "ReverseProxy b = Some (URL b)" if "b \<in> ran (view s')" for b
  proof -
    from that obtain u where "reload_target parse_url new (view s) u = Some b" by (auto simp: v ran_def)
    with wf show ?thesis
      by (cases "backend_map new u"; cases "view s u")
        (auto simp: reload_target_def lb_wf_view ran_def configured_def accessor_fields)
  qed
  with wf' v show ?thesis by (simp add: lb_wf_view)
qed

lemma mutations_keep_algo:
  "algo (fold add_one xs s) = algo s" "algo (fold remove_one us s) = algo s"
  "algo (fold (change_one m) bcs s) = algo s"
proof -
  have a: "algo (add_one x s) = algo s" for x s
    by (cases x) (simp add: add_one_register register_def alloc_def AddBackend_def)
  have r: "algo (remove_one u s) = algo s" for u s
    by (simp add: remove_one_def Remove_def Let_def split: option.split)
  have c: "algo (change_one m bc s) = algo s" for m bc s
    by (simp add: change_one_def split: option.split)
  show "algo (fold add_one xs s) = algo s" by (induction xs arbitrary: s) (simp_all add: a)
  show "algo (fold remove_one us s) = algo s" by (induction us arbitrary: s) (simp_all add: r)
  show "algo (fold (change_one m) bcs s) = algo s" by (induction bcs arbitrary: s) (simp_all add: c)
qed

lemma reload_settings:
  assumes app: "Apply parse_url (ComputeDiff newKeys oldKeys old new) (hc, s) = (None, hc', s')"
  shows "(if Algorithm (Pool old) = Algorithm (Pool new) then algo s' = algo s
      else New (Algorithm (Pool new)) = Inr (algo s')) \<and>
    hc' = (if HealthCheck old = HealthCheck new then hc
      else UpdateConfig (HealthPath (HealthCheck new)) (HealthInterval (HealthCheck new))
        (HealthTimeout (HealthCheck new)) (UnhealthyThreshold (HealthCheck new))
        (HealthyThreshold (HealthCheck new)) hc)"
  using app
  by (rule Apply_None)
    (auto simp: parse_algorithm_def diff_settings mutations_keep_algo SetAlgorithm_def split: sum.splits if_splits)

lemma runs_reload_target:
  "view s' = reload_target parse_url new v \<Longrightarrow> runs_config new s'"
  by (auto simp: runs_config_def reload_target_def configured_def accessor_fields split: option.split)

section \<open>Properties\<close>

text \<open>Concrete configurations and a parser of plain URLs, for the instances.\<close>

definition plain_parser :: url_parser where
  "plain_parser raw =
     (case CutPrefix raw ''http://'' of
        Some h \<Rightarrow> Inr (http_url h)
      | None \<Rightarrow> (case CutPrefix raw ''HTTP://'' of Some h \<Rightarrow> Inr (http_url h) | None \<Rightarrow> Inl raw))"

definition pool_of :: "string \<Rightarrow> (string \<times> int) list \<Rightarrow> config" where
  "pool_of a bs = Defaults\<lparr>Pool := \<lparr>Algorithm = a,
     PoolBackends = map (\<lambda>(u, w). \<lparr>BackendURL = u, BackendWeight = w\<rparr>) bs\<rparr>\<rparr>"

definition running :: "(string \<times> int) list \<Rightarrow> lb_state" where
  "running bs = NewLoadBalancer (sample_pool (map (\<lambda>(h, w). http_backend h w) bs)) LeastConnections []"

text \<open>
  C34: a successful reload takes the pool from the old configuration to the new one, provided that the
  URLs of the new one are written the way \<open>url.String\<close> prints them; without that a reload without error
  can leave a dropped backend in rotation, as the pool is searched for the printed URL. If the pool runs
  the old configuration and the new URLs are so written, then after a reload that returns no error the
  pool runs the new configuration: a backend whose URL stays keeps its liveness, its open connections
  and its proxy and gets the new weight, a new one is alive and idle with a proxy for its own URL, and
  the others are gone. The algorithm and the health checker change exactly when
  their settings do. The outcome does not depend on the order in which Go iterates over its maps.
\<close>

theorem reload_reaches_config:
  assumes "lb_wf s" and "runs_config old s" and "canonical parse_url new"
    and "set newKeys = dom (backend_map new)" and "set oldKeys = dom (backend_map old)"
    and "Apply parse_url (ComputeDiff newKeys oldKeys old new) (hc, s) = (None, hc', s')"
  shows "lb_wf s' \<and> runs_config new s' \<and> view s' = reload_target parse_url new (view s) \<and>
    (if Algorithm (Pool old) = Algorithm (Pool new) then algo s' = algo s
     else New (Algorithm (Pool new)) = Inr (algo s')) \<and>
    hc' = (if HealthCheck old = HealthCheck new then hc
      else UpdateConfig (HealthPath (HealthCheck new)) (HealthInterval (HealthCheck new))
        (HealthTimeout (HealthCheck new)) (UnhealthyThreshold (HealthCheck new))
        (HealthyThreshold (HealthCheck new)) hc)"
  using reload_view [OF assms] reload_settings [OF assms(6)] runs_reload_target by blast

text \<open>
  C35: a reload is applied completely or not at all. It fails exactly when an added backend's URL does
  not parse, has a scheme other than http and https or has no host, or when the algorithm changed to
  an unknown name; a reload that fails leaves the pool, the algorithm and the health checker untouched.
\<close>

theorem reload_all_or_nothing:
  "(fst (Apply parse_url d (hc, s)) = None \<longleftrightarrow>
      list_all (\<lambda>bc. url_ok parse_url (BackendURL bc)) (BackendsAdded d) \<and>
      \<not> (AlgorithmChanged d \<and> isl (New (NewAlgorithm d)))) \<and>
   (fst (Apply parse_url d (hc, s)) = None \<or> snd (Apply parse_url d (hc, s)) = (hc, s))"
  by (rule Apply_error)

text \<open>
  The difference of two configurations is empty exactly when they list the same URLs with the same
  weights and agree on the algorithm, the health check and TLS; and applying an empty difference
  succeeds and changes nothing, so that reloading an unchanged file is harmless.
\<close>

theorem diff_empty_iff:
  assumes "set newKeys = dom (backend_map new)" and "set oldKeys = dom (backend_map old)"
  shows "(Empty (ComputeDiff newKeys oldKeys old new) \<longleftrightarrow>
      (\<forall>u. map_option BackendWeight (backend_map old u) = map_option BackendWeight (backend_map new u)) \<and>
      Algorithm (Pool old) = Algorithm (Pool new) \<and> HealthCheck old = HealthCheck new \<and> TLS old = TLS new) \<and>
    (Empty (ComputeDiff newKeys oldKeys old new) \<longrightarrow>
      Apply parse_url (ComputeDiff newKeys oldKeys old new) st = (None, st))"
proof -
  let ?d = "ComputeDiff newKeys oldKeys old new"
  have nil: "xs = [] \<longleftrightarrow> (\<forall>u. u \<notin> f ` set xs)" for xs :: "'x list" and f :: "'x \<Rightarrow> string"
    by (cases xs) auto
  have "BackendsAdded ?d = [] \<and> BackendsChanged ?d = [] \<and> BackendsRemoved ?d = [] \<longleftrightarrow>
      (\<forall>u. u \<notin> BackendURL ` set (BackendsAdded ?d) \<and> u \<notin> BackendURL ` set (BackendsChanged ?d) \<and>
         u \<notin> set (BackendsRemoved ?d))"
    using nil [of "BackendsAdded ?d" BackendURL] nil [of "BackendsChanged ?d" BackendURL]
      nil [of "BackendsRemoved ?d" id] by (simp only: image_id id_apply) blast
  also have "\<dots> \<longleftrightarrow> (\<forall>u. map_option BackendWeight (backend_map old u) = map_option BackendWeight (backend_map new u))"
    unfolding diff_urls [OF assms] by (intro iff_allI) (auto simp: map_option_case split: option.splits)
  finally have "Empty ?d \<longleftrightarrow>
      (\<forall>u. map_option BackendWeight (backend_map old u) = map_option BackendWeight (backend_map new u)) \<and>
      Algorithm (Pool old) = Algorithm (Pool new) \<and> HealthCheck old = HealthCheck new \<and> TLS old = TLS new"
    by (auto simp: Empty_def diff_settings)
  moreover have "Empty ?d \<Longrightarrow> Apply parse_url ?d st = (None, st)"
    by (cases st) (simp add: Empty_def Apply_def parse_algorithm_def Let_def)
  ultimately show ?thesis by blast
qed

text \<open>
  Two configurations for the instances: one backend stays with a new weight, one goes, one is new.
  The kept backend is down and has a request in flight.
\<close>

definition before :: config where
  "before = pool_of ''least_connections'' [(''http://a'', 1), (''http://b'', 1)]"

definition after :: config where
  "after = pool_of ''least_connections'' [(''http://a'', 5), (''http://c'', 2)]"

definition before_state :: lb_state where
  "before_state = (let s = running [(''a'', 1), (''b'', 1)]
     in s\<lparr>heap := modify 0 (\<lambda>b. IncrConns (SetAlive False b)) (heap s)\<rparr>)"

lemma before_state_fields:
  "backends before_state = [0, 1]" "fresh before_state = 2"
  "heap before_state 0 = (http_backend ''a'' 1)\<lparr>alive := False, activeConns := 1\<rparr>"
  "heap before_state (Suc 0) = http_backend ''b'' 1"
  "BackendURLs before_state = [''http://a'', ''http://b'']"
  by (simp_all add: before_state_def running_def NewLoadBalancer_def sample_pool_def modify_def accessor_defs
      http_backend_def http_url_def BackendURLs_def int64_def Let_def upt_rec)

lemma before_wf: "lb_wf before_state"
  by (auto simp: lb_wf_def pool_wf_def before_state_fields http_backend_def)

lemma before_runs: "runs_config before before_state"
  by (simp add: runs_config_def view_def before_state_fields before_def pool_of_def Defaults_def backend_map_def
      http_backend_def http_url_def)

lemma keys_before: "set [''http://b'', ''http://a''] = dom (backend_map before)"
  by (auto simp: before_def pool_of_def backend_map_def Defaults_def)

lemma keys_after: "set [''http://c'', ''http://a''] = dom (backend_map after)"
  by (auto simp: after_def pool_of_def backend_map_def Defaults_def)

lemma after_canonical: "canonical plain_parser after"
  by (simp add: after_def pool_of_def canonical_def Defaults_def plain_parser_def http_url_def)

lemma after_applies:
  "fst (Apply plain_parser (ComputeDiff [''http://c'', ''http://a''] [''http://b'', ''http://a''] before after)
      (hc, before_state)) = None"
  by (simp add: Apply_error) (simp add: url_ok_def plain_parser_def ComputeDiff_def before_def after_def
    pool_of_def backend_map_def Defaults_def http_url_def Let_def)

theorem diff_empty_iff_witness:
  "\<not> Empty (ComputeDiff [''http://c'', ''http://a''] [''http://b'', ''http://a''] before after)"
  unfolding diff_empty_iff [OF keys_after keys_before, THEN conjunct1]
  by (auto simp: before_def after_def pool_of_def Defaults_def backend_map_def intro!: exI [of _ "''http://b''"])

theorem reload_reaches_config_witness:
  "map (\<lambda>u. map_option (\<lambda>b. (Weight b, alive b, activeConns b, ReverseProxy b = Some (URL b)))
      (view (snd (snd (Apply plain_parser
         (ComputeDiff [''http://c'', ''http://a''] [''http://b'', ''http://a''] before after)
         (NewHealthChecker ''/health'' 1 1 [], before_state)))) u))
     [''http://a'', ''http://b'', ''http://c''] =
   [Some (5, False, 1, True), None, Some (2, True, 0, True)]"
proof -
  let ?d = "ComputeDiff [''http://c'', ''http://a''] [''http://b'', ''http://a''] before after"
  let ?hc = "NewHealthChecker ''/health'' 1 1 []"
  obtain hc' s' where app: "Apply plain_parser ?d (?hc, before_state) = (None, hc', s')"
    using after_applies [of ?hc] by (metis prod.collapse)
  have v: "view s' = reload_target plain_parser after (view before_state)"
    using reload_reaches_config [OF before_wf before_runs after_canonical keys_after keys_before app] by blast
  show ?thesis
    unfolding app snd_conv v
    by (simp add: reload_target_def view_def before_state_fields after_def pool_of_def Defaults_def
        backend_map_def configured_def plain_parser_def http_url_def http_backend_def accessor_defs)
qed

text \<open>
  The spelling of a URL matters to removal: a backend configured with an upper-case scheme is in the
  pool under the text \<open>String()\<close> prints, so the difference names a URL the pool does not know, and a
  reload that drops the backend reports success and leaves it in the pool.
\<close>

lemma reload_misses_noncanonical:
  "let old = pool_of ''least_connections'' [(''HTTP://a'', 1), (''http://b'', 1)];
       new = pool_of ''least_connections'' [(''http://b'', 1)];
       s = running [(''a'', 1), (''b'', 1)];
       r = Apply plain_parser (ComputeDiff [''http://b''] [''HTTP://a'', ''http://b''] old new) (hc, s)
   in fst r = None \<and> BackendURLs (snd (snd r)) = [''http://a'', ''http://b'']"
  by (simp add: Apply_def ComputeDiff_def pool_of_def Defaults_def backend_map_def Let_def parse_algorithm_def
      remove_one_def Remove_def running_def NewLoadBalancer_def sample_pool_def http_backend_def http_url_def
      BackendURLs_def upt_rec)

end
