(* ===== verification/Proxy_Concurrent.thy ===== *)
theory Proxy_Concurrent
  imports Proxy_Claims Reload
begin

text \<open>
  Many requests at once. \<open>net/http\<close> runs every request in a goroutine of its own, and all of them
  share the pool, the backends, the algorithm, the breakers and the metrics; the admin API, the
  health checker and the reload change the same state meanwhile. \<open>Proxy\<close> models one request from
  beginning to end; here the same code is cut into steps, one step per access to shared state (each
  is atomic in the program, by a mutex or an atomic operation), and the steps of any number of
  requests and of the management operations interleave in any order.

  A goroutine is inside nested calls of \<open>ServeHTTP\<close>: the frames, innermost first, are the calls
  whose reverse proxy has not returned, and the control says where the innermost call is.
\<close>

section \<open>One goroutine\<close>

record go_frame =
  framePeer :: ref
  frameContext :: request
  frameAttempts :: int
  frameStart :: instant

datatype control =
    Enter request
  | Filtering request "ref list" "ref list" "ref list" \<comment> \<open>still to check, kept so far, the snapshot\<close>
  | Pinning request "ref list"
  | Choosing request "ref list"
  | Admitting request ref
  | Pinned request ref
  | Counting request ref
  | Gauging request ref
  | Starting request ref
  | Forwarding request ref
  | InFlight request ref nat sent_request
  | Handling request ref string
  | Waiting request ref nat instant
  | Marking request ref string
  | Exporting request ref string "ref option" \<comment> \<open>the backend found and set dead, if any\<close>
  | Blaming request ref string
  | Warning request ref string
  | Returning completion
  | Recording duration
  | Judging duration
  | Logging duration
  | Ungauging completion
  | Uncounting completion

text \<open>The two reports to a backend's breaker, if breakers are on.\<close>

definition blame :: "ref \<Rightarrow> lb_state \<Rightarrow> lb_state" where
  "blame b s =
     (case cbRegistry s of
        None \<Rightarrow> s
      | Some reg \<Rightarrow> s\<lparr>cbRegistry := Some (registry_RecordFailure (now s) (ref_url s b) reg)\<rparr>)"

definition credit :: "ref \<Rightarrow> lb_state \<Rightarrow> lb_state" where
  "credit b s =
     (case cbRegistry s of
        None \<Rightarrow> s
      | Some reg \<Rightarrow> s\<lparr>cbRegistry := Some (registry_RecordSuccess (ref_url s b) reg)\<rparr>)"

text \<open>
  One step, \<open>None\<close> if the goroutine has nothing to do (it is finished) or must wait for its
  timer. The state's \<open>writers\<close>, \<open>status\<close> and \<open>setCookies\<close> are this request's. \<open>MarkBackendStatus\<close> holds
  only a read lock, which does not keep two callers apart, so setting the flag (\<open>Marking\<close>) and the
  gauge (\<open>Exporting\<close>) are two steps. A call on a nil
  registry or a nil proxy panics. The frame pushed by \<open>Starting\<close> stays until the last deferred
  call has run.
\<close>

fun go_step :: "env \<Rightarrow> control \<Rightarrow> go_frame list \<Rightarrow> lb_state \<Rightarrow> (control \<times> go_frame list \<times> lb_state) option"
where
  "go_step e (Enter r) fs s = Some
     (if getAttemptsFromContext r \<ge> MaxBackendSwitches
      then (Returning Done, fs, http_Error StatusServiceUnavailable s)
      else if cbRegistry s = None then (Pinning r (Backends s), fs, s)
      else (Filtering r (Backends s) [] (Backends s), fs, s))"
| "go_step e (Filtering r (b # bs) kept all) fs s = Some
     (case cbRegistry s of
        None \<Rightarrow> (Returning Panicked, fs, s)
      | Some reg \<Rightarrow>
          (case registry_Eligible (now s) (ref_url s b) reg of
             (ok, reg') \<Rightarrow>
               (Filtering r bs (if ok then kept @ [b] else kept) all, fs, s\<lparr>cbRegistry := Some reg'\<rparr>)))"
| "go_step e (Filtering r [] kept all) fs s = Some
     (Pinning r (if length kept > 0 then kept else all), fs, s)"
| "go_step e (Pinning r bs) fs s = Some
     (case sticky_peer s r bs of
        Some peer \<Rightarrow> (Admitting r peer, fs, s)
      | None \<Rightarrow> (Choosing r bs, fs, s))"
| "go_step e (Choosing r bs) fs s = Some
     (case Next (algo s) (heap s) bs of
        (None, a) \<Rightarrow> (Returning Done, fs, http_Error StatusServiceUnavailable (s\<lparr>algo := a\<rparr>))
      | (Some peer, a) \<Rightarrow> (Admitting r peer, fs, s\<lparr>algo := a\<rparr>))"
| "go_step e (Admitting r peer) fs s = Some
     (case admit peer s of
        (False, s') \<Rightarrow> (Enter (next_attempt r), fs, s')
      | (True, s') \<Rightarrow> (Pinned r peer, fs, s'))"
| "go_step e (Pinned r peer) fs s = Some (Counting r peer, fs, set_cookie peer s)"
| "go_step e (Counting r peer) fs s = Some
     (Gauging r peer, fs, s\<lparr>heap := modify peer IncrConns (heap s)\<rparr>)"
| "go_step e (Gauging r peer) fs s = Some
     (Starting r peer, fs, s\<lparr>mets := IncrActiveConns (ref_url s peer) (mets s)\<rparr>)"
| "go_step e (Starting r peer) fs s = Some
     (case getOrCreateRequestID e r s of
        (requestID, s') \<Rightarrow>
          let r' = (if requestIDKey r = None then r\<lparr>requestIDKey := Some requestID\<rparr> else r) in
          (Forwarding r' peer,
           \<lparr>framePeer = peer, frameContext = r', frameAttempts = getAttemptsFromContext r,
            frameStart = now s'\<rparr> # fs,
           s'\<lparr>writers := StatusOK # writers s'\<rparr>))"
| "go_step e (Forwarding r peer) fs s = Some
     (case ReverseProxy (heap s peer) of
        None \<Rightarrow> (Returning Panicked, fs, s)
      | Some t \<Rightarrow>
          let r' = Director t r; q = outgoing t r' in
          (InFlight r' peer (length (sent s)) q, fs, s\<lparr>sent := sent s @ [q]\<rparr>))"
| "go_step e (InFlight r peer n q) fs s = Some
     (case roundtrip e n q of
        Responded code \<Rightarrow> (Returning Done, fs, WriteHeader code s)
      | Aborted code \<Rightarrow> (Returning Panicked, fs, WriteHeader code s)
      | Failed err \<Rightarrow> (Handling r peer err, fs, s))"
| "go_step e (Handling r b err) fs s = Some
     (if getRetryFromContext r < maxRetries \<and> idempotentMethods (Method r)
      then (Waiting r b (waits s) (now s + retry_wait), fs, s\<lparr>waits := Suc (waits s)\<rparr>)
      else (Marking r b err, fs, s))"
| "go_step e (Waiting r b n due) fs s =
     (if \<not> timerFirst e n then Some (Returning Done, fs, s)
      else if now s \<ge> due then Some (Forwarding (next_retry r) b, fs, s)
      else None)"
| "go_step e (Marking r b err) fs s = Some
     (let found = find_url (heap s) (ref_url s b) (backends s) in
      (Exporting r b err found, fs,
       case found of None \<Rightarrow> s | Some x \<Rightarrow> s\<lparr>heap := modify x (SetAlive False) (heap s)\<rparr>))"
| "go_step e (Exporting r b err found) fs s = Some
     (Blaming r b err, fs,
      if found = None then s else s\<lparr>mets := SetBackendUp (ref_url s b) False (mets s)\<rparr>)"
| "go_step e (Blaming r b err) fs s = Some
     (Warning r b err, fs, blame b s)"
| "go_step e (Warning r b err) fs s = Some
     (let s' = s\<lparr>logs := logs s @ [LogBackendDown (ref_url s b) err]\<rparr> in
      if getAttemptsFromContext r < MaxBackendSwitches then (Enter (next_attempt r), fs, s')
      else (Returning Done, fs, http_Error StatusServiceUnavailable s'))"
| "go_step e (Returning Done) (f # fs) s = Some
     (if getAttemptsFromContext (frameContext f) = frameAttempts f
      then Recording (now s - frameStart f) else Logging (now s - frameStart f), f # fs, s)"
| "go_step e (Returning Panicked) (f # fs) s = Some (Ungauging Panicked, f # fs, s)"
| "go_step e (Recording d) (f # fs) s = Some
     (Judging d, f # fs,
      s\<lparr>mets := RecordRequest (ref_url s (framePeer f)) (statusCode s) d (mets s)\<rparr>)"
| "go_step e (Judging d) (f # fs) s = Some
     (Logging d, f # fs, if statusCode s \<ge> 500 then blame (framePeer f) s else credit (framePeer f) s)"
| "go_step e (Logging d) (f # fs) s = Some
     (Ungauging Done, f # fs,
      s\<lparr>logs := logs s @
        [LogRequest (case requestIDKey (frameContext f) of Some rid \<Rightarrow> rid | None \<Rightarrow> [])
           (ref_url s (framePeer f)) (d div 1000000) (statusCode s) (frameAttempts f + 1)]\<rparr>)"
| "go_step e (Ungauging c) (f # fs) s = Some
     (Uncounting c, f # fs, s\<lparr>mets := DecrActiveConns (ref_url s (framePeer f)) (mets s)\<rparr>)"
| "go_step e (Uncounting c) (f # fs) s = Some
     (Returning c, fs, s\<lparr>heap := modify (framePeer f) DecrConns (heap s), writers := tl (writers s)\<rparr>)"
| "go_step e c [] s = None"

text \<open>
  A goroutine: its control, its frames and its own client's side of the response. \<open>ownTrips\<close> and
  \<open>ownWaits\<close> are history: the numbers of the round trips and of the waits it has begun.
\<close>

record goroutine =
  pc :: control
  frames :: "go_frame list"
  ownWriters :: "int list"
  ownStatus :: "int list"
  ownCookies :: "cookie list"
  ownTrips :: "nat list"
  ownWaits :: "nat list"

definition spawn :: "request \<Rightarrow> goroutine" where
  "spawn r = \<lparr>pc = Enter r, frames = [], ownWriters = [], ownStatus = [], ownCookies = [],
     ownTrips = [], ownWaits = []\<rparr>"

definition focus :: "goroutine \<Rightarrow> lb_state \<Rightarrow> lb_state" where
  "focus g s = s\<lparr>writers := ownWriters g, status := ownStatus g, setCookies := ownCookies g\<rparr>"

definition advance :: "env \<Rightarrow> lb_state \<Rightarrow> goroutine \<Rightarrow> (lb_state \<times> goroutine) option" where
  "advance e s g =
     (case go_step e (pc g) (frames g) (focus g s) of
        None \<Rightarrow> None
      | Some (c, fs, s') \<Rightarrow>
          Some (s', \<lparr>pc = c, frames = fs, ownWriters = writers s', ownStatus = status s',
                     ownCookies = setCookies s',
                     ownTrips = ownTrips g @ [length (sent s)..<length (sent s')],
                     ownWaits = ownWaits g @ [waits s..<waits s']\<rparr>))"

definition finished :: "goroutine \<Rightarrow> bool" where
  "finished g \<longleftrightarrow> frames g = [] \<and> (\<exists>c. pc g = Returning c)"

section \<open>The system\<close>

text \<open>
  Beside the requests, what the rest of the program does to the same state: the health checker, the
  admin API and the reload set liveness, report it, add a configured backend, remove one, change a
  weight or swap the algorithm. A handler of theirs is a sequence of these, each atomic
  (\<open>MarkBackendStatus\<close> is \<open>SetUp\<close> and then \<open>Report\<close>). Time passes between any two steps.
\<close>

datatype management =
    SetUp ref bool
  | Report string bool
  | Register url int
  | Unregister string
  | Reweigh ref int
  | SwapAlgorithm algorithm

fun manage :: "management \<Rightarrow> lb_state \<Rightarrow> lb_state" where
  "manage (SetUp x v) s = s\<lparr>heap := modify x (SetAlive v) (heap s)\<rparr>"
| "manage (Report u v) s = s\<lparr>mets := SetBackendUp u v (mets s)\<rparr>"
| "manage (Register u w) s = register (configured u w) s"
| "manage (Unregister u) s = snd (Remove u s)"
| "manage (Reweigh x w) s = s\<lparr>heap := modify x (SetWeight w) (heap s)\<rparr>"
| "manage (SwapAlgorithm a) s = SetAlgorithm a s"

record system =
  shared :: lb_state
  gos :: "goroutine list"

datatype event = Arrive request | Move nat | Pass duration | Manage management

fun perform :: "env \<Rightarrow> event \<Rightarrow> system \<Rightarrow> system option" where
  "perform e (Arrive r) y =
     (if fresh_request r then Some (y\<lparr>gos := gos y @ [spawn r]\<rparr>) else None)"
| "perform e (Move i) y =
     (if i < length (gos y) then
        (case advance e (shared y) (gos y ! i) of
           None \<Rightarrow> None
         | Some (s', g') \<Rightarrow> Some (y\<lparr>shared := s', gos := (gos y)[i := g']\<rparr>))
      else None)"
| "perform e (Pass d) y =
     (if 0 \<le> d then Some (y\<lparr>shared := (shared y)\<lparr>now := now (shared y) + d\<rparr>\<rparr>) else None)"
| "perform e (Manage m) y = Some (y\<lparr>shared := manage m (shared y)\<rparr>)"

fun schedule :: "env \<Rightarrow> event list \<Rightarrow> system \<Rightarrow> system option" where
  "schedule e [] y = Some y"
| "schedule e (ev # evs) y = Option.bind (perform e ev y) (schedule e evs)"

lemma schedule_append: "schedule e (xs @ ys) y = Option.bind (schedule e xs y) (schedule e ys)"
  by (induction xs arbitrary: y) (simp_all, metis (no_types, lifting) Option.bind_cong bind_assoc)

section \<open>A request on its own\<close>

text \<open>
  With no other request and no management the steps of a goroutine amount to the functions of
  \<open>Proxy\<close>: \<open>solo\<close> takes a step of the goroutine or lets time pass.
\<close>

inductive solo :: "env \<Rightarrow> control \<times> go_frame list \<times> lb_state \<Rightarrow> control \<times> go_frame list \<times> lb_state \<Rightarrow> bool"
  for e where
  step: "go_step e c fs s = Some x \<Longrightarrow> solo e (c, fs, s) x"
| pass: "0 \<le> d \<Longrightarrow> solo e (c, fs, s) (c, fs, s\<lparr>now := now s + d\<rparr>)"

abbreviation solos :: "env \<Rightarrow> control \<times> go_frame list \<times> lb_state \<Rightarrow> control \<times> go_frame list \<times> lb_state \<Rightarrow> bool"
  where "solos e \<equiv> (solo e)\<^sup>*\<^sup>*"

lemma solos_step:
  assumes "go_step e c fs s = Some x" and "solos e x z"
  shows "solos e (c, fs, s) z"
  using solo.step [OF assms(1)] assms(2) by (rule converse_rtranclp_into_rtranclp)

lemma solos_run: "(\<And>x. go_step e c fs s = Some x \<Longrightarrow> solos e x z) \<Longrightarrow>
    go_step e c fs s \<noteq> None \<Longrightarrow> solos e (c, fs, s) z"
  by (cases "go_step e c fs s") (auto intro: solos_step)

lemma solos_pass:
  assumes "0 \<le> d" and "solos e (c, fs, s\<lparr>now := now s + d\<rparr>) z"
  shows "solos e (c, fs, s) z"
  using solo.pass [OF assms(1)] assms(2) by (rule converse_rtranclp_into_rtranclp)

lemma solos_trans: "solos e x y \<Longrightarrow> solos e y z \<Longrightarrow> solos e x z"
  by (rule rtranclp_trans)

lemma solos_filter:
  assumes "cbRegistry s = Some reg" and "eligible_loop (now s) (heap s) bs reg = (ok, reg')"
  shows "solos e (Filtering r bs kept all, fs, s)
     (Pinning r (if length (kept @ ok) > 0 then kept @ ok else all), fs, s\<lparr>cbRegistry := Some reg'\<rparr>)"
  using assms
proof (induction bs arbitrary: s reg kept ok)
  case Nil
  have "s\<lparr>cbRegistry := cbRegistry s\<rparr> = s" by simp
  then have same: "s\<lparr>cbRegistry := Some reg'\<rparr> = s" using Nil by simp
  show ?case unfolding same using Nil by (intro solos_step) auto
next
  case (Cons b bs)
  obtain g reg1 where g: "registry_Eligible (now s) (ref_url s b) reg = (g, reg1)" by fastforce
  obtain ok1 reg2 where l: "eligible_loop (now s) (heap s) bs reg1 = (ok1, reg2)" by fastforce
  let ?s = "s\<lparr>cbRegistry := Some reg1\<rparr>" and ?k = "if g then kept @ [b] else kept"
  have eq: "ok = (if g then b # ok1 else ok1)" "reg' = reg2" using Cons.prems(2) g l by auto
  have "solos e (Filtering r bs ?k all, fs, ?s)
      (Pinning r (if length (?k @ ok1) > 0 then ?k @ ok1 else all), fs, ?s\<lparr>cbRegistry := Some reg'\<rparr>)"
    using l eq by (intro Cons.IH) simp_all
  moreover have "go_step e (Filtering r (b # bs) kept all) fs s = Some (Filtering r bs ?k all, fs, ?s)"
    using Cons.prems(1) g by simp
  ultimately have "solos e (Filtering r (b # bs) kept all, fs, s)
      (Pinning r (if length (?k @ ok1) > 0 then ?k @ ok1 else all), fs, ?s\<lparr>cbRegistry := Some reg'\<rparr>)"
    by (rule solos_step [rotated])
  moreover have "?k @ ok1 = kept @ ok" using eq by simp
  ultimately show ?case by (metis (no_types, lifting) lb_state.update_convs(2) lb_state.surjective)
qed

lemma solos_candidates:
  assumes "getAttemptsFromContext r < MaxBackendSwitches" and "candidates s = (bs, s0)"
  shows "solos e (Enter r, fs, s) (Pinning r bs, fs, s0)"
proof (cases "cbRegistry s")
  case None
  with assms show ?thesis by (intro solos_step [of e "Enter r"]) (auto simp: candidates_def Let_def)
next
  case (Some reg)
  obtain ok reg' where l: "eligible_loop (now s) (heap s) (Backends s) reg = (ok, reg')" by fastforce
  have "go_step e (Enter r) fs s = Some (Filtering r (Backends s) [] (Backends s), fs, s)"
    using Some assms(1) by simp
  moreover have eq: "(if length ([] @ ok) > 0 then [] @ ok else Backends s) = bs"
      "s\<lparr>cbRegistry := Some reg'\<rparr> = s0"
    using Some l assms(2) by (auto simp: candidates_def Let_def)
  have "solos e (Filtering r (Backends s) [] (Backends s), fs, s) (Pinning r bs, fs, s0)"
    using solos_filter [OF Some l, of e r "[]" "Backends s" fs] by (simp only: eq)
  ultimately show ?thesis by (rule solos_step)
qed

lemma solos_select:
  assumes "getAttemptsFromContext r < MaxBackendSwitches" and "select_peer s r = (p, s1)"
  shows "solos e (Enter r, fs, s)
    (case p of None \<Rightarrow> (Returning Done, fs, http_Error StatusServiceUnavailable s1)
       | Some peer \<Rightarrow> (Admitting r peer, fs, s1))"
proof -
  obtain bs s0 where c: "candidates s = (bs, s0)" by fastforce
  have "solos e (Pinning r bs, fs, s0)
    (case p of None \<Rightarrow> (Returning Done, fs, http_Error StatusServiceUnavailable s1)
       | Some peer \<Rightarrow> (Admitting r peer, fs, s1))"
  proof (cases "sticky_peer s0 r bs")
    case None
    obtain q a where n: "Next (algo s0) (heap s0) bs = (q, a)" by fastforce
    with None c assms have "p = q" "s1 = s0\<lparr>algo := a\<rparr>" by (simp_all add: select_peer_def)
    then show ?thesis
      using None n by (cases q)
        (simp_all add: solos_step [OF _ solos_step [OF _ rtranclp.rtrancl_refl]])
  next
    case (Some peer)
    with c assms have "p = Some peer" "s1 = s0" by (simp_all add: select_peer_def)
    with Some show ?thesis by (simp add: solos_step [OF _ rtranclp.rtrancl_refl])
  qed
  with solos_candidates [OF assms(1) c] show ?thesis by (rule solos_trans)
qed

lemma solos_begin:
  assumes "admit peer s1 = (True, s2)" and "begin_attempt e peer r s2 = (r', s3)"
  shows "solos e (Admitting r peer, fs, s1)
    (Forwarding r' peer, \<lparr>framePeer = peer, frameContext = r',
       frameAttempts = getAttemptsFromContext r, frameStart = now s3\<rparr> # fs, s3)"
proof -
  let ?sc = "set_cookie peer s2" 
  let ?si = "?sc\<lparr>heap := modify peer IncrConns (heap ?sc)\<rparr>"
  let ?sa = "?si\<lparr>mets := IncrActiveConns (ref_url ?si peer) (mets ?si)\<rparr>"
  have acq: "?sa = acquire peer ?sc" by (simp add: acquire_def modify_apply accessor_fields)
  obtain rid s' where g: "getOrCreateRequestID e r (acquire peer ?sc) = (rid, s')" by fastforce
  with assms(2) have r': "r' = (if requestIDKey r = None then r\<lparr>requestIDKey := Some rid\<rparr> else r)"
    and s3: "s3 = s'\<lparr>writers := StatusOK # writers s'\<rparr>"
    by (simp_all add: begin_attempt_def)
  have last: "go_step e (Starting r peer) fs ?sa = Some
    (Forwarding r' peer, \<lparr>framePeer = peer, frameContext = r',
       frameAttempts = getAttemptsFromContext r, frameStart = now s3\<rparr> # fs, s3)"
    unfolding acq using g r' s3 by (simp add: Let_def)
  have st: "go_step e (Admitting r peer) fs s1 = Some (Pinned r peer, fs, s2)"
    "go_step e (Pinned r peer) fs s2 = Some (Counting r peer, fs, ?sc)"
    "go_step e (Counting r peer) fs ?sc = Some (Gauging r peer, fs, ?si)"
    "go_step e (Gauging r peer) fs ?si = Some (Starting r peer, fs, ?sa)"
    using assms(1) by simp_all
  show ?thesis
    by (intro st [THEN solos_step] last [THEN solos_step] rtranclp.rtrancl_refl)
qed

lemma solos_finish:
  "solos e (Returning Panicked, f # fs, s) (Returning Panicked, fs, release (framePeer f) s)"
  "solos e (Returning Done, f # fs, s)
     (Returning Done, fs, finish_attempt (framePeer f) (frameAttempts f) (frameStart f) (frameContext f) s)"
proof -
  let ?p = "framePeer f" and ?d = "now s - frameStart f"
  let ?g = "\<lambda>s. s\<lparr>mets := DecrActiveConns (ref_url s ?p) (mets s)\<rparr>"
  let ?u = "\<lambda>s. s\<lparr>heap := modify ?p DecrConns (heap s), writers := tl (writers s)\<rparr>"
  have rel: "?u (?g s') = release ?p s'" for s' :: lb_state by (simp add: release_def)
  have st: "go_step e (Ungauging c) (f # fs) s' = Some (Uncounting c, f # fs, ?g s')"
    "go_step e (Uncounting c) (f # fs) s' = Some (Returning c, fs, ?u s')" for c s' by simp_all
  have end_run: "solos e (Ungauging c, f # fs, s') (Returning c, fs, release ?p s')" for c s'
    unfolding rel [symmetric] by (intro st [THEN solos_step] rtranclp.rtrancl_refl)
  then show "solos e (Returning Panicked, f # fs, s) (Returning Panicked, fs, release ?p s)"
    by (intro solos_step [of e "Returning Panicked" "f # fs"]) simp_all
  let ?l = "\<lambda>s. s\<lparr>logs := logs s @
     [LogRequest (case requestIDKey (frameContext f) of Some rid \<Rightarrow> rid | None \<Rightarrow> [])
        (ref_url s ?p) (?d div 1000000) (statusCode s) (frameAttempts f + 1)]\<rparr>"
  have lg: "solos e (Logging ?d, f # fs, s') (Returning Done, fs, release ?p (?l s'))" for s'
    using end_run by (intro solos_step [of e "Logging ?d" "f # fs"]) simp_all
  let ?m = "s\<lparr>mets := RecordRequest (ref_url s ?p) (statusCode s) ?d (mets s)\<rparr>"
  have rec: "solos e (Recording ?d, f # fs, s) (Returning Done, fs, release ?p (?l (record_outcome_of ?p ?d s)))"
  proof -
    have "go_step e (Recording ?d) (f # fs) s = Some (Judging ?d, f # fs, ?m)" by simp
    moreover have "go_step e (Judging ?d) (f # fs) ?m = Some (Logging ?d, f # fs, record_outcome_of ?p ?d s)"
      by (simp add: record_outcome_of_def Let_def statusCode_def blame_def credit_def split: option.split)
    ultimately show ?thesis using lg by (blast intro: solos_step)
  qed
  let ?t = "if getAttemptsFromContext (frameContext f) = frameAttempts f then record_outcome_of ?p ?d s else s"
  have "finish_attempt ?p (frameAttempts f) (frameStart f) (frameContext f) s = release ?p (?l ?t)"
    by (simp add: finish_attempt_def Let_def)
  moreover have "go_step e (Returning Done) (f # fs) s = Some
      (if getAttemptsFromContext (frameContext f) = frameAttempts f then Recording ?d else Logging ?d, f # fs, s)"
    by simp
  ultimately show "solos e (Returning Done, f # fs, s)
     (Returning Done, fs, finish_attempt ?p (frameAttempts f) (frameStart f) (frameContext f) s)"
    using lg rec by (auto intro: solos_step split: if_splits)
qed

lemma solos_send:
  assumes "0 \<le> latency e (length (sent s))" and "ReverseProxy (heap s peer) = Some t"
    and "q = outgoing t (Director t r)"
    and "go_step e (InFlight (Director t r) peer (length (sent s)) q) fs (send e q s) = Some x"
    and "solos e x z"
  shows "solos e (Forwarding r peer, fs, s) z"
proof -
  let ?s = "s\<lparr>sent := sent s @ [q]\<rparr>"
  have "go_step e (Forwarding r peer) fs s = Some (InFlight (Director t r) peer (length (sent s)) q, fs, ?s)"
    using assms(2,3) by (simp add: Let_def)
  moreover have "?s\<lparr>now := now ?s + latency e (length (sent s))\<rparr> = send e q s"
    by (simp add: send_def)
  with solos_step [OF assms(4,5)]
  have "solos e (InFlight (Director t r) peer (length (sent s)) q, fs,
      ?s\<lparr>now := now ?s + latency e (length (sent s))\<rparr>) z" by (simp only:)
  then have "solos e (InFlight (Director t r) peer (length (sent s)) q, fs, ?s) z"
    by (rule solos_pass [OF assms(1)])
  ultimately show ?thesis by (rule solos_step)
qed

lemma solos_wait:
  assumes "getRetryFromContext r < maxRetries" and "idempotentMethods (Method r)"
  shows "timerFirst e (waits s) \<Longrightarrow> solos e (Handling r b err, fs, s) (Forwarding (next_retry r) b, fs, wait_retry s)"
    and "\<not> timerFirst e (waits s) \<Longrightarrow> solos e (Handling r b err, fs, s) (Returning Done, fs, wait_cancelled s)"
proof -
  let ?w = "Waiting r b (waits s) (now s + retry_wait)"
  have h: "go_step e (Handling r b err) fs s = Some (?w, fs, wait_cancelled s)"
    using assms by (simp add: wait_cancelled_def)
  have eq: "(wait_cancelled s)\<lparr>now := now (wait_cancelled s) + retry_wait\<rparr> = wait_retry s"
    by (simp add: wait_cancelled_def wait_retry_def)
  { assume t: "timerFirst e (waits s)"
    have "go_step e ?w fs (wait_retry s) = Some (Forwarding (next_retry r) b, fs, wait_retry s)"
      using t by (simp add: wait_retry_def)
    then have "solos e (?w, fs, (wait_cancelled s)\<lparr>now := now (wait_cancelled s) + retry_wait\<rparr>)
        (Forwarding (next_retry r) b, fs, wait_retry s)"
      unfolding eq by (intro solos_step) auto
    from solos_pass [OF _ this] show "solos e (Handling r b err, fs, s) (Forwarding (next_retry r) b, fs, wait_retry s)"
      by (intro solos_step [OF h]) (simp add: retry_wait_def) }
  { assume t: "\<not> timerFirst e (waits s)"
    then have "go_step e ?w fs (wait_cancelled s) = Some (Returning Done, fs, wait_cancelled s)" by simp
    then show "solos e (Handling r b err, fs, s) (Returning Done, fs, wait_cancelled s)"
      by (intro solos_step [OF h] solos_step [of e ?w]) auto }
qed

lemma solos_give_up:
  assumes "\<not> (getRetryFromContext r < maxRetries \<and> idempotentMethods (Method r))"
  shows "solos e (Handling r b err, fs, s)
    (if getAttemptsFromContext r < MaxBackendSwitches then (Enter (next_attempt r), fs, give_up b err s)
     else (Returning Done, fs, http_Error StatusServiceUnavailable (give_up b err s)))"
proof -
  let ?m = "MarkBackendStatus (URL (heap s b)) False s"
  let ?f = "find_url (heap s) (ref_url s b) (backends s)"
  let ?h = "case ?f of None \<Rightarrow> s | Some x \<Rightarrow> s\<lparr>heap := modify x (SetAlive False) (heap s)\<rparr>"
  let ?b = "blame b ?m"
  have url: "ref_url ?b b = ref_url s b" and logs: "logs ?b = logs s"
    by (simp_all add: frame_simps blame_def split: option.split)
  have eq: "?b\<lparr>logs := logs ?b @ [LogBackendDown (ref_url ?b b) err]\<rparr> = give_up b err s"
    unfolding url by (simp add: give_up_def Let_def blame_def frame_simps split: option.split)
  have st: "go_step e (Handling r b err) fs s = Some (Marking r b err, fs, s)"
    "go_step e (Marking r b err) fs s = Some (Exporting r b err ?f, fs, ?h)"
    "go_step e (Exporting r b err ?f) fs ?h = Some (Blaming r b err, fs, ?m)"
    "go_step e (Blaming r b err) fs ?m = Some (Warning r b err, fs, ?b)"
    using assms by (auto simp: MarkBackendStatus_def Let_def heap_simps split: option.split)
  have "go_step e (Warning r b err) fs ?b = Some
     (if getAttemptsFromContext r < MaxBackendSwitches then (Enter (next_attempt r), fs, give_up b err s)
      else (Returning Done, fs, http_Error StatusServiceUnavailable (give_up b err s)))"
    by (simp add: Let_def eq)
  note last = solos_step [OF this rtranclp.rtrancl_refl]
  show ?thesis by (intro st [THEN solos_step] last)
qed

lemma serve_solos:
  "(\<And>n. 0 \<le> latency e n) \<Longrightarrow>
     \<forall>fs. solos e (Enter r, fs, s) (Returning (snd (ServeHTTP e s r)), fs, fst (ServeHTTP e s r))"
  "(\<And>n. 0 \<le> latency e' n) \<Longrightarrow>
     \<forall>fs. solos e' (Forwarding r' peer, fs, s')
       (Returning (snd (proxy_ServeHTTP e' peer s' r')), fs, fst (proxy_ServeHTTP e' peer s' r'))"
  "(\<And>n. 0 \<le> latency e'' n) \<Longrightarrow>
     \<forall>fs. solos e'' (Handling r'' b err, fs, s'')
       (Returning (snd (error_handler e'' b err s'' r'')), fs, fst (error_handler e'' b err s'' r''))"
proof (induction e s r and e' peer s' r' and e'' b err s'' r'' rule: serve_induct)
  case (exhausted e s r)
  then have "go_step e (Enter r) fs s = Some (Returning Done, fs, http_Error StatusServiceUnavailable s)" for fs
    by simp
  with exhausted show ?case by (auto simp: ServeHTTP_exhausted intro: solos_step)
next
  case (no_peer e s r s1)
  show ?case using solos_select [OF no_peer(1,2)] by (simp add: ServeHTTP_no_peer [OF no_peer(1,2)])
next
  case (refused e s r peer s1 s2)
  have "go_step e (Admitting r peer) fs s1 = Some (Enter (next_attempt r), fs, s2)" for fs
    using refused(3) by simp
  then have "solos e (Admitting r peer, fs, s1)
      (Returning (snd (ServeHTTP e s2 (next_attempt r))), fs, fst (ServeHTTP e s2 (next_attempt r)))" for fs
    using refused(4) [OF refused(5)] by (blast intro: solos_step)
  then show ?case
    using solos_select [OF refused(1,2), of e] ServeHTTP_refused [OF refused(1-3), of e]
    by (auto intro: solos_trans)
next
  case (attempt e s r peer s1 s2 r' s3 s4 c)
  let ?f = "\<lparr>framePeer = peer, frameContext = r', frameAttempts = getAttemptsFromContext r, frameStart = now s3\<rparr>"
  have in_: "solos e (Enter r, fs, s) (Forwarding r' peer, ?f # fs, s3)" for fs
    using solos_select [OF attempt(1,2), of e fs] solos_begin [OF attempt(3,4), of fs]
    by (auto intro: solos_trans)
  have run: "solos e (Forwarding r' peer, ?f # fs, s3) (Returning c, ?f # fs, s4)" for fs
    using attempt(6) [OF attempt(7)] attempt(5) by simp
  have out: "solos e (Returning c, ?f # fs, s4)
      (Returning c, fs, fst (ServeHTTP e s r))" for fs
    using solos_finish [of e ?f fs s4] ServeHTTP_attempt [OF attempt(1-5)] by (cases c) simp_all
  have "snd (ServeHTTP e s r) = c" using ServeHTTP_attempt [OF attempt(1-5)] by simp
  with in_ run out show ?case by (metis (no_types, lifting) solos_trans)
next
  case (nil e peer s r)
  then have "go_step e (Forwarding r peer) fs s = Some (Returning Panicked, fs, s)" for fs by simp
  with nil show ?case by (auto simp: proxy_nil intro: solos_step)
next
  case (responded e peer s r t q code)
  have "go_step e (InFlight (Director t r) peer (length (sent s)) q) fs (send e q s) =
      Some (Returning Done, fs, WriteHeader code (send e q s))" for fs
    using responded(3) by simp
  with responded show ?case
    by (auto simp: proxy_responded intro: solos_send [OF _ responded(1,2)])
next
  case (aborted e peer s r t q code)
  have "go_step e (InFlight (Director t r) peer (length (sent s)) q) fs (send e q s) =
      Some (Returning Panicked, fs, WriteHeader code (send e q s))" for fs
    using aborted(3) by simp
  with aborted show ?case
    by (auto simp: proxy_aborted intro: solos_send [OF _ aborted(1,2)])
next
  case (failed e peer s r t q err)
  have "go_step e (InFlight (Director t r) peer (length (sent s)) q) fs (send e q s) =
      Some (Handling (Director t r) peer err, fs, send e q s)" for fs
    using failed(3) by simp
  with failed show ?case
    by (auto simp: proxy_failed intro: solos_send [OF _ failed(1,2)])
next
  case (retry e b err s r)
  show ?case
    using solos_wait(1) [OF retry(1-3)] retry(4) [OF retry(5)]
    unfolding handler_retry [OF retry(1-3)] by (blast intro: solos_trans)
next
  case (cancelled e b err s r)
  show ?case using solos_wait(2) [OF cancelled(1-3)] by (simp add: handler_cancelled [OF cancelled(1-3)])
next
  case (switch e b err s r)
  show ?case
    using solos_give_up [OF switch(1), of e b err _ s] switch(2) switch(3) [OF switch(4)]
    by (auto simp: handler_switch [OF switch(1,2)] intro: solos_trans)
next
  case (give_up e b err s r)
  show ?case
    using solos_give_up [OF give_up(1), of e b err _ s] give_up(2)
    by (simp add: handler_exhausted [OF give_up(1,2)])
qed

text \<open>The system with this one goroutine.\<close>

definition goroutine_at :: "lb_state \<Rightarrow> control \<Rightarrow> go_frame list \<Rightarrow> lb_state \<Rightarrow> goroutine" where
  "goroutine_at s0 c fs s =
     \<lparr>pc = c, frames = fs, ownWriters = writers s, ownStatus = status s, ownCookies = setCookies s,
      ownTrips = [length (sent s0)..<length (sent s)], ownWaits = [waits s0..<waits s]\<rparr>"

fun alone :: "lb_state \<Rightarrow> control \<times> go_frame list \<times> lb_state \<Rightarrow> system" where
  "alone s0 (c, fs, s) = \<lparr>shared = s, gos = [goroutine_at s0 c fs s]\<rparr>"

fun lone_event :: "event \<Rightarrow> bool" where
  "lone_event (Move i) \<longleftrightarrow> i = 0"
| "lone_event (Pass d) \<longleftrightarrow> True"
| "lone_event ev \<longleftrightarrow> False"

text \<open>The counters of round trips and waits only grow.\<close>

definition later :: "lb_state \<Rightarrow> lb_state \<Rightarrow> bool" where
  "later s t \<longleftrightarrow> length (sent s) \<le> length (sent t) \<and> waits s \<le> waits t"

lemma admit_counters: "admit p s = (ok, s') \<Longrightarrow> sent s' = sent s \<and> waits s' = waits s"
  using admit_fields(7,12) [of p s] by simp

lemma counters [frame_simps]:
  "sent (blame b s) = sent s" "sent (credit b s) = sent s" "sent (set_cookie b s) = sent s"
  "sent (snd (getOrCreateRequestID e r s)) = sent s"
  "waits (blame b s) = waits s" "waits (credit b s) = waits s" "waits (set_cookie b s) = waits s"
  "waits (snd (getOrCreateRequestID e r s)) = waits s"
  by (auto simp: blame_def credit_def set_cookie_def getOrCreateRequestID_def Let_def split: option.splits)

lemma go_step_later: "go_step e c fs s = Some (c', fs', s') \<Longrightarrow> later s s'"
  by (induction e c fs s rule: go_step.induct)
    (auto simp: later_def Let_def http_Error_def WriteHeader_def frame_simps case_prod_unfold
      dest: admit_counters split: option.splits outcome.splits if_splits prod.splits bool.splits)

lemma focus_goroutine_at [simp]: "focus (goroutine_at s0 c fs s) s = s"
  by (simp add: focus_def goroutine_at_def)

lemma goroutine_at_fields [simp]: "pc (goroutine_at s0 c fs s) = c" "frames (goroutine_at s0 c fs s) = fs"
  by (simp_all add: goroutine_at_def)

lemma upt_trans: "a \<le> b \<Longrightarrow> b \<le> c \<Longrightarrow> [a..<b] @ [b..<c] = [a..<c]"
  by (metis le_Suc_ex upt_add_eq_append)

lemma advance_goroutine_at:
  "go_step e c fs s = Some (c', fs', s') \<Longrightarrow> later s0 s \<Longrightarrow>
   advance e s (goroutine_at s0 c fs s) = Some (s', goroutine_at s0 c' fs' s')"
  using go_step_later [of e c fs s c' fs' s']
  by (simp add: advance_def) (simp add: goroutine_at_def later_def upt_trans)

lemma solo_later:
  assumes "solo e x y" and "later s0 (snd (snd x))"
  shows "later s0 (snd (snd y))"
  using assms by (cases; cases y) (auto simp: later_def dest!: go_step_later)

lemma solo_event:
  assumes "solo e x y" and "later s0 (snd (snd x))"
  shows "\<exists>ev. lone_event ev \<and> perform e ev (alone s0 x) = Some (alone s0 y)"
  using assms
proof cases
  case (step c fs s)
  obtain c' fs' s' where y: "y = (c', fs', s')" by (cases y)
  with step assms(2) have "perform e (Move 0) (alone s0 x) = Some (alone s0 y)" by (simp add: advance_goroutine_at)
  then show ?thesis by (intro exI [of _ "Move 0"]) simp
next
  case (pass d c fs s)
  then have "perform e (Pass d) (alone s0 x) = Some (alone s0 y)" by (simp add: goroutine_at_def)
  then show ?thesis by (intro exI [of _ "Pass d"]) simp
qed

lemma solos_schedule:
  "solos e x y \<Longrightarrow> later s0 (snd (snd x)) \<Longrightarrow>
   \<exists>evs. list_all lone_event evs \<and> schedule e evs (alone s0 x) = Some (alone s0 y)"
proof (induction rule: converse_rtranclp_induct)
  case base
  show ?case by (intro exI [of _ "[]"]) simp
next
  case (step x z)
  from solo_event [OF step(1,4)] obtain ev where
    ev: "lone_event ev" "perform e ev (alone s0 x) = Some (alone s0 z)" by blast
  from step.IH [OF solo_later [OF step(1,4)]] obtain evs where
    "list_all lone_event evs" "schedule e evs (alone s0 z) = Some (alone s0 y)" by blast
  with ev show ?case by (intro exI [of _ "ev # evs"]) simp
qed

text \<open>
  The sequential model and the concurrent one agree. When a request runs with no other beside it and
  time passes in its round trips and waits as \<open>env\<close> says, the schedule takes the system from the
  request's arrival to a finished goroutine, and leaves the shared state, the response and the way it
  ended (return or panic) exactly as \<open>ServeHTTP\<close> says.
\<close>

lemma lone_request_runs_ServeHTTP:
  assumes "fresh_request r" and "\<And>n. 0 \<le> latency e n"
    and "writers s = []" and "status s = []" and "setCookies s = []"
  shows "\<exists>evs. list_all lone_event evs \<and>
    schedule e (Arrive r # evs) \<lparr>shared = s, gos = []\<rparr> =
      Some \<lparr>shared = fst (ServeHTTP e s r),
            gos = [goroutine_at s (Returning (snd (ServeHTTP e s r))) [] (fst (ServeHTTP e s r))]\<rparr>"
proof -
  have "solos e (Enter r, [], s) (Returning (snd (ServeHTTP e s r)), [], fst (ServeHTTP e s r))"
    using serve_solos(1) [OF assms(2)] by blast
  moreover have "later s (snd (snd (Enter r, [] :: go_frame list, s)))" by (simp add: later_def)
  ultimately obtain evs where "list_all lone_event evs"
    "schedule e evs (alone s (Enter r, [], s)) =
      Some (alone s (Returning (snd (ServeHTTP e s r)), [], fst (ServeHTTP e s r)))"
    using solos_schedule [of e "(Enter r, [], s)" _ s] by blast
  moreover have "spawn r = goroutine_at s (Enter r) [] s" using assms(3-5) by (simp add: spawn_def goroutine_at_def)
  ultimately show ?thesis using assms(1) by (intro exI [of _ evs]) simp
qed

end
