(* ===== verification/Proxy_Interleaved.thy ===== *)
theory Proxy_Interleaved
  imports Proxy_Concurrent
begin

text \<open>
  What every interleaving of requests and management keeps: the invariant of the load balancer and
  of each goroutine (\<open>sound\<close>), the counting of open connections (\<open>counts_right\<close>), and the
  invariants of breakers and metrics (\<open>records_ok\<close>). Each is shown of one step of one goroutine by
  going through the equations of \<open>go_step\<close>, then of an event, then of any schedule.
\<close>

section \<open>What a step leaves alone\<close>

lemma blame_fields [frame_simps]:
  "heap (blame b s) = heap s" "backends (blame b s) = backends s" "fresh (blame b s) = fresh s"
  "mets (blame b s) = mets s" "sticky (blame b s) = sticky s" "algo (blame b s) = algo s"
  "status (blame b s) = status s" "writers (blame b s) = writers s" "now (blame b s) = now s"
  "cbRegistry (blame b s) = map_option (registry_RecordFailure (now s) (ref_url s b)) (cbRegistry s)"
  by (simp_all add: blame_def split: option.split)

lemma credit_fields [frame_simps]:
  "heap (credit b s) = heap s" "backends (credit b s) = backends s" "fresh (credit b s) = fresh s"
  "mets (credit b s) = mets s" "sticky (credit b s) = sticky s" "algo (credit b s) = algo s"
  "status (credit b s) = status s" "writers (credit b s) = writers s" "now (credit b s) = now s"
  "cbRegistry (credit b s) = map_option (registry_RecordSuccess (ref_url s b)) (cbRegistry s)"
  by (simp_all add: credit_def split: option.split)

lemma set_cookie_fields [frame_simps]:
  "heap (set_cookie b s) = heap s" "backends (set_cookie b s) = backends s" "fresh (set_cookie b s) = fresh s"
  "mets (set_cookie b s) = mets s" "sticky (set_cookie b s) = sticky s" "algo (set_cookie b s) = algo s"
  "status (set_cookie b s) = status s" "writers (set_cookie b s) = writers s"
  "cbRegistry (set_cookie b s) = cbRegistry s" "now (set_cookie b s) = now s"
  by (simp_all add: set_cookie_def split: option.split)

lemma request_id_fields [frame_simps]:
  "heap (snd (getOrCreateRequestID e r s)) = heap s" "backends (snd (getOrCreateRequestID e r s)) = backends s"
  "fresh (snd (getOrCreateRequestID e r s)) = fresh s" "mets (snd (getOrCreateRequestID e r s)) = mets s"
  "sticky (snd (getOrCreateRequestID e r s)) = sticky s" "algo (snd (getOrCreateRequestID e r s)) = algo s"
  "status (snd (getOrCreateRequestID e r s)) = status s" "writers (snd (getOrCreateRequestID e r s)) = writers s"
  "cbRegistry (snd (getOrCreateRequestID e r s)) = cbRegistry s" "now (snd (getOrCreateRequestID e r s)) = now s"
  by (auto simp: getOrCreateRequestID_def Let_def split: option.split)

lemma Name_Next_of: "Next a h bs = (p, a') \<Longrightarrow> Name a' = Name a"
  using Name_Next [of a h bs] by simp

lemma same_heap_frames:
  "heap t = heap s \<and> backends t = backends s \<and> fresh t = fresh s \<and> sticky t = sticky s \<and>
   Name (algo t) = Name (algo s) \<and> (cbRegistry t = None) = (cbRegistry s = None) \<and>
   enabled (mets t) = enabled (mets s) \<Longrightarrow> serve_frame s t"
  by (simp add: serve_frame_same_heap)

lemma admit_frame: "admit peer s = (ok, s') \<Longrightarrow> serve_frame s s'"
  using frame.S_admit [of s peer] by simp

lemma go_step_frame: "go_step e c fs s = Some (c', fs', s') \<Longrightarrow> serve_frame s s'"
proof (induction e c fs s rule: go_step.induct)
  case 1
  then show ?case by - (rule same_heap_frames, auto simp: frame_simps http_Error_def Let_def case_prod_unfold split: option.splits bool.splits outcome.splits if_splits)
next
  case 2
  then show ?case by - (rule same_heap_frames, auto simp: frame_simps http_Error_def Let_def case_prod_unfold split: option.splits bool.splits outcome.splits if_splits)
next
  case 3
  then show ?case by - (rule same_heap_frames, auto simp: frame_simps http_Error_def Let_def case_prod_unfold split: option.splits bool.splits outcome.splits if_splits)
next
  case 4
  then show ?case by - (rule same_heap_frames, auto simp: frame_simps http_Error_def Let_def case_prod_unfold split: option.splits bool.splits outcome.splits if_splits)
next
  case 5
  then show ?case using Name_Next by - (rule same_heap_frames, auto simp: frame_simps http_Error_def case_prod_unfold split: option.splits prod.splits)
next
  case 6
  then show ?case using admit_frame by (auto split: prod.splits bool.splits)
next
  case 7
  then show ?case by - (rule same_heap_frames, auto simp: frame_simps http_Error_def Let_def case_prod_unfold split: option.splits bool.splits outcome.splits if_splits)
next
  case 8
  then show ?case by (auto simp: serve_frame_def heap_simps modify_apply split: if_splits)
next
  case 9
  then show ?case by - (rule same_heap_frames, auto simp: frame_simps http_Error_def Let_def case_prod_unfold split: option.splits bool.splits outcome.splits if_splits)
next
  case 10
  then show ?case by - (rule same_heap_frames, auto simp: frame_simps http_Error_def Let_def case_prod_unfold split: option.splits bool.splits outcome.splits if_splits)
next
  case 11
  then show ?case by - (rule same_heap_frames, auto simp: frame_simps http_Error_def Let_def case_prod_unfold split: option.splits bool.splits outcome.splits if_splits)
next
  case 12
  then show ?case by - (rule same_heap_frames, auto simp: frame_simps http_Error_def Let_def case_prod_unfold split: option.splits bool.splits outcome.splits if_splits)
next
  case 13
  then show ?case by - (rule same_heap_frames, auto simp: frame_simps http_Error_def Let_def case_prod_unfold split: option.splits bool.splits outcome.splits if_splits)
next
  case 14
  then show ?case using frame.S_refl by (auto split: if_splits)
next
  case 15
  then show ?case
    by (auto simp: serve_frame_def heap_simps modify_apply accessor_fields Let_def split: option.splits if_splits)
next
  case 16
  then show ?case by - (rule same_heap_frames, auto simp: frame_simps http_Error_def Let_def case_prod_unfold split: option.splits bool.splits outcome.splits if_splits)
next
  case 17
  then show ?case by - (rule same_heap_frames, auto simp: frame_simps http_Error_def Let_def case_prod_unfold split: option.splits bool.splits outcome.splits if_splits)
next
  case 18
  then show ?case by - (rule same_heap_frames, auto simp: frame_simps http_Error_def Let_def case_prod_unfold split: option.splits bool.splits outcome.splits if_splits)
next
  case 19
  then show ?case by - (rule same_heap_frames, auto simp: frame_simps http_Error_def Let_def case_prod_unfold split: option.splits bool.splits outcome.splits if_splits)
next
  case 20
  then show ?case by - (rule same_heap_frames, auto simp: frame_simps http_Error_def Let_def case_prod_unfold split: option.splits bool.splits outcome.splits if_splits)
next
  case 21
  then show ?case by - (rule same_heap_frames, auto simp: frame_simps http_Error_def Let_def case_prod_unfold split: option.splits bool.splits outcome.splits if_splits)
next
  case 22
  then show ?case by - (rule same_heap_frames, auto simp: frame_simps http_Error_def Let_def case_prod_unfold split: option.splits bool.splits outcome.splits if_splits)
next
  case 23
  then show ?case by - (rule same_heap_frames, auto simp: frame_simps http_Error_def Let_def case_prod_unfold split: option.splits bool.splits outcome.splits if_splits)
next
  case 24
  then show ?case by - (rule same_heap_frames, auto simp: frame_simps http_Error_def Let_def case_prod_unfold split: option.splits bool.splits outcome.splits if_splits)
next
  case 25
  then show ?case by (auto simp: serve_frame_def heap_simps modify_apply split: if_splits)
qed simp_all


section \<open>The backends a goroutine holds\<close>

fun control_refs :: "control \<Rightarrow> ref set" where
  "control_refs (Filtering r bs kept all) = set bs \<union> set kept \<union> set all"
| "control_refs (Pinning r bs) = set bs"
| "control_refs (Choosing r bs) = set bs"
| "control_refs (Admitting r p) = {p}"
| "control_refs (Pinned r p) = {p}"
| "control_refs (Counting r p) = {p}"
| "control_refs (Gauging r p) = {p}"
| "control_refs (Starting r p) = {p}"
| "control_refs (Forwarding r p) = {p}"
| "control_refs (InFlight r p n q) = {p}"
| "control_refs (Handling r p err) = {p}"
| "control_refs (Waiting r p n due) = {p}"
| "control_refs (Marking r p err) = {p}"
| "control_refs (Exporting r p err x) = {p}"
| "control_refs (Blaming r p err) = {p}"
| "control_refs (Warning r p err) = {p}"
| "control_refs c = {}"

definition refs_of :: "control \<Rightarrow> go_frame list \<Rightarrow> ref set" where
  "refs_of c fs = control_refs c \<union> framePeer ` set fs"

lemma sticky_peer_mem: "sticky_peer s r bs = Some p \<Longrightarrow> p \<in> set bs"
  by (auto simp: sticky_peer_def Let_def dest: sticky_loop_Some split: option.splits if_splits)

lemma Next_mem: "Next a h bs = (Some p, a') \<Longrightarrow> p \<in> set bs"
  using any.nxt_sound [of a h bs p] by (simp add: set_alive_of)

lemma go_step_refs:
  "go_step e c fs s = Some (c', fs', s') \<Longrightarrow> refs_of c' fs' \<subseteq> refs_of c fs \<union> set (backends s)"
  by (induction e c fs s rule: go_step.induct)
    (auto simp: refs_of_def Backends_def Let_def dest: sticky_peer_mem Next_mem
      split: option.splits prod.splits bool.splits outcome.splits if_splits)

section \<open>Counting connections\<close>

text \<open>
  What a goroutine has added to a backend's active-connection count and to a URL's gauge and not
  yet taken back: once per frame, corrected while the control is between the two counters.
\<close>

fun counted :: "control \<Rightarrow> ref \<Rightarrow> int" where
  "counted (Gauging r p) x = (if p = x then 1 else 0)"
| "counted (Starting r p) x = (if p = x then 1 else 0)"
| "counted c x = 0"

fun gauged :: "(ref \<Rightarrow> string) \<Rightarrow> control \<Rightarrow> go_frame list \<Rightarrow> string \<Rightarrow> int" where
  "gauged url (Starting r p) fs u = (if url p = u then 1 else 0)"
| "gauged url (Uncounting c) (f # fs) u = (if url (framePeer f) = u then - 1 else 0)"
| "gauged url c fs u = 0"

definition open_on :: "control \<Rightarrow> go_frame list \<Rightarrow> ref \<Rightarrow> int" where
  "open_on c fs x = counted c x + int (length (filter (\<lambda>f. framePeer f = x) fs))"

definition gauge_on :: "(ref \<Rightarrow> string) \<Rightarrow> control \<Rightarrow> go_frame list \<Rightarrow> string \<Rightarrow> int" where
  "gauge_on url c fs u = gauged url c fs u + int (length (filter (\<lambda>f. url (framePeer f) = u) fs))"

lemma conns_SetAlive [simp]: "activeConns (modify p (SetAlive v) h x) = activeConns (h x)"
  by (simp add: modify_apply accessor_fields)

lemma conns_modify [simp]:
  "activeConns (modify p IncrConns h x) = (if x = p then int64 (activeConns (h x) + 1) else activeConns (h x))"
  "activeConns (modify p DecrConns h x) = (if x = p then int64 (activeConns (h x) - 1) else activeConns (h x))"
  by (simp_all add: modify_apply accessor_defs)

lemma admit_heap: "admit p s = (ok, s') \<Longrightarrow> heap s' = heap s \<and> mets s' = mets s"
  using admit_fields(1,4) [of p s] by simp

lemma go_step_conns:
  "go_step e c fs s = Some (c', fs', s') \<Longrightarrow> is_int64 (activeConns (heap s x)) \<Longrightarrow>
   activeConns (heap s' x) = int64 (activeConns (heap s x) + (open_on c' fs' x - open_on c fs x))"
  by (induction e c fs s rule: go_step.induct)
    (auto simp: open_on_def int64_id frame_simps http_Error_def Let_def case_prod_unfold
      dest: admit_heap split: option.splits outcome.splits if_splits prod.splits bool.splits)

lemma go_step_gauge:
  "go_step e c fs s = Some (c', fs', s') \<Longrightarrow>
   active_value u (calls (mets s')) = active_value u (calls (mets s)) +
     (if enabled (mets s) then gauge_on (ref_url s) c' fs' u - gauge_on (ref_url s) c fs u else 0)"
  by (induction e c fs s rule: go_step.induct)
    (auto simp: gauge_on_def frame_simps http_Error_def Let_def case_prod_unfold
      dest: admit_heap split: option.splits outcome.splits if_splits prod.splits bool.splits)


section \<open>Soundness of a goroutine\<close>

text \<open>
  Every backend a goroutine holds is an allocated one with its proxy; breakers are consulted one
  by one only when there are breakers; and retry numbers are never negative.
\<close>

fun request_of :: "control \<Rightarrow> request option" where
  "request_of (Enter r) = Some r"
| "request_of (Filtering r bs kept all) = Some r"
| "request_of (Pinning r bs) = Some r"
| "request_of (Choosing r bs) = Some r"
| "request_of (Admitting r p) = Some r"
| "request_of (Pinned r p) = Some r"
| "request_of (Counting r p) = Some r"
| "request_of (Gauging r p) = Some r"
| "request_of (Starting r p) = Some r"
| "request_of (Forwarding r p) = Some r"
| "request_of (InFlight r p n q) = Some r"
| "request_of (Handling r p err) = Some r"
| "request_of (Waiting r p n due) = Some r"
| "request_of (Marking r p err) = Some r"
| "request_of (Exporting r p err x) = Some r"
| "request_of (Blaming r p err) = Some r"
| "request_of (Warning r p err) = Some r"
| "request_of c = None"

fun filtering :: "control \<Rightarrow> bool" where
  "filtering (Filtering r bs kept all) \<longleftrightarrow> True"
| "filtering c \<longleftrightarrow> False"

text \<open>The controls that work on the innermost frame.\<close>

fun needs_frame :: "control \<Rightarrow> bool" where
  "needs_frame (Recording d) \<longleftrightarrow> True"
| "needs_frame (Judging d) \<longleftrightarrow> True"
| "needs_frame (Logging d) \<longleftrightarrow> True"
| "needs_frame (Ungauging c) \<longleftrightarrow> True"
| "needs_frame (Uncounting c) \<longleftrightarrow> True"
| "needs_frame c \<longleftrightarrow> False"

definition usable :: "lb_state \<Rightarrow> ref \<Rightarrow> bool" where
  "usable s x \<longleftrightarrow> x < fresh s \<and> ReverseProxy (heap s x) = Some (URL (heap s x))"

definition go_ok :: "lb_state \<Rightarrow> control \<Rightarrow> go_frame list \<Rightarrow> bool" where
  "go_ok s c fs \<longleftrightarrow> (\<forall>x \<in> refs_of c fs. usable s x) \<and>
     (filtering c \<longrightarrow> cbRegistry s \<noteq> None) \<and> (needs_frame c \<longrightarrow> fs \<noteq> []) \<and>
     (case request_of c of None \<Rightarrow> True | Some r \<Rightarrow> 0 \<le> getRetryFromContext r)"

lemma begin_retry [simp]:
  "getRetryFromContext (r\<lparr>requestIDKey := i\<rparr>) = getRetryFromContext r"
  "getAttemptsFromContext (r\<lparr>requestIDKey := i\<rparr>) = getAttemptsFromContext r"
  "Method (r\<lparr>requestIDKey := i\<rparr>) = Method r"
  by (simp_all add: getRetryFromContext_def getAttemptsFromContext_def)

lemma go_step_retry:
  "go_step e c fs s = Some (c', fs', s') \<Longrightarrow>
   (case request_of c of None \<Rightarrow> True | Some r \<Rightarrow> 0 \<le> getRetryFromContext r) \<Longrightarrow>
   (case request_of c' of None \<Rightarrow> True | Some r \<Rightarrow> 0 \<le> getRetryFromContext r)"
  by (induction e c fs s rule: go_step.induct)
    (auto simp: Let_def split: option.splits outcome.splits if_splits prod.splits bool.splits)

lemma go_step_filtering:
  "go_step e c fs s = Some (c', fs', s') \<Longrightarrow> (filtering c \<longrightarrow> cbRegistry s \<noteq> None) \<Longrightarrow>
   filtering c' \<Longrightarrow> cbRegistry s' \<noteq> None"
  by (induction e c fs s rule: go_step.induct)
    (auto simp: Let_def split: option.splits outcome.splits if_splits prod.splits bool.splits)

lemma go_step_needs_frame:
  "go_step e c fs s = Some (c', fs', s') \<Longrightarrow> needs_frame c' \<Longrightarrow> fs' \<noteq> []"
  by (induction e c fs s rule: go_step.induct)
    (auto simp: Let_def split: option.splits outcome.splits if_splits prod.splits bool.splits)

text \<open>How the shared state may change: it keeps every allocated backend's URL and proxy.\<close>

definition extends :: "lb_state \<Rightarrow> lb_state \<Rightarrow> bool" where
  "extends s t \<longleftrightarrow> fresh s \<le> fresh t \<and> (cbRegistry t = None) = (cbRegistry s = None) \<and>
     enabled (mets t) = enabled (mets s) \<and>
     (\<forall>x < fresh s. URL (heap t x) = URL (heap s x) \<and> ReverseProxy (heap t x) = ReverseProxy (heap s x))"

lemma extends_frame: "serve_frame s t \<Longrightarrow> extends s t"
  by (simp add: extends_def serve_frame_def)

lemma go_ok_extends: "go_ok s c fs \<Longrightarrow> extends s t \<Longrightarrow> go_ok t c fs"
  by (auto simp: go_ok_def extends_def usable_def)

lemma lb_wf_usable: "lb_wf s \<Longrightarrow> x \<in> set (backends s) \<Longrightarrow> usable s x"
  by (simp add: lb_wf_def pool_wf_def usable_def)

lemma go_step_ok:
  assumes "go_step e c fs s = Some (c', fs', s')" and "go_ok s c fs" and "lb_wf s"
  shows "go_ok s' c' fs'"
proof -
  have "extends s s'" using extends_frame [OF go_step_frame [OF assms(1)]] .
  moreover have "\<forall>x \<in> refs_of c' fs'. usable s x"
    using go_step_refs [OF assms(1)] assms(2) lb_wf_usable [OF assms(3)] by (auto simp: go_ok_def)
  ultimately show ?thesis
    using go_step_retry [OF assms(1)] go_step_filtering [OF assms(1)] go_step_needs_frame [OF assms(1)] assms(2)
    by (auto simp: go_ok_def extends_def usable_def)
qed

section \<open>Management\<close>

lemma register_fields:
  "fresh (register b s) = Suc (fresh s)" "heap (register b s) = (heap s)(fresh s := b)"
  "mets (register b s) = mets s"
  by (simp_all add: register_def alloc_def AddBackend_def)

lemma register_cb [simp]: "cbRegistry (register b s) = cbRegistry s"
  by (simp add: register_def alloc_def AddBackend_def)

lemma Remove_fields:
  "fresh (snd (Remove u s)) = fresh s" "heap (snd (Remove u s)) = heap s" "mets (snd (Remove u s)) = mets s"
  "set (backends (snd (Remove u s))) \<subseteq> set (backends s)"
proof -
  have "remove_loop h v bs = Some bs' \<Longrightarrow> set bs' \<subseteq> set bs" for h v bs bs'
    by (induction bs arbitrary: bs') (auto split: if_splits)
  then show "set (backends (snd (Remove u s))) \<subseteq> set (backends s)"
    by (auto simp: Remove_def split: option.splits)
qed (simp_all add: Remove_def split: option.split)

lemma Remove_cb [simp]: "cbRegistry (snd (Remove u s)) = cbRegistry s"
  by (simp add: Remove_def split: option.split)

lemma manage_extends: "extends s (manage m s)"
  by (cases m) (simp_all add: extends_def frame_simps heap_simps register_fields Remove_fields SetAlgorithm_def)

lemma register_wf: "lb_wf s \<Longrightarrow> lb_wf (register (configured u w) s)"
proof -
  assume wf: "lb_wf s"
  have "pool_wf (register (configured u w) s)"
    unfolding register_def using wf pool_wf_AddBackend [OF pool_wf_alloc, of s "fresh s" "configured u w"]
    by (simp add: lb_wf_def alloc_def)
  moreover have "set (backends (register (configured u w) s)) \<subseteq> insert (fresh s) (set (backends s))"
    by (auto simp: register_def alloc_def AddBackend_def)
  ultimately show ?thesis using wf
    by (auto simp: lb_wf_def pool_wf_def register_fields configured_def)
qed

lemma modify_wf: "lb_wf s \<Longrightarrow> (\<And>b. URL (f b) = URL b) \<Longrightarrow> (\<And>b. ReverseProxy (f b) = ReverseProxy b) \<Longrightarrow>
    lb_wf (s\<lparr>heap := modify x f (heap s)\<rparr>)"
  using pool_wf_modify [of s f x] by (simp add: lb_wf_def modify_apply)

lemma manage_wf: "lb_wf s \<Longrightarrow> lb_wf (manage m s)"
proof (cases m)
  case (Register u w)
  then show "lb_wf s \<Longrightarrow> ?thesis" by (simp add: register_wf)
next
  case (Unregister u)
  assume wf: "lb_wf s"
  then have "pool_wf (snd (Remove u s))" by (simp add: lb_wf_def pool_wf_Remove)
  with wf Remove_fields [of u s] Unregister show ?thesis by (auto simp: lb_wf_def)
next
  case (SetUp x v)
  then show "lb_wf s \<Longrightarrow> ?thesis" using modify_wf [of s "SetAlive v" x] by (simp add: accessor_fields)
next
  case (Reweigh x w)
  then show "lb_wf s \<Longrightarrow> ?thesis" using modify_wf [of s "SetWeight w" x] by (simp add: accessor_fields)
qed (simp_all add: SetAlgorithm_def lb_wf_def pool_wf_def BackendURLs_def)

lemma manage_gauge: "active_value u (calls (mets (manage m s))) = active_value u (calls (mets s))"
  by (cases m) (simp_all add: frame_simps register_fields Remove_fields SetAlgorithm_def)

lemma manage_conns:
  "activeConns (heap s (fresh s)) = 0 \<Longrightarrow> activeConns (heap (manage m s) x) = activeConns (heap s x)"
  by (cases m) (simp_all add: frame_simps heap_simps register_fields Remove_fields SetAlgorithm_def configured_def)


section \<open>The system\<close>

lemma focus_fields [simp]:
  "heap (focus g s) = heap s" "backends (focus g s) = backends s" "fresh (focus g s) = fresh s"
  "mets (focus g s) = mets s" "cbRegistry (focus g s) = cbRegistry s" "now (focus g s) = now s"
  "writers (focus g s) = ownWriters g" "status (focus g s) = ownStatus g"
  "sticky (focus g s) = sticky s" "algo (focus g s) = algo s"
  by (simp_all add: focus_def)

lemma advance_Some:
  assumes "advance e s g = Some (s', g')"
  obtains "go_step e (pc g) (frames g) (focus g s) = Some (pc g', frames g', s')"
    and "ownWriters g' = writers s'" and "ownStatus g' = status s'"
  using assms by (auto simp: advance_def split: option.splits prod.splits)

lemma lb_wf_focus [simp]: "lb_wf (focus g s) = lb_wf s"
  by (simp add: lb_wf_def pool_wf_def BackendURLs_def)

lemma go_ok_focus [simp]: "go_ok (focus g s) c fs = go_ok s c fs"
  by (simp add: go_ok_def usable_def)

text \<open>What one event does: a goroutine's step, a new goroutine, or a change of the shared state.\<close>

lemma perform_cases:
  assumes "perform e ev y = Some z"
  obtains (move) i s' g' where "ev = Move i" and "i < length (gos y)"
      and "advance e (shared y) (gos y ! i) = Some (s', g')" and "z = y\<lparr>shared := s', gos := (gos y)[i := g']\<rparr>"
    | (arrive) r where "ev = Arrive r" and "fresh_request r" and "z = y\<lparr>gos := gos y @ [spawn r]\<rparr>"
    | (pass) d where "ev = Pass d" and "0 \<le> d" and "z = y\<lparr>shared := (shared y)\<lparr>now := now (shared y) + d\<rparr>\<rparr>"
    | (manage) m where "ev = Manage m" and "z = y\<lparr>shared := manage m (shared y)\<rparr>"
  using assms by (cases ev) (auto split: if_splits option.splits prod.splits)

lemma schedule_invariant:
  assumes "schedule e evs y = Some z" and "I y"
    and "\<And>ev y z. I y \<Longrightarrow> perform e ev y = Some z \<Longrightarrow> I z"
  shows "I z"
  using assms(1,2) by (induction evs arbitrary: y) (auto simp: bind_eq_Some_conv dest: assms(3))

definition sound :: "system \<Rightarrow> bool" where
  "sound y \<longleftrightarrow> lb_wf (shared y) \<and> (\<forall>g \<in> set (gos y). go_ok (shared y) (pc g) (frames g))"

lemma go_ok_spawn: "fresh_request r \<Longrightarrow> go_ok s (pc (spawn r)) (frames (spawn r))"
  by (simp add: spawn_def go_ok_def refs_of_def fresh_ctx)

lemma advance_frame: "advance e s g = Some (s', g') \<Longrightarrow> serve_frame s s'"
  by (erule advance_Some) (drule go_step_frame, simp add: serve_frame_def)

lemma sound_step: "sound y \<Longrightarrow> perform e ev y = Some z \<Longrightarrow> sound z"
proof (erule perform_cases)
  fix i s' g' assume "sound y" "i < length (gos y)" and a: "advance e (shared y) (gos y ! i) = Some (s', g')"
    and z: "z = y\<lparr>shared := s', gos := (gos y)[i := g']\<rparr>"
  have fr: "serve_frame (shared y) s'" using a by (rule advance_frame)
  have "go_ok (shared y) (pc (gos y ! i)) (frames (gos y ! i))" "lb_wf (shared y)"
    using \<open>sound y\<close> \<open>i < length (gos y)\<close> by (simp_all add: sound_def)
  then have "go_ok s' (pc g') (frames g')"
    using advance_Some [OF a] go_step_ok by (metis go_ok_focus lb_wf_focus)
  then show "sound z"
    using \<open>sound y\<close> lb_wf_frame [OF fr] go_ok_extends [OF _ extends_frame [OF fr]] z
    by (auto simp: sound_def dest!: set_update_subset_insert [THEN subsetD])
next
  fix m assume "sound y" "z = y\<lparr>shared := manage m (shared y)\<rparr>"
  then show "sound z"
    using manage_wf go_ok_extends [OF _ manage_extends] by (auto simp: sound_def)
next
  fix d assume "sound y" "z = y\<lparr>shared := (shared y)\<lparr>now := now (shared y) + d\<rparr>\<rparr>"
  then show "sound z" by (simp add: sound_def lb_wf_def pool_wf_def BackendURLs_def go_ok_def usable_def)
qed (auto simp: sound_def go_ok_spawn)

lemma sum_list_list_update:
  "i < length xs \<Longrightarrow> sum_list (map f (xs[i := v])) = sum_list (map f xs) + (f v - f (xs ! i) :: int)"
  by (induction xs arbitrary: i) (auto split: nat.split)

lemma sum_list_zero: "(\<And>x. x \<in> set xs \<Longrightarrow> f x = (0 :: int)) \<Longrightarrow> sum_list (map f xs) = 0"
  by (induction xs) auto

definition open_conns :: "system \<Rightarrow> ref \<Rightarrow> int" where
  "open_conns y x = sum_list (map (\<lambda>g. open_on (pc g) (frames g) x) (gos y))"

definition open_gauge :: "system \<Rightarrow> string \<Rightarrow> int" where
  "open_gauge y u = sum_list (map (\<lambda>g. gauge_on (ref_url (shared y)) (pc g) (frames g) u) (gos y))"

definition counts_right :: "system \<Rightarrow> bool" where
  "counts_right y \<longleftrightarrow>
     (\<forall>x. activeConns (heap (shared y) x) = int64 (open_conns y x)) \<and>
     (\<forall>u. active_value u (calls (mets (shared y))) = (if enabled (mets (shared y)) then open_gauge y u else 0))"

lemma filter_frames_cong: "(\<And>f. f \<in> set fs \<Longrightarrow> P f = Q f) \<Longrightarrow>
    length (filter P fs) = length (filter Q fs)"
  by (metis filter_cong)

lemma gauge_on_cong:
  "(\<And>x. x \<in> refs_of c fs \<Longrightarrow> url x = url' x) \<Longrightarrow> gauge_on url c fs u = gauge_on url' c fs u"
  using filter_frames_cong [of fs "\<lambda>f. url (framePeer f) = u" "\<lambda>f. url' (framePeer f) = u"]
  by (cases "(url, c, fs, u)" rule: gauged.cases) (simp_all add: gauge_on_def refs_of_def)


lemma open_on_spawn [simp]: "open_on (pc (spawn r)) (frames (spawn r)) x = 0"
  "gauge_on url (pc (spawn r)) (frames (spawn r)) u = 0"
  by (simp_all add: spawn_def open_on_def gauge_on_def)

lemma open_gauge_extends:
  assumes "sound y" and "extends (shared y) t"
  shows "sum_list (map (\<lambda>g. gauge_on (ref_url t) (pc g) (frames g) u) (gos y)) = open_gauge y u"
proof -
  have "ref_url t x = ref_url (shared y) x" if "g \<in> set (gos y)" "x \<in> refs_of (pc g) (frames g)" for g x
  proof -
    have "x < fresh (shared y)" using assms(1) that by (simp add: sound_def go_ok_def usable_def)
    with assms(2) show ?thesis by (simp add: extends_def)
  qed
  then have "map (\<lambda>g. gauge_on (ref_url t) (pc g) (frames g) u) (gos y) =
      map (\<lambda>g. gauge_on (ref_url (shared y)) (pc g) (frames g) u) (gos y)"
    by (intro map_cong [OF refl gauge_on_cong])
  then show ?thesis by (simp only: open_gauge_def)
qed

lemma open_on_none: "x \<notin> refs_of c fs \<Longrightarrow> open_on c fs x = 0"
proof -
  assume x: "x \<notin> refs_of c fs"
  then have "filter (\<lambda>f. framePeer f = x) fs = []" by (auto simp: refs_of_def filter_empty_conv)
  moreover have "counted c x = 0" using x by (cases c) (auto simp: refs_of_def)
  ultimately show ?thesis by (simp add: open_on_def)
qed

lemma open_conns_fresh: "sound y \<Longrightarrow> open_conns y (fresh (shared y)) = 0"
  unfolding open_conns_def
  by (rule sum_list_zero) (auto simp: sound_def go_ok_def usable_def intro!: open_on_none)

lemma counts_step:
  assumes "sound y" and "counts_right y" and "perform e ev y = Some z"
  shows "counts_right z"
  using assms(3)
proof (cases rule: perform_cases)
  case (move i s' g')
  let ?g = "gos y ! i"
  from move(3) obtain st: "go_step e (pc ?g) (frames ?g) (focus ?g (shared y)) = Some (pc g', frames g', s')"
    by (rule advance_Some)
  have fr: "serve_frame (shared y) s'" using move(3) by (rule advance_frame)
  have "activeConns (heap s' x) = int64 (open_conns z x)" for x
    using go_step_conns [OF st, of x] assms(2) move(2,4)
    by (simp add: counts_right_def open_conns_def sum_list_list_update)
  moreover have "active_value u (calls (mets s')) = (if enabled (mets s') then open_gauge z u else 0)" for u
  proof -
    have en: "enabled (mets s') = enabled (mets (shared y))" "ref_url s' = ref_url (shared y)"
      using fr by (auto simp: serve_frame_def)
    show ?thesis
      using go_step_gauge [OF st, of u] assms(2) move(2,4) en
      by (simp add: counts_right_def open_gauge_def sum_list_list_update)
  qed
  ultimately show ?thesis using move(4) by (simp add: counts_right_def)
next
  case (manage m)
  have "activeConns (heap (shared y) (fresh (shared y))) = 0"
    using assms(2) open_conns_fresh [OF assms(1)] by (simp add: counts_right_def int64_id)
  moreover have "open_gauge z u = open_gauge y u" for u
    using open_gauge_extends [OF assms(1) manage_extends] manage
    by (simp add: open_gauge_def [of "y\<lparr>shared := manage m (shared y)\<rparr>"])
  ultimately show ?thesis
    using assms(2) manage manage_extends [of "shared y" m]
    by (simp add: counts_right_def open_conns_def manage_conns manage_gauge extends_def)
qed (use assms(2) in \<open>simp_all add: counts_right_def open_conns_def open_gauge_def\<close>)


lemma finished_open: "finished g \<Longrightarrow> open_on (pc g) (frames g) x = 0 \<and> gauge_on url (pc g) (frames g) u = 0"
  by (auto simp: finished_def open_on_def gauge_on_def)

text \<open>Before the first request: a configured pool, nothing in flight.\<close>

definition idle :: "lb_state \<Rightarrow> bool" where
  "idle s \<longleftrightarrow> lb_wf s \<and> (\<forall>x. ActiveConns (heap s x) = 0) \<and> (\<forall>u. active_value u (calls (mets s)) = 0)"

lemma sound_start: "idle s \<Longrightarrow> sound \<lparr>shared = s, gos = []\<rparr>"
  by (simp add: idle_def sound_def)

lemma reached_sound: "idle s \<Longrightarrow> schedule e evs \<lparr>shared = s, gos = []\<rparr> = Some y \<Longrightarrow> sound y"
  using schedule_invariant [where I = sound] sound_start sound_step by blast

section \<open>A concrete interleaving\<close>

text \<open>Two requests in lock step on a pool of one backend, \<open>k\<close> steps each.\<close>

definition lock_step :: "nat \<Rightarrow> event list" where
  "lock_step k = [Arrive (sample_request ''GET''), Arrive (sample_request ''POST'')]
     @ concat (replicate k [Move 0, Move 1])"

definition one_backend :: lb_state where
  "one_backend = sample_lb [''a''] [WithCircuitBreaker sample_breakers]"

definition in_lock_step :: "nat \<Rightarrow> system option" where
  "in_lock_step k = schedule (sample_env [''a'']) (lock_step k) \<lparr>shared = one_backend, gos = []\<rparr>"

lemma one_backend_wf: "lb_wf one_backend"
  unfolding one_backend_def by (rule lb_wf_sample) simp

lemma one_backend_idle: "idle one_backend"
proof -
  have "activeConns (heap one_backend x) = 0" for x
    by (simp add: one_backend_def sample_lb_def NewLoadBalancer_def sample_pool_def http_backend_def)
  moreover have "active_value u (calls (mets one_backend)) = 0" for u
    by (simp add: one_backend_def sample_lb_def NewLoadBalancer_def sample_pool_def metrics0_def)
  ultimately show ?thesis using one_backend_wf by (simp add: idle_def ActiveConns_def)
qed

lemma in_lock_step_runs: "\<not> Option.is_none (in_lock_step k) \<Longrightarrow> \<exists>y. in_lock_step k = Some y"
  by (auto simp: Option.is_none_def)

section \<open>Connections\<close>

text \<open>
  C2: connection counts under concurrency. Whatever requests run at once, in whatever order their
  steps and the management's fall, every backend's active-connection count is exactly the number of
  attempts now open on it (modulo the wrap-around of \<open>int64\<close>), and every series of the gauge is
  the number of attempts open on its URL; a backend removed while requests are on it keeps its
  count, and one that is added starts from none. When every request has ended, by return or by
  panic, all are zero.
\<close>

theorem concurrent_counts:
  assumes "idle s" and "schedule e evs \<lparr>shared = s, gos = []\<rparr> = Some y"
  shows "(\<forall>x. ActiveConns (heap (shared y) x) = int64 (open_conns y x)) \<and>
    (\<forall>u. active_value u (calls (mets (shared y))) =
       (if enabled (mets (shared y)) then open_gauge y u else 0)) \<and>
    (list_all finished (gos y) \<longrightarrow>
       (\<forall>x. ActiveConns (heap (shared y) x) = 0) \<and> (\<forall>u. active_value u (calls (mets (shared y))) = 0))"
proof -
  have "counts_right \<lparr>shared = s, gos = []\<rparr>"
    using assms(1) by (simp add: idle_def counts_right_def open_conns_def open_gauge_def ActiveConns_def int64_id)
  then have "sound y \<and> counts_right y"
    using schedule_invariant [OF assms(2), of "\<lambda>y. sound y \<and> counts_right y"]
      sound_start [OF assms(1)] sound_step counts_step by blast
  moreover have "open_conns y x = 0 \<and> open_gauge y u = 0" if "list_all finished (gos y)" for x u
    using that finished_open by (auto simp: open_conns_def open_gauge_def list_all_iff intro!: sum_list_zero)
  ultimately show ?thesis by (simp add: counts_right_def ActiveConns_def int64_id)
qed

theorem concurrent_counts_witness:
  "\<exists>y. in_lock_step 9 = Some y \<and> ActiveConns (heap (shared y) 0) = 2"
proof -
  have "\<not> Option.is_none (in_lock_step 9)" by code_simp
  then obtain y where y: "in_lock_step 9 = Some y" using in_lock_step_runs by blast
  have "open_conns (the (in_lock_step 9)) 0 = 2" by code_simp
  then have "int64 (open_conns y 0) = 2" using y by (simp add: int64_def)
  then show ?thesis
    using concurrent_counts [OF one_backend_idle y [unfolded in_lock_step_def]] y by simp
qed

section \<open>Breakers and metrics\<close>

definition records_ok :: "lb_state \<Rightarrow> bool" where
  "records_ok s \<longleftrightarrow> metrics_wf (mets s) \<and>
     (case cbRegistry s of None \<Rightarrow> True | Some reg \<Rightarrow> \<forall>u. breaker_inv (breaker_at reg u))"

lemma admit_records: "admit p s = (ok, s') \<Longrightarrow> records_ok s \<Longrightarrow> records_ok s'"
  by (auto simp: records_ok_def admit_def case_prod_unfold intro!: wf_intros split: option.splits)

lemma blame_records: "records_ok s \<Longrightarrow> records_ok (blame b s)" "records_ok s \<Longrightarrow> records_ok (credit b s)"
  by (auto simp: records_ok_def blame_def credit_def intro: wf_intros split: option.splits)

lemma go_step_records: "go_step e c fs s = Some (c', fs', s') \<Longrightarrow> records_ok s \<Longrightarrow> records_ok s'"
proof (induction e c fs s rule: go_step.induct)
  case (6 e r peer fs s)
  then show ?case using admit_records by (auto split: prod.splits bool.splits)
next
  case (15 e r b err fs s)
  then show ?case by (auto simp: records_ok_def Let_def split: option.splits)
next
  case (16 e r b err found fs s)
  then show ?case by (auto simp: records_ok_def intro: wf_intros split: if_splits)
next
  case (17 e r b err fs s)
  then show ?case using blame_records by auto
next
  case (22 e d f fs s)
  then show ?case using blame_records by auto
qed (auto simp: records_ok_def blame_records http_Error_def WriteHeader_def frame_simps
    set_cookie_def getOrCreateRequestID_def Let_def case_prod_unfold intro: wf_intros
    split: option.splits outcome.splits if_splits prod.splits)


lemma records_focus [simp]: "records_ok (focus g s) = records_ok s"
  by (simp add: records_ok_def)

lemma records_step: "records_ok (shared y) \<Longrightarrow> perform e ev y = Some z \<Longrightarrow> records_ok (shared z)"
proof (erule perform_cases)
  fix i s' g' assume "records_ok (shared y)" "advance e (shared y) (gos y ! i) = Some (s', g')"
    "z = y\<lparr>shared := s', gos := (gos y)[i := g']\<rparr>"
  then show "records_ok (shared z)" by (auto elim!: advance_Some dest!: go_step_records)
next
  fix m assume r: "records_ok (shared y)" and z: "z = y\<lparr>shared := manage m (shared y)\<rparr>"
  have "records_ok (manage m (shared y))"
    using r by (cases m)
      (auto simp: records_ok_def register_fields Remove_fields SetAlgorithm_def intro: wf_intros)
  with z show "records_ok (shared z)" by simp
qed (simp_all add: records_ok_def)

text \<open>
  C7: the shared state stays sound under concurrency. From a configured pool with working breakers
  and metrics, every interleaving of requests and management keeps the load balancer's invariant
  (distinct URLs, a reverse proxy for every backend), the invariant of every breaker and the
  well-formedness of the metrics; and every backend a goroutine holds, a removed one included, still
  has its own proxy, so no call on a nil pointer can happen.
\<close>

theorem concurrent_state_sound:
  assumes "lb_wf s" and "metrics_wf (mets s)"
    and "\<And>reg u. cbRegistry s = Some reg \<Longrightarrow> breaker_inv (breaker_at reg u)"
    and "schedule e evs \<lparr>shared = s, gos = []\<rparr> = Some y"
  shows "lb_wf (shared y) \<and> metrics_wf (mets (shared y)) \<and>
    (\<forall>reg u. cbRegistry (shared y) = Some reg \<longrightarrow> breaker_inv (breaker_at reg u)) \<and>
    (\<forall>g \<in> set (gos y). \<forall>x \<in> refs_of (pc g) (frames g).
       ReverseProxy (heap (shared y) x) = Some (URL (heap (shared y) x)))"
proof -
  have "sound \<lparr>shared = s, gos = []\<rparr>" "records_ok s"
    using assms(1-3) by (auto simp: sound_def records_ok_def split: option.split)
  then have start: "sound \<lparr>shared = s, gos = []\<rparr> \<and> records_ok (shared \<lparr>shared = s, gos = []\<rparr>)" by simp
  have "sound y \<and> records_ok (shared y)"
    by (rule schedule_invariant [OF assms(4), of "\<lambda>y. sound y \<and> records_ok (shared y)", OF start])
      (blast intro: sound_step records_step)
  then have snd: "lb_wf (shared y)" "\<forall>g \<in> set (gos y). \<forall>x \<in> refs_of (pc g) (frames g). usable (shared y) x"
    and rec: "records_ok (shared y)" by (simp_all add: sound_def go_ok_def)
  moreover have "breaker_inv (breaker_at reg u)" if "cbRegistry (shared y) = Some reg" for reg u
    using rec that by (simp add: records_ok_def)
  ultimately show ?thesis by (simp add: usable_def) (simp add: records_ok_def)
qed

theorem concurrent_state_sound_witness:
  "\<exists>y. schedule (sample_env [''a'']) (lock_step 18)
      \<lparr>shared = one_backend\<lparr>mets := fst (Init (\<lambda>c. Registered) metrics0)\<rparr>, gos = []\<rparr> = Some y \<and>
    lb_wf (shared y) \<and> metrics_wf (mets (shared y))"
proof -
  let ?s = "one_backend\<lparr>mets := fst (Init (\<lambda>c. Registered) metrics0)\<rparr>"
  let ?run = "schedule (sample_env [''a'']) (lock_step 18) \<lparr>shared = ?s, gos = []\<rparr>"
  have "\<not> Option.is_none ?run" by code_simp
  then obtain y where y: "?run = Some y" by (auto simp: Option.is_none_def)
  have "lb_wf ?s" using one_backend_wf by (simp add: lb_wf_def BackendURLs_def pool_wf_def)
  moreover have "metrics_wf (mets ?s)" using Init_wf [OF metrics_wf_0] by simp
  moreover have "breaker_inv (breaker_at reg u)" if "cbRegistry ?s = Some reg" for reg u
    using that by (auto simp: one_backend_def sample_lb_def NewLoadBalancer_def breaker_at_def
        sample_breakers_def NewRegistry_def breaker_inv_New)
  ultimately show ?thesis using concurrent_state_sound [of ?s _ _ y] y by blast
qed

end
