(* ===== verification/Proxy_Endings.thy ===== *)
theory Proxy_Endings
  imports Proxy_Interleaved
begin

text \<open>
  How requests end when many run at once: each with its one answer, after a bounded number of its
  own steps, and none waiting for another.
\<close>

section \<open>Answers\<close>

text \<open>
  How a request must end, from the round trips \<open>ts\<close> and the waits \<open>ws\<close> it has begun: nothing is
  written if the client went away during the last wait; otherwise the last round trip decides as in
  \<open>ending\<close>.
\<close>

definition verdict :: "env \<Rightarrow> sent_request list \<Rightarrow> nat list \<Rightarrow> nat list \<Rightarrow> completion \<times> int list" where
  "verdict e qs ts ws =
     (if ws \<noteq> [] \<and> \<not> timerFirst e (last ws) then (Done, [])
      else if ts = [] then (Done, [StatusServiceUnavailable])
      else (case roundtrip e (last ts) (qs ! last ts) of
              Responded c \<Rightarrow> (Done, [c])
            | Aborted c \<Rightarrow> (Panicked, [c])
            | Failed err \<Rightarrow> (Done, [StatusServiceUnavailable])))"

fun completion_of :: "control \<Rightarrow> completion option" where
  "completion_of (Returning c) = Some c"
| "completion_of (Recording d) = Some Done"
| "completion_of (Judging d) = Some Done"
| "completion_of (Logging d) = Some Done"
| "completion_of (Ungauging c) = Some c"
| "completion_of (Uncounting c) = Some c"
| "completion_of c = None"

text \<open>Before the end every earlier wait ran out and every earlier round trip failed.\<close>

definition failed_so_far :: "env \<Rightarrow> sent_request list \<Rightarrow> nat list \<Rightarrow> bool" where
  "failed_so_far e qs ts \<longleftrightarrow> ts = [] \<or> (\<exists>err. roundtrip e (last ts) (qs ! last ts) = Failed err)"

definition patient :: "env \<Rightarrow> nat list \<Rightarrow> bool" where
  "patient e ws \<longleftrightarrow> ws = [] \<or> timerFirst e (last ws)"

fun course :: "env \<Rightarrow> sent_request list \<Rightarrow> nat list \<Rightarrow> nat list \<Rightarrow> control \<Rightarrow> bool" where
  "course e qs ts ws (InFlight r p n q) \<longleftrightarrow> patient e ws \<and> ts \<noteq> [] \<and> last ts = n \<and> qs ! n = q"
| "course e qs ts ws (Waiting r p n due) \<longleftrightarrow> failed_so_far e qs ts \<and> ws \<noteq> [] \<and> last ws = n"
| "course e qs ts ws c \<longleftrightarrow> failed_so_far e qs ts \<and> patient e ws"

definition replied ::
  "env \<Rightarrow> sent_request list \<Rightarrow> nat list \<Rightarrow> nat list \<Rightarrow> control \<Rightarrow> int list \<Rightarrow> bool" where
  "replied e qs ts ws c st \<longleftrightarrow> (\<forall>n \<in> set ts. n < length qs) \<and>
     (case completion_of c of
        None \<Rightarrow> st = [] \<and> course e qs ts ws c
      | Some k \<Rightarrow> (k, st) = verdict e qs ts ws)"

lemma last_trip_append:
  "\<forall>n \<in> set ts. n < length qs \<Longrightarrow> ts \<noteq> [] \<Longrightarrow> (qs @ qs') ! last ts = qs ! last ts"
  by (simp add: nth_append)

lemma course_append:
  "\<forall>n \<in> set ts. n < length qs \<Longrightarrow> course e qs ts ws c \<Longrightarrow> course e (qs @ qs') ts ws c"
  using last_trip_append [of ts qs qs'] by (cases c) (auto simp: failed_so_far_def)

lemma replied_append: "replied e qs ts ws c st \<Longrightarrow> replied e (qs @ qs') ts ws c st"
  using last_trip_append [of ts qs qs'] course_append [of ts qs e ws c qs']
  by (auto simp: replied_def verdict_def split: option.splits)

lemma go_step_sent: "go_step e c fs s = Some (c', fs', s') \<Longrightarrow> \<exists>qs. sent s' = sent s @ qs"
  by (induction e c fs s rule: go_step.induct)
    (auto simp: Let_def http_Error_def WriteHeader_def frame_simps case_prod_unfold dest: admit_counters
      split: option.splits outcome.splits if_splits prod.splits bool.splits)

lemma admit_same: "admit p s = (ok, s') \<Longrightarrow> sent s' = sent s \<and> waits s' = waits s \<and> status s' = status s"
  using admit_counters admit_fields(9) [of p s] by force

lemma completion_request: "completion_of c = None \<longleftrightarrow> request_of c \<noteq> None"
  by (cases c) simp_all

text \<open>The verdict in each of its cases, and what a step means for it.\<close>

lemma verdict_rules:
  "failed_so_far e qs ts \<Longrightarrow> patient e ws \<Longrightarrow> verdict e qs ts ws = (Done, [StatusServiceUnavailable])"
  "ws \<noteq> [] \<Longrightarrow> \<not> timerFirst e (last ws) \<Longrightarrow> verdict e qs ts ws = (Done, [])"
  "patient e ws \<Longrightarrow> ts \<noteq> [] \<Longrightarrow> roundtrip e (last ts) (qs ! last ts) = Responded c \<Longrightarrow> verdict e qs ts ws = (Done, [c])"
  "patient e ws \<Longrightarrow> ts \<noteq> [] \<Longrightarrow> roundtrip e (last ts) (qs ! last ts) = Aborted c \<Longrightarrow> verdict e qs ts ws = (Panicked, [c])"
  by (auto simp: verdict_def failed_so_far_def patient_def)

lemma replied_working:
  "completion_of c = None \<Longrightarrow> replied e qs ts ws c st \<longleftrightarrow>
     (\<forall>n \<in> set ts. n < length qs) \<and> st = [] \<and> course e qs ts ws c"
  "completion_of c = Some k \<Longrightarrow> replied e qs ts ws c st \<longleftrightarrow>
     (\<forall>n \<in> set ts. n < length qs) \<and> verdict e qs ts ws = (k, st)"
  by (auto simp: replied_def)

lemma course_begins:
  "failed_so_far e qs ts \<Longrightarrow> patient e ws \<Longrightarrow>
   course e (qs @ [q]) (ts @ [length qs]) ws (InFlight r p (length qs) q)"
  by simp

lemma trip_failed: "ts \<noteq> [] \<Longrightarrow> roundtrip e (last ts) (qs ! last ts) = Failed err \<Longrightarrow> failed_so_far e qs ts"
  by (simp add: failed_so_far_def)

lemma wait_over: "ws \<noteq> [] \<Longrightarrow> timerFirst e (last ws) \<Longrightarrow> patient e ws"
  by (simp add: patient_def)

lemmas reply_simps = replied_working verdict_rules course_begins Let_def http_Error_def

lemma WriteHeader_status [simp]: "status (WriteHeader code s) = status s @ [code]"
  by (simp add: WriteHeader_def)

lemma go_step_replied:
  assumes "go_step e c fs s = Some (c', fs', s')" and "go_ok s c fs" and "replied e (sent s) ts ws c (status s)"
  shows "replied e (sent s') (ts @ [length (sent s)..<length (sent s')]) (ws @ [waits s..<waits s']) c' (status s')"
  using assms
proof (induction e c fs s rule: go_step.induct)
  case (6 e r peer fs s)
  then show ?case by (auto simp: reply_simps dest!: admit_same split: prod.splits bool.splits)
next
  case (11 e r peer fs s)
  then have "ReverseProxy (heap s peer) \<noteq> None" by (auto simp: go_ok_def refs_of_def usable_def)
  with 11 show ?case by (auto simp: reply_simps less_Suc_eq split: option.splits)
next
  case (12 e r peer n q fs s)
  then show ?case
    by (cases "roundtrip e n q") (auto simp: reply_simps frame_simps trip_failed)
next
  case (14 e r b n due fs s)
  then show ?case by (auto simp: reply_simps wait_over split: if_splits)
qed (auto simp: reply_simps go_ok_def frame_simps case_prod_unfold split: option.splits if_splits prod.splits)

definition all_replied :: "env \<Rightarrow> system \<Rightarrow> bool" where
  "all_replied e y \<longleftrightarrow>
     (\<forall>g \<in> set (gos y). replied e (sent (shared y)) (ownTrips g) (ownWaits g) (pc g) (ownStatus g))"

lemma manage_sent [simp]: "sent (manage m s) = sent s"
  by (cases m) (simp_all add: frame_simps SetAlgorithm_def register_def alloc_def AddBackend_def Remove_def
      split: option.split)

lemma advance_own:
  assumes "advance e s g = Some (s', g')"
  shows "ownTrips g' = ownTrips g @ [length (sent s)..<length (sent s')]"
    and "ownWaits g' = ownWaits g @ [waits s..<waits s']"
  using assms by (auto simp: advance_def split: option.splits)

lemma replied_step:
  assumes "sound y" and "all_replied e y" and "perform e ev y = Some z"
  shows "all_replied e z"
  using assms(3)
proof (cases rule: perform_cases)
  case (move i s' g')
  let ?g = "gos y ! i"
  from move(3) obtain st: "go_step e (pc ?g) (frames ?g) (focus ?g (shared y)) = Some (pc g', frames g', s')"
    and own: "ownStatus g' = status s'" by (rule advance_Some)
  have g: "go_ok (shared y) (pc ?g) (frames ?g)"
    "replied e (sent (shared y)) (ownTrips ?g) (ownWaits ?g) (pc ?g) (ownStatus ?g)"
    using assms(1,2) move(2) by (simp_all add: sound_def all_replied_def)
  have same: "sent (focus ?g (shared y)) = sent (shared y)" "waits (focus ?g (shared y)) = waits (shared y)"
    by (simp_all add: focus_def)
  obtain qs where qs: "sent s' = sent (shared y) @ qs" using go_step_sent [OF st] same by auto
  have "replied e (sent s') (ownTrips g') (ownWaits g') (pc g') (ownStatus g')"
    using go_step_replied [OF st] g same own advance_own [OF move(3)] by simp
  moreover have "replied e (sent s') (ownTrips g) (ownWaits g) (pc g) (ownStatus g)" if "g \<in> set (gos y)" for g
    using that assms(2) replied_append qs by (simp add: all_replied_def)
  ultimately show ?thesis
    using move(4) by (auto simp: all_replied_def dest!: set_update_subset_insert [THEN subsetD])
qed (use assms(2) in \<open>auto simp: all_replied_def spawn_def replied_def failed_so_far_def patient_def\<close>)

text \<open>
  C3: under concurrency every request is answered as if it were alone. In every interleaving with
  other requests and with management, whatever the backends answer and whenever clients go away, a
  request still being worked on has written nothing. A finished one has written nothing if its client
  went away during its last wait before a retry; otherwise exactly one status: that of its own last
  round trip if it brought a response, and 503 if all its round trips failed or it made none. It has
  returned, except that it has panicked with \<open>http.ErrAbortHandler\<close> after a response whose body
  could not be copied.
\<close>

theorem concurrent_answers:
  assumes "lb_wf s" and "schedule e evs \<lparr>shared = s, gos = []\<rparr> = Some y" and "g \<in> set (gos y)"
  shows "(request_of (pc g) \<noteq> None \<longrightarrow> ownStatus g = []) \<and>
    (finished g \<longrightarrow>
      (if ownWaits g \<noteq> [] \<and> \<not> timerFirst e (last (ownWaits g)) then pc g = Returning Done \<and> ownStatus g = []
       else if ownTrips g = [] then pc g = Returning Done \<and> ownStatus g = [StatusServiceUnavailable]
       else (case roundtrip e (last (ownTrips g)) (sent (shared y) ! last (ownTrips g)) of
               Responded code \<Rightarrow> pc g = Returning Done \<and> ownStatus g = [code]
             | Aborted code \<Rightarrow> pc g = Returning Panicked \<and> ownStatus g = [code]
             | Failed err \<Rightarrow> pc g = Returning Done \<and> ownStatus g = [StatusServiceUnavailable])))"
proof -
  have start: "sound \<lparr>shared = s, gos = []\<rparr> \<and> all_replied e \<lparr>shared = s, gos = []\<rparr>"
    using assms(1) by (simp add: sound_def all_replied_def)
  have "sound y \<and> all_replied e y"
    by (rule schedule_invariant [OF assms(2), of "\<lambda>y. sound y \<and> all_replied e y", OF start])
      (blast intro: sound_step replied_step)
  then have r: "replied e (sent (shared y)) (ownTrips g) (ownWaits g) (pc g) (ownStatus g)"
    using assms(3) by (simp add: all_replied_def)
  have "(k, ownStatus g) = verdict e (sent (shared y)) (ownTrips g) (ownWaits g)" if "pc g = Returning k" for k
    using r that by (simp add: replied_def)
  moreover have "request_of (pc g) \<noteq> None \<longrightarrow> ownStatus g = []"
    using r completion_request [of "pc g"] by (auto simp: replied_def)
  ultimately show ?thesis
    by (auto simp: finished_def verdict_def split: if_splits outcome.splits)
qed

theorem concurrent_answers_witness:
  "\<exists>y. in_lock_step 18 = Some y \<and> list_all finished (gos y) \<and> length (gos y) = 2 \<and>
     (\<forall>g \<in> set (gos y). ownStatus g = [200])"
proof -
  have "\<not> Option.is_none (in_lock_step 18)" by code_simp
  then obtain y where y: "in_lock_step 18 = Some y" using in_lock_step_runs by blast
  let ?done = "\<lambda>y g. frames g = [] \<and> pc g = Returning Done \<and> ownTrips g \<noteq> [] \<and>
    (case roundtrip (sample_env [''a'']) (last (ownTrips g)) (sent (shared y) ! last (ownTrips g)) of
       Responded code \<Rightarrow> code = 200 | _ \<Rightarrow> False)"
  have "list_all (?done (the (in_lock_step 18))) (gos (the (in_lock_step 18)))"
    "length (gos (the (in_lock_step 18))) = 2" by code_simp+
  then have f: "list_all (?done y) (gos y)" "list_all finished (gos y)" "length (gos y) = 2"
    using y by (auto simp: finished_def list_all_iff)
  have "timerFirst (sample_env [''a'']) n" for n by (simp add: sample_env_def)
  then have "ownStatus g = [200]" if "g \<in> set (gos y)" for g
    using concurrent_answers [OF one_backend_wf y [unfolded in_lock_step_def] that] f that
    by (auto simp: list_all_iff split: outcome.splits)
  with y f show ?thesis by blast
qed

section \<open>Every request ends\<close>

text \<open>
  The steps a goroutine still has to take, at most: \<open>B\<close> is the number of backends in the pool,
  \<open>n\<close> the number of frames. A new attempt costs \<open>B\<close> breaker checks and 34 further steps, its
  four tries, its failure and its return included.
\<close>

definition attempts_left :: "request \<Rightarrow> nat" where
  "attempts_left r = nat (MaxBackendSwitches - getAttemptsFromContext r)"

definition retries_left :: "request \<Rightarrow> nat" where
  "retries_left r = nat (maxRetries - getRetryFromContext r)"

definition after_this :: "nat \<Rightarrow> request \<Rightarrow> nat \<Rightarrow> nat" where
  "after_this B r n = 6 * n + 1 + (attempts_left r - 1) * (B + 34)"

fun work :: "nat \<Rightarrow> control \<Rightarrow> nat \<Rightarrow> nat" where
  "work B (Enter r) n = 6 * n + 1 + attempts_left r * (B + 34)"
| "work B (Filtering r bs kept all) n = after_this B r n + length bs + 33"
| "work B (Pinning r bs) n = after_this B r n + 32"
| "work B (Choosing r bs) n = after_this B r n + 31"
| "work B (Admitting r p) n = after_this B r n + 30"
| "work B (Pinned r p) n = after_this B r n + 29"
| "work B (Counting r p) n = after_this B r n + 28"
| "work B (Gauging r p) n = after_this B r n + 27"
| "work B (Starting r p) n = after_this B r n + 26"
| "work B (Forwarding r p) n = after_this B r n + 4 * retries_left r + 7"
| "work B (InFlight r p m q) n = after_this B r n + 4 * retries_left r + 6"
| "work B (Handling r p err) n = after_this B r n + 4 * retries_left r + 5"
| "work B (Waiting r p m due) n = after_this B r n + 4 * (retries_left r - 1) + 8"
| "work B (Marking r p err) n = after_this B r n + 4"
| "work B (Exporting r p err x) n = after_this B r n + 3"
| "work B (Blaming r p err) n = after_this B r n + 2"
| "work B (Warning r p err) n = after_this B r n + 1"
| "work B (Returning c) n = 6 * n"
| "work B (Recording d) n = 6 * n - 1"
| "work B (Judging d) n = 6 * n - 2"
| "work B (Logging d) n = 6 * n - 3"
| "work B (Ungauging c) n = 6 * n - 4"
| "work B (Uncounting c) n = 6 * n - 5"

lemma left_next [simp]:
  "attempts_left (next_attempt r) = attempts_left r - 1" "retries_left (next_attempt r) = 3"
  "attempts_left (next_retry r) = attempts_left r" "retries_left (next_retry r) = retries_left r - 1"
  "attempts_left (Director t r) = attempts_left r" "retries_left (Director t r) = retries_left r"
  "attempts_left (r\<lparr>requestIDKey := i\<rparr>) = attempts_left r" "retries_left (r\<lparr>requestIDKey := i\<rparr>) = retries_left r"
  by (auto simp: attempts_left_def retries_left_def maxRetries_def)

lemma after_next [simp]:
  "after_this B (next_retry r) n = after_this B r n" "after_this B (Director t r) n = after_this B r n"
  "after_this B (r\<lparr>requestIDKey := i\<rparr>) n = after_this B r n"
  "after_this B r (Suc n) = after_this B r n + 6"
  "6 * n < after_this B r n" "6 * n < after_this B r n + k + j" "6 * n < after_this B r n + k"
  by (simp_all add: after_this_def)

lemma enter_work: "getAttemptsFromContext r < MaxBackendSwitches \<Longrightarrow>
    work B (Enter r) n = after_this B r n + B + 34"
proof -
  assume "getAttemptsFromContext r < MaxBackendSwitches"
  then obtain k where "attempts_left r = Suc k" by (cases "attempts_left r") (auto simp: attempts_left_def)
  then show ?thesis by (simp add: after_this_def)
qed

lemma retries_le: "0 \<le> getRetryFromContext r \<Longrightarrow> retries_left r \<le> 3"
  by (simp add: retries_left_def maxRetries_def)

lemma retries_pos: "getRetryFromContext r < maxRetries \<Longrightarrow> 0 < retries_left r"
  by (simp add: retries_left_def)

lemma go_step_work:
  "go_step e c fs s = Some (c', fs', s') \<Longrightarrow> go_ok s c fs \<Longrightarrow>
   work (length (backends s)) c' (length fs') < work (length (backends s)) c (length fs)"
proof (induction e c fs s rule: go_step.induct)
  case (1 e r fs s)
  then show ?case
    using enter_work [of r "length (backends s)" "length fs"]
    by (auto simp: Backends_def not_less split: if_splits)
next
  case (6 e r peer fs s)
  then show ?case by (auto simp: after_this_def split: prod.splits bool.splits)
next
  case (10 e r peer fs s)
  then have "retries_left r \<le> 3" by (simp add: go_ok_def retries_le)
  with 10 show ?case by (auto simp: Let_def split: prod.splits if_splits)
next
  case (13 e r b err fs s)
  then show ?case using retries_pos [of r] by (auto split: if_splits)
next
  case (14 e r b n due fs s)
  then show ?case by (auto split: if_splits)
next
  case (18 e r b err fs s)
  then show ?case by (auto simp: Let_def after_this_def split: if_splits)
qed (auto simp: go_ok_def Let_def trans_less_add1 split: option.splits outcome.splits if_splits prod.splits bool.splits)


lemma work_spawn: "fresh_request r \<Longrightarrow> work B (pc (spawn r)) (length (frames (spawn r))) = 3 * B + 103"
  by (simp add: spawn_def attempts_left_def fresh_ctx MaxBackendSwitches_def)

definition total_work :: "nat \<Rightarrow> goroutine list \<Rightarrow> nat" where
  "total_work B gs = sum_list (map (\<lambda>g. work B (pc g) (length (frames g))) gs)"

lemma total_work_update:
  "i < length gs \<Longrightarrow> work B (pc g') (length (frames g')) < work B (pc (gs ! i)) (length (frames (gs ! i))) \<Longrightarrow>
   total_work B (gs[i := g']) < total_work B gs"
  unfolding total_work_def
proof (induction gs arbitrary: i)
  case (Cons g gs)
  then show ?case by (cases i) auto
qed simp

lemma advance_work:
  assumes "sound y" and "i < length (gos y)" and "advance e (shared y) (gos y ! i) = Some (s', g')"
  shows "work (length (backends (shared y))) (pc g') (length (frames g')) <
    work (length (backends (shared y))) (pc (gos y ! i)) (length (frames (gos y ! i)))"
proof -
  from assms(3) obtain st: "go_step e (pc (gos y ! i)) (frames (gos y ! i)) (focus (gos y ! i) (shared y)) =
      Some (pc g', frames g', s')" by (rule advance_Some)
  have "go_ok (focus (gos y ! i) (shared y)) (pc (gos y ! i)) (frames (gos y ! i))"
    using assms(1,2) by (simp add: sound_def)
  from go_step_work [OF st this] show ?thesis by simp
qed

lemma move_work:
  assumes "sound y" and "perform e (Move i) y = Some z"
  shows "total_work (length (backends (shared y))) (gos z) < total_work (length (backends (shared y))) (gos y) \<and>
    backends (shared z) = backends (shared y)"
  using assms(2)
proof (cases rule: perform_cases)
  case (move j s' g')
  have "total_work (length (backends (shared y))) ((gos y)[j := g'])
      < total_work (length (backends (shared y))) (gos y)"
    using move(2) advance_work [OF assms(1) move(2,3)] by (intro total_work_update)
  moreover have "backends s' = backends (shared y)" using advance_frame [OF move(3)] by (simp add: serve_frame_def)
  ultimately show ?thesis using move(4) by simp
qed simp_all

text \<open>Events that leave the pool's membership alone, and steps of requests.\<close>

fun keeps_members :: "event \<Rightarrow> bool" where
  "keeps_members (Manage (Register u w)) \<longleftrightarrow> False"
| "keeps_members (Manage (Unregister u)) \<longleftrightarrow> False"
| "keeps_members ev \<longleftrightarrow> True"

fun is_move :: "event \<Rightarrow> bool" where
  "is_move (Move i) \<longleftrightarrow> True"
| "is_move ev \<longleftrightarrow> False"

lemma keeps_backends: "keeps_members (Manage m) \<Longrightarrow> backends (manage m s) = backends s"
  by (cases m) (simp_all add: frame_simps SetAlgorithm_def)

text \<open>What request \<open>i\<close> still has to do; one that has not arrived has everything before it.\<close>

definition own_work :: "nat \<Rightarrow> system \<Rightarrow> nat \<Rightarrow> nat" where
  "own_work B y i =
     (if i < length (gos y) then work B (pc (gos y ! i)) (length (frames (gos y ! i))) else 3 * B + 103)"

lemma event_work:
  assumes "sound y" and "keeps_members ev" and "perform e ev y = Some z"
  defines "B \<equiv> length (backends (shared y))"
  shows "backends (shared z) = backends (shared y) \<and>
    own_work B z i + (if ev = Move i then 1 else 0) \<le> own_work B y i"
  using assms(3)
proof (cases rule: perform_cases)
  case (move j s' g')
  have "own_work B z i + (if j = i then 1 else 0) \<le> own_work B y i"
    using advance_work [OF assms(1) move(2,3)] move(2,4) by (auto simp: own_work_def B_def)
  moreover have "backends s' = backends (shared y)" using advance_frame [OF move(3)] by (simp add: serve_frame_def)
  ultimately show ?thesis using move(1,4) by simp
next
  case (arrive r)
  then show ?thesis by (auto simp: own_work_def nth_append work_spawn not_less_less_Suc_eq)
next
  case (manage m)
  then show ?thesis using assms(2) keeps_backends [of m] by (simp add: own_work_def)
qed (simp_all add: own_work_def)

lemma schedule_work:
  assumes "sound y" and "list_all keeps_members evs" and "schedule e evs y = Some z"
  shows "own_work (length (backends (shared y))) z i + count_list evs (Move i) \<le>
    own_work (length (backends (shared y))) y i"
  using assms
proof (induction evs arbitrary: y)
  case (Cons ev evs)
  from Cons.prems(3) obtain x where x: "perform e ev y = Some x" "schedule e evs x = Some z"
    by (auto simp: bind_eq_Some_conv)
  have "sound x" using Cons.prems(1) x(1) by (rule sound_step)
  then show ?case
    using Cons.IH [of x] Cons.prems(2) x(2) event_work [OF Cons.prems(1) _ x(1), of i]
    by (auto split: if_splits)
qed simp

text \<open>
  C5: termination under any scheduler. As long as no backend is added or removed, however a
  request is interleaved with other requests, with health checks, weight changes and algorithm
  swaps, it takes at most 103 steps and 3 more for every backend in the pool, whatever the other
  requests do; so no interleaving keeps it running for ever.
\<close>

theorem concurrent_steps_bounded:
  assumes "lb_wf s" and "list_all keeps_members evs"
    and "schedule e evs \<lparr>shared = s, gos = []\<rparr> = Some y"
  shows "count_list evs (Move i) \<le> 3 * length (backends s) + 103"
proof -
  have "sound \<lparr>shared = s, gos = []\<rparr>" using assms(1) by (simp add: sound_def)
  from schedule_work [OF this assms(2,3), of i] show ?thesis by (simp add: own_work_def)
qed

theorem concurrent_steps_bounded_witness: "count_list (lock_step 18) (Move 0) \<le> 106"
proof -
  have "\<not> Option.is_none (in_lock_step 18)" by code_simp
  then obtain y where y: "in_lock_step 18 = Some y" using in_lock_step_runs by blast
  have "list_all keeps_members (lock_step 18)" "length (backends one_backend) = 1" by code_simp+
  with concurrent_steps_bounded [OF one_backend_wf _ y [unfolded in_lock_step_def], of 0] show ?thesis by simp
qed

text \<open>Nothing blocks: an unfinished goroutine can move, now or when its timer is due.\<close>

lemma go_step_enabled:
  assumes "go_step e c fs s = None" and "needs_frame c \<longrightarrow> fs \<noteq> []"
  shows "(fs = [] \<and> (\<exists>r. c = Returning r)) \<or>
    (\<exists>r b n due. c = Waiting r b n due \<and> timerFirst e n \<and> now s < due)"
  using assms by (cases "(e, c, fs, s)" rule: go_step.cases) (auto split: if_splits)

definition quiet :: "event \<Rightarrow> bool" where
  "quiet ev \<longleftrightarrow> is_move ev \<or> (\<exists>d. ev = Pass d)"

lemma move_possible:
  assumes "sound y" and "i < length (gos y)" and "\<not> finished (gos y ! i)"
  shows "\<exists>evs z. list_all quiet evs \<and> schedule e evs y = Some z \<and>
    total_work (length (backends (shared y))) (gos z) < total_work (length (backends (shared y))) (gos y) \<and>
    backends (shared z) = backends (shared y)"
proof -
  let ?g = "gos y ! i"
  have moves: "\<exists>z. perform e (Move i) x = Some z" if "go_step e (pc ?g) (frames ?g) (focus ?g (shared x)) \<noteq> None"
    "gos x = gos y" for x
    using that assms(2) by (auto simp: advance_def split: option.split)
  have ok: "needs_frame (pc ?g) \<longrightarrow> frames ?g \<noteq> []" using assms(1,2) by (simp add: sound_def go_ok_def)
  show ?thesis
  proof (cases "go_step e (pc ?g) (frames ?g) (focus ?g (shared y))")
    case (Some a)
    then obtain z where z: "perform e (Move i) y = Some z" using moves [of y] by auto
    with move_work [OF assms(1) z] show ?thesis
      by (intro exI [of _ "[Move i]"] exI [of _ z]) (simp add: quiet_def)
  next
    case None
    from go_step_enabled [OF None ok] obtain r b n due
      where w: "pc ?g = Waiting r b n due" "timerFirst e n" "now (shared y) < due"
      using assms(3) by (auto simp: finished_def)
    let ?d = "due - now (shared y)"
    let ?x = "y\<lparr>shared := (shared y)\<lparr>now := now (shared y) + ?d\<rparr>\<rparr>"
    have p: "perform e (Pass ?d) y = Some ?x" using w(3) by simp
    have "go_step e (pc ?g) (frames ?g) (focus ?g (shared ?x)) \<noteq> None" using w by simp
    then obtain z where z: "perform e (Move i) ?x = Some z" using moves [of ?x] by auto
    with move_work [OF sound_step [OF assms(1) p] z] p show ?thesis
      by (intro exI [of _ "[Pass ?d, Move i]"] exI [of _ z]) (simp add: quiet_def)
  qed
qed


lemma quiet_gos: "quiet ev \<Longrightarrow> perform e ev y = Some z \<Longrightarrow> length (gos z) = length (gos y)"
  by (erule perform_cases) (auto simp: quiet_def)

lemma quiet_schedule: "list_all quiet evs \<Longrightarrow> schedule e evs y = Some z \<Longrightarrow> length (gos z) = length (gos y)"
  by (induction evs arbitrary: y) (auto simp: bind_eq_Some_conv quiet_gos)

lemma schedule_sound: "sound y \<Longrightarrow> schedule e evs y = Some z \<Longrightarrow> sound z"
  using schedule_invariant [where I = sound] sound_step by blast

lemma can_finish:
  assumes "sound y"
  shows "\<exists>evs z. list_all quiet evs \<and> schedule e evs y = Some z \<and> list_all finished (gos z)"
  using assms
proof (induction "total_work (length (backends (shared y))) (gos y)" arbitrary: y rule: less_induct)
  case less
  show ?case
  proof (cases "list_all finished (gos y)")
    case True
    then show ?thesis by (intro exI [of _ "[]"] exI [of _ y]) simp
  next
    case False
    then obtain i where "i < length (gos y)" "\<not> finished (gos y ! i)" by (auto simp: list_all_length)
    from move_possible [OF less.prems this] obtain evs x where
      x: "list_all quiet evs" "schedule e evs y = Some x"
        "total_work (length (backends (shared y))) (gos x) < total_work (length (backends (shared y))) (gos y)"
        "backends (shared x) = backends (shared y)" by blast
    have "sound x" using less.prems x(2) by (rule schedule_sound)
    with less.hyps [of x] x(3,4) obtain evs' z where
      "list_all quiet evs'" "schedule e evs' x = Some z" "list_all finished (gos z)" by auto
    with x(1,2) show ?thesis by (intro exI [of _ "evs @ evs'"] exI [of _ z]) (simp add: schedule_append)
  qed
qed

text \<open>
  C6: no deadlock and no lost request. In every state the program can reach, whatever requests are
  in whatever phase and whatever management has done, the requests' own steps and the passing of
  time alone can bring every one of them to its end; none waits for another.
\<close>

theorem concurrent_requests_finish:
  assumes "lb_wf s" and "schedule e evs \<lparr>shared = s, gos = []\<rparr> = Some y"
  shows "\<exists>evs' z. list_all quiet evs' \<and> schedule e evs' y = Some z \<and>
    length (gos z) = length (gos y) \<and> list_all finished (gos z)"
proof -
  have "sound \<lparr>shared = s, gos = []\<rparr>" using assms(1) by (simp add: sound_def)
  then have "sound y" using assms(2) by (rule schedule_sound)
  from can_finish [OF this] obtain evs' z where
    "list_all quiet evs'" "schedule e evs' y = Some z" "list_all finished (gos z)" by blast
  with quiet_schedule show ?thesis by blast
qed

theorem concurrent_requests_finish_witness:
  "\<exists>y evs z. in_lock_step 9 = Some y \<and> schedule (sample_env [''a'']) evs y = Some z \<and> list_all finished (gos z)"
proof -
  have "\<not> Option.is_none (in_lock_step 9)" by code_simp
  then obtain y where y: "in_lock_step 9 = Some y" using in_lock_step_runs by blast
  show ?thesis
    using concurrent_requests_finish [OF one_backend_wf y [unfolded in_lock_step_def]] y by blast
qed

end
