(* ===== verification/Response_Writer.thy ===== *)
theory Response_Writer
  imports Proxy
begin

text \<open>
  The proxy's \<open>responseWriter\<close> as the nest of wrappers it is: every call of \<open>ServeHTTP\<close> that
  reaches a backend wraps the writer it was given. \<open>Proxy\<close> keeps only the status codes of the
  wrappers, innermost first; \<open>WriteHeader_nest\<close> shows that this is what the nest holds, and the
  other lemmas that \<open>Flush\<close> and \<open>Hijack\<close> reach the client's writer through any number of wrappers.
\<close>

text \<open>
  The client's writer: the status codes it was given, in order, whether it is an \<open>http.Flusher\<close> and how often it was
  flushed, and what its \<open>Hijack\<close> returns if it is an \<open>http.Hijacker\<close>.
\<close>

record 'c client_writer =
  sentStatus :: "int list"
  isFlusher :: bool
  flushed :: nat
  hijacker :: "(string + 'c) option"

datatype 'c writer = ClientWriter "'c client_writer" | Wrapper int "'c writer"

definition wrap :: "'c writer \<Rightarrow> 'c writer" where
  "wrap w = Wrapper StatusOK w"

fun rw_WriteHeader :: "int \<Rightarrow> 'c writer \<Rightarrow> 'c writer" where
  "rw_WriteHeader code (ClientWriter c) =
     ClientWriter (c\<lparr>sentStatus := sentStatus c @ [code]\<rparr>)"
| "rw_WriteHeader code (Wrapper sc w) = Wrapper code (rw_WriteHeader code w)"

text \<open>A wrapper is a \<open>Flusher\<close> and a \<open>Hijacker\<close>, whatever it wraps.\<close>

fun Flush :: "'c writer \<Rightarrow> 'c writer" where
  "Flush (ClientWriter c) = ClientWriter (if isFlusher c then c\<lparr>flushed := Suc (flushed c)\<rparr> else c)"
| "Flush (Wrapper sc w) = Wrapper sc (Flush w)"

fun Hijack :: "'c writer \<Rightarrow> string + 'c" where
  "Hijack (ClientWriter c) =
     (case hijacker c of
        Some result \<Rightarrow> result
      | None \<Rightarrow> Inl ''underlying ResponseWriter does not implement http.Hijacker'')"
| "Hijack (Wrapper sc w) = Hijack w"

section \<open>The nest and the list of codes\<close>

fun codes :: "'c writer \<Rightarrow> int list" where
  "codes (ClientWriter c) = []"
| "codes (Wrapper sc w) = sc # codes w"

fun client_of :: "'c writer \<Rightarrow> 'c client_writer" where
  "client_of (ClientWriter c) = c"
| "client_of (Wrapper sc w) = client_of w"

text \<open>A state's \<open>writers\<close> and \<open>status\<close> are those of a nest.\<close>

definition nest_of :: "lb_state \<Rightarrow> 'c writer \<Rightarrow> bool" where
  "nest_of s w \<longleftrightarrow> writers s = codes w \<and> status s = sentStatus (client_of w)"

lemma codes_WriteHeader: "codes (rw_WriteHeader code w) = map (\<lambda>_. code) (codes w)"
  by (induction w) simp_all

lemma client_WriteHeader:
  "sentStatus (client_of (rw_WriteHeader code w)) = sentStatus (client_of w) @ [code]"
  by (induction w) simp_all

lemma WriteHeader_nest: "nest_of s w \<Longrightarrow> nest_of (WriteHeader code s) (rw_WriteHeader code w)"
  by (simp add: nest_of_def WriteHeader_def codes_WriteHeader client_WriteHeader)

lemma begin_nest: "nest_of s w \<Longrightarrow> nest_of (s\<lparr>writers := StatusOK # writers s\<rparr>) (wrap w)"
  by (simp add: nest_of_def wrap_def)

lemma statusCode_nest: "nest_of s (Wrapper sc w) \<Longrightarrow> statusCode s = sc"
  by (simp add: nest_of_def statusCode_def)

text \<open>Streaming and upgrades work through any number of wrappers.\<close>

lemma Flush_reaches_client:
  "codes (Flush w) = codes w"
  "client_of (Flush w) =
     (if isFlusher (client_of w) then (client_of w)\<lparr>flushed := Suc (flushed (client_of w))\<rparr> else client_of w)"
  by (induction w) simp_all

lemma Hijack_reaches_client: "Hijack w = Hijack (ClientWriter (client_of w))"
  by (induction w) simp_all

end
