(* ===== verification/Gauge.thy ===== *)
theory Gauge
  imports Health
begin

text \<open>
  The exported up gauge under concurrent updates. \<open>MarkBackendStatus\<close> holds the pool's read lock, which
  does not keep its callers apart, and the health checker holds only its own lock; both set a
  backend's flag and then export it, so two updates can overlap. Here an update is these two accesses.
\<close>

section \<open>Updates in two accesses\<close>

text \<open>
  The state with the updates that have set a flag and not yet exported it. \<open>SetFlag b v\<close> is
  \<open>b.SetAlive(v)\<close> (or the look that found the flag already so), \<open>Export i\<close> the \<open>SetBackendUp\<close> of
  the \<open>i\<close>-th pending update.
\<close>

type_synonym 'a updating = "'a pool_state_scheme \<times> (ref \<times> bool) list"

datatype flag_access = SetFlag ref bool | Export nat

fun access :: "flag_access \<Rightarrow> 'a updating \<Rightarrow> 'a updating option" where
  "access (SetFlag b v) (s, pend) = Some (s\<lparr>heap := modify b (SetAlive v) (heap s)\<rparr>, pend @ [(b, v)])"
| "access (Export i) (s, pend) =
     (if i < length pend then
        (case pend ! i of (b, v) \<Rightarrow>
           Some (s\<lparr>mets := SetBackendUp (ref_url s b) v (mets s)\<rparr>, take i pend @ drop (Suc i) pend))
      else None)"

fun accesses :: "flag_access list \<Rightarrow> 'a updating \<Rightarrow> 'a updating option" where
  "accesses [] st = Some st"
| "accesses (a # as) st = Option.bind (access a st) (accesses as)"

text \<open>What \<open>MarkBackendStatus\<close> and a recorded probe do is nothing, or one update.\<close>

lemma MarkBackendStatus_accesses:
  "(find_url (heap s) (URLString u) (backends s) = None \<and> MarkBackendStatus u v s = s) \<or>
   (\<exists>b \<in> set (backends s). accesses [SetFlag b v, Export 0] (s, []) = Some (MarkBackendStatus u v s, []))"
proof (cases "find_url (heap s) (URLString u) (backends s)")
  case (Some b)
  then have "b \<in> set (backends s)" "ref_url s b = URLString u" using find_url_Some by auto
  with Some show ?thesis
    by (intro disjI2 bexI [of _ b]) (simp_all add: MarkBackendStatus_def heap_simps)
qed (simp add: MarkBackendStatus_def)

lemma record_probe_accesses:
  "snd (record_probe ok b (hc, s)) = s \<or>
   accesses [SetFlag b ok, Export 0] (s, []) = Some (snd (record_probe ok b (hc, s)), [])"
  using record_probe_cases [of ok b hc s] by (auto simp: heap_simps)

section \<open>Updates of one backend that do not overlap\<close>






section \<open>Properties\<close>



text \<open>In particular probes and marks one after the other keep the gauges right.\<close>

lemma gauge_sequential:
  assumes "pool_wf s" and "gauge_ok s" and "b \<in> set (backends s)"
  shows "gauge_ok (snd (record_probe ok b (hc, s))) \<and> gauge_ok (MarkBackendStatus u v s)"
  using record_probe_gauge [of "(hc, s)" b ok] MarkBackendStatus_gauge assms by simp


end
