(* ===== verification/Rate_Limit.thy ===== *)
theory Rate_Limit
  imports Complex_Main Golb_Prelude
begin

text \<open>
  Packages \<open>internal/ratelimit\<close> and \<open>internal/middleware\<close>: token buckets, the limiter with one
  bucket or one per client address, its background sweep, and the HTTP middleware.

  A \<open>float64\<close> is a rational number, so the arithmetic is exact; the model says nothing of
  infinities and NaN. Time is a parameter: \<open>now\<close> is the monotonic clock in nanoseconds, read once
  per call, and the Unix time is \<open>epoch + now\<close> in whole seconds. Each method of a bucket holds the
  bucket's lock. A call of \<open>Allow\<close> and a sweep are one step each here, and a run is a sequence of them;
  \<open>Limiter_Steps\<close> takes them apart into their accesses to the \<open>sync.Map\<close> and its entries. A nil pointer
  dereference is \<open>None\<close>.
\<close>

section \<open>Token buckets\<close>

record bucket =
  tokens :: rat
  maxTokens :: rat
  rate :: rat
  lastTime :: instant

definition newBucket :: "instant \<Rightarrow> rat \<Rightarrow> int \<Rightarrow> bucket" where
  "newBucket now r b = \<lparr>tokens = of_int b, maxTokens = of_int b, rate = r, lastTime = now\<rparr>"

text \<open>\<open>Duration.Seconds\<close>.\<close>

definition Seconds :: "duration \<Rightarrow> rat" where
  "Seconds d = of_int d / 1000000000"

definition allow :: "instant \<Rightarrow> bucket \<Rightarrow> bool \<times> bucket" where
  "allow now b =
     (let elapsed = Seconds (now - lastTime b);
          b = b\<lparr>tokens := tokens b + elapsed * rate b\<rparr>;
          b = (if tokens b > maxTokens b then b\<lparr>tokens := maxTokens b\<rparr> else b);
          b = b\<lparr>lastTime := now\<rparr>
      in if tokens b \<ge> 1 then (True, b\<lparr>tokens := tokens b - 1\<rparr>) else (False, b))"

definition retryAfterSeconds :: "bucket \<Rightarrow> int" where
  "retryAfterSeconds b =
     (if rate b \<le> 0 then 1
      else let deficit = 1 - tokens b
           in if deficit \<le> 0 then 1 else \<lceil>deficit / rate b\<rceil>)"

section \<open>The limiter\<close>

record entry =
  entryBucket :: bucket
  lastSeen :: int

record limiter =
  global :: "bucket option"
  perIP :: "string \<rightharpoonup> entry"
  limRate :: rat
  limBurst :: int
  perIPOn :: bool
  stopped :: bool

datatype limiter_error = BadRate rat | BadBurst int

definition NewLimiter :: "instant \<Rightarrow> rat \<Rightarrow> int \<Rightarrow> bool \<Rightarrow> limiter_error + limiter" where
  "NewLimiter now rps b ip =
     (if rps \<le> 0 then Inl (BadRate rps)
      else if b < 1 then Inl (BadBurst b)
      else Inr \<lparr>global = (if \<not> ip then Some (newBucket now rps b) else None), perIP = Map.empty,
        limRate = rps, limBurst = b, perIPOn = ip, stopped = False\<rparr>)"

definition Unix :: "int \<Rightarrow> instant \<Rightarrow> int" where
  "Unix epoch t = (epoch + t) div 1000000000"

definition limiter_Allow :: "int \<Rightarrow> instant \<Rightarrow> string \<Rightarrow> limiter \<Rightarrow> (bool \<times> limiter) option" where
  "limiter_Allow epoch now ip l =
     (if \<not> perIPOn l then
        (case global l of None \<Rightarrow> None
         | Some b \<Rightarrow> (case allow now b of (ok, b) \<Rightarrow> Some (ok, l\<lparr>global := Some b\<rparr>)))
      else
        let e = (case perIP l ip of Some e \<Rightarrow> e
           | None \<Rightarrow> \<lparr>entryBucket = newBucket now (limRate l) (limBurst l), lastSeen = Unix epoch now\<rparr>);
            e = e\<lparr>lastSeen := Unix epoch now\<rparr>
        in case allow now (entryBucket e) of (ok, b) \<Rightarrow>
             Some (ok, l\<lparr>perIP := (perIP l)(ip \<mapsto> e\<lparr>entryBucket := b\<rparr>)\<rparr>))"

definition retryAfter :: "string \<Rightarrow> limiter \<Rightarrow> int option" where
  "retryAfter ip l =
     (if \<not> perIPOn l then map_option retryAfterSeconds (global l)
      else (case perIP l ip of None \<Rightarrow> Some 1 | Some e \<Rightarrow> Some (retryAfterSeconds (entryBucket e))))"

definition Stop :: "limiter \<Rightarrow> limiter" where
  "Stop l = l\<lparr>stopped := True\<rparr>"

text \<open>
  One tick of \<open>cleanup\<close>: entries not seen for five minutes are dropped. Which of its two channels
  the goroutine's \<open>select\<close> takes is the scheduler's choice; a tick is a step like any other.
\<close>

definition sweep :: "int \<Rightarrow> instant \<Rightarrow> limiter \<Rightarrow> limiter" where
  "sweep epoch now l =
     (let cutoff = Unix epoch (now - 300 * 1000000000)
      in l\<lparr>perIP := (\<lambda>ip. case perIP l ip of None \<Rightarrow> None
           | Some e \<Rightarrow> if lastSeen e < cutoff then None else Some e)\<rparr>)"

text \<open>
  The goroutine's loop: a turn takes the closed channel \<open>done\<close>, which ends it, or a tick; between
  turns requests use the limiter.
\<close>

datatype cleanup_turn = CleanupDone | CleanupTick int instant | InUse "limiter \<Rightarrow> limiter"

fun cleanup :: "cleanup_turn list \<Rightarrow> limiter \<Rightarrow> bool \<times> limiter" where
  "cleanup [] l = (False, l)"
| "cleanup (CleanupDone # es) l = (if stopped l then (True, l) else cleanup es l)"
| "cleanup (CleanupTick epoch t # es) l = cleanup es (sweep epoch t l)"
| "cleanup (InUse f # es) l = cleanup es (f l)"

lemma cleanup_stops: "cleanup (CleanupDone # es) (Stop l) = (True, Stop l)"
  by (simp add: Stop_def)

text \<open>As long as nobody stops the limiter the goroutine goes on.\<close>

lemma cleanup_goes_on:
  "\<not> stopped l \<Longrightarrow> (\<And>f l. InUse f \<in> set es \<Longrightarrow> \<not> stopped l \<Longrightarrow> \<not> stopped (f l)) \<Longrightarrow> \<not> fst (cleanup es l)"
  by (induction es l rule: cleanup.induct) (auto simp: sweep_def Let_def)

section \<open>Client addresses\<close>

text \<open>\<open>net.SplitHostPort\<close>, its host or \<open>None\<close> for an error.\<close>

definition SplitHostPort :: "string \<Rightarrow> string option" where
  "SplitHostPort s =
     (if CHR '':'' \<notin> set s then None
      else
        let before = rev (tl (dropWhile (\<lambda>c. c \<noteq> CHR '':'') (rev s))) in
        if hd s = CHR ''['' then
          (if CHR '']'' \<notin> set s then None
           else
             let host = takeWhile (\<lambda>c. c \<noteq> CHR '']'') (tl s) in
             if before \<noteq> ''['' @ host @ '']'' then None
             else if CHR ''['' \<in> set (tl s) \<or> CHR '']'' \<in> set (drop (length host + 2) s) then None
             else Some host)
        else if CHR '':'' \<in> set before then None
        else if CHR ''['' \<in> set s \<or> CHR '']'' \<in> set s then None
        else Some before)"

definition clientIP :: "string \<Rightarrow> string" where
  "clientIP remoteAddr = (case SplitHostPort remoteAddr of None \<Rightarrow> remoteAddr | Some host \<Rightarrow> host)"

section \<open>Middleware\<close>

text \<open>
  A handler takes the clock, the client's address, the request and a state; a panic is \<open>None\<close>.
  \<open>Chain\<close>'s loop runs through the list from its end.
\<close>

type_synonym ('r, 's) handler = "instant \<Rightarrow> string \<Rightarrow> 'r \<Rightarrow> 's \<Rightarrow> 's option"
type_synonym ('r, 's) middleware = "('r, 's) handler \<Rightarrow> ('r, 's) handler"

definition Chain :: "('r, 's) handler \<Rightarrow> ('r, 's) middleware list \<Rightarrow> ('r, 's) handler" where
  "Chain h mws = fold (\<lambda>m h. m h) (rev mws) h"

text \<open>
  The state the limiter's middleware works on: the limiter, the last rejection's \<open>Retry-After\<close> header
  where the request was rejected (with status 429), and the state of the handlers inside.
\<close>

record 's limited =
  limiter :: limiter
  rejected :: "string option"
  inner :: 's

definition limiter_Middleware :: "int \<Rightarrow> ('r, 's limited) middleware" where
  "limiter_Middleware epoch next_handler now remoteAddr r st =
     (let ip = (if perIPOn (limiter st) then clientIP remoteAddr else []) in
      case limiter_Allow epoch now ip (limiter st) of
        None \<Rightarrow> None
      | Some (ok, l) \<Rightarrow>
          if \<not> ok then
            (case retryAfter ip l of None \<Rightarrow> None
             | Some secs \<Rightarrow> Some (st\<lparr>limiter := l, rejected := Some (Itoa secs)\<rparr>))
          else
            next_handler now remoteAddr r (st\<lparr>limiter := l, rejected := None\<rparr>))"

section \<open>One bucket\<close>

definition bucket_wf :: "bucket \<Rightarrow> bool" where
  "bucket_wf b \<longleftrightarrow> 0 \<le> tokens b \<and> tokens b \<le> maxTokens b \<and> 1 \<le> maxTokens b \<and> 0 < rate b"

text \<open>The tokens a bucket would have at an instant.\<close>

definition level :: "instant \<Rightarrow> bucket \<Rightarrow> rat" where
  "level t b = min (maxTokens b) (tokens b + Seconds (t - lastTime b) * rate b)"

lemma Seconds_mono: "s \<le> t \<Longrightarrow> Seconds s \<le> Seconds t"
  by (simp add: Seconds_def divide_right_mono)

lemma Seconds_simps [simp]: "Seconds 0 = 0" "Seconds 1000000000 = 1" "Seconds (s + t) = Seconds s + Seconds t"
  "Seconds (s - t) = Seconds s - Seconds t" "Seconds (n * 1000000000) = of_int n"
  by (simp_all add: Seconds_def add_divide_distrib diff_divide_distrib)

lemma allow_level:
  "allow now b = (1 \<le> level now b,
     b\<lparr>tokens := (if 1 \<le> level now b then level now b - 1 else level now b), lastTime := now\<rparr>)"
  by (simp add: allow_def level_def Let_def min_def)

lemma level_bounds:
  assumes "bucket_wf b" and "lastTime b \<le> t"
  shows "0 \<le> level t b" and "level t b \<le> maxTokens b" and "level t b \<le> tokens b + Seconds (t - lastTime b) * rate b"
proof -
  have "0 \<le> Seconds (t - lastTime b)" using assms(2) Seconds_mono [of 0 "t - lastTime b"] by simp
  then have "0 \<le> Seconds (t - lastTime b) * rate b" using assms(1) by (simp add: bucket_wf_def)
  then show "0 \<le> level t b" using assms(1) by (simp add: level_def bucket_wf_def)
qed (simp_all add: level_def)

lemma allow_wf [wf_intros]: "bucket_wf b \<Longrightarrow> lastTime b \<le> t \<Longrightarrow> bucket_wf (snd (allow t b))"
  using level_bounds [of b t] by (auto simp: allow_level bucket_wf_def)

lemma allow_fields [simp]: "lastTime (snd (allow t b)) = t" "rate (snd (allow t b)) = rate b"
  "maxTokens (snd (allow t b)) = maxTokens b"
  by (simp_all add: allow_level)

lemma newBucket_wf [wf_intros]: "0 < r \<Longrightarrow> 1 \<le> n \<Longrightarrow> bucket_wf (newBucket now r n)"
  by (simp add: bucket_wf_def newBucket_def)

lemma newBucket_fields [simp]: "rate (newBucket now r n) = r" "maxTokens (newBucket now r n) = of_int n"
  "lastTime (newBucket now r n) = now" "tokens (newBucket now r n) = of_int n"
  by (simp_all add: newBucket_def)

text \<open>The requests of one bucket, and how many of them it admits.\<close>

fun allow_run :: "instant list \<Rightarrow> bucket \<Rightarrow> bool list \<times> bucket" where
  "allow_run [] b = ([], b)"
| "allow_run (t # ts) b =
     (case allow t b of (ok, b) \<Rightarrow> (case allow_run ts b of (oks, b) \<Rightarrow> (ok # oks, b)))"

definition admitted :: "bool list \<Rightarrow> int" where
  "admitted oks = int (length (filter id oks))"

lemma admitted_simps [simp]: "admitted [] = 0" "admitted (ok # oks) = (if ok then 1 else 0) + admitted oks"
  by (simp_all add: admitted_def)

lemma allow_run_budget:
  assumes "bucket_wf b" and "sorted (lastTime b # ts)"
  shows "bucket_wf (snd (allow_run ts b)) \<and>
    of_int (admitted (fst (allow_run ts b))) + tokens (snd (allow_run ts b)) \<le>
      tokens b + rate b * Seconds (last (lastTime b # ts) - lastTime b)"
  using assms
proof (induction ts arbitrary: b)
  case (Cons t ts)
  let ?b = "snd (allow t b)"
  have t: "lastTime b \<le> t" and s: "sorted (lastTime ?b # ts)" using Cons.prems(2) by simp_all
  have wf: "bucket_wf ?b" by (rule allow_wf [OF Cons.prems(1) t])
  have "(if fst (allow t b) then 1 else 0) + tokens ?b \<le> tokens b + rate b * Seconds (t - lastTime b)"
    using level_bounds(3) [OF Cons.prems(1) t] by (simp add: allow_level mult.commute)
  with Cons.IH [OF wf s] show ?case
    by (simp add: case_prod_unfold algebra_simps split: if_splits)
qed simp

section \<open>When a refused client may return\<close>

lemma retryAfter_level:
  assumes wf: "bucket_wf b" and less: "tokens b < 1" and t: "lastTime b \<le> t"
  shows "1 \<le> retryAfterSeconds b"
    and "lastTime b + retryAfterSeconds b * 1000000000 \<le> t \<Longrightarrow> 1 \<le> level t b"
    and "t \<le> lastTime b + (retryAfterSeconds b - 1) * 1000000000 \<Longrightarrow> level t b < 1"
proof -
  let ?d = "(1 - tokens b) / rate b"
  have r: "0 < rate b" and m: "1 \<le> maxTokens b" using wf by (auto simp: bucket_wf_def)
  have k: "retryAfterSeconds b = \<lceil>?d\<rceil>" using r less by (simp add: retryAfterSeconds_def Let_def)
  have d: "0 < ?d" using r less by simp
  then show "1 \<le> retryAfterSeconds b" unfolding k by (simp add: less_ceiling_iff flip: zless_iff_Suc_zadd)
  have lev: "1 \<le> level t b \<longleftrightarrow> ?d \<le> Seconds (t - lastTime b)"
    using m r by (simp add: level_def pos_divide_le_eq del: Seconds_simps) linarith
  show "1 \<le> level t b" if "lastTime b + retryAfterSeconds b * 1000000000 \<le> t"
  proof -
    have "of_int (retryAfterSeconds b) \<le> Seconds (t - lastTime b)"
      using Seconds_mono [of "retryAfterSeconds b * 1000000000" "t - lastTime b"] that by simp
    then show ?thesis unfolding lev k by (meson ceiling_correct le_of_int_ceiling order_trans)
  qed
  show "level t b < 1" if "t \<le> lastTime b + (retryAfterSeconds b - 1) * 1000000000"
  proof -
    have "Seconds (t - lastTime b) \<le> of_int (retryAfterSeconds b - 1)"
      using Seconds_mono [of "t - lastTime b" "(retryAfterSeconds b - 1) * 1000000000"] that by simp
    also have "\<dots> < ?d" unfolding k using ceiling_correct [of ?d] by simp
    finally show ?thesis using lev by simp
  qed
qed

section \<open>The limiter as one bucket per client\<close>

text \<open>The bucket a request at \<open>now\<close> from \<open>ip\<close> is charged to.\<close>

definition lim_bucket :: "instant \<Rightarrow> string \<Rightarrow> limiter \<Rightarrow> bucket" where
  "lim_bucket now ip l =
     (if \<not> perIPOn l then (case global l of Some b \<Rightarrow> b | None \<Rightarrow> newBucket now (limRate l) (limBurst l))
      else (case perIP l ip of None \<Rightarrow> newBucket now (limRate l) (limBurst l) | Some e \<Rightarrow> entryBucket e))"

definition entry_ok :: "int \<Rightarrow> instant \<Rightarrow> limiter \<Rightarrow> entry \<Rightarrow> bool" where
  "entry_ok epoch now l e \<longleftrightarrow> bucket_wf (entryBucket e) \<and> rate (entryBucket e) = limRate l \<and>
     maxTokens (entryBucket e) = of_int (limBurst l) \<and> lastTime (entryBucket e) \<le> now \<and>
     lastSeen e = Unix epoch (lastTime (entryBucket e))"

definition global_ok :: "instant \<Rightarrow> limiter \<Rightarrow> bucket \<Rightarrow> bool" where
  "global_ok now l b \<longleftrightarrow> bucket_wf b \<and> rate b = limRate l \<and> maxTokens b = of_int (limBurst l) \<and> lastTime b \<le> now"

definition lim_wf :: "int \<Rightarrow> instant \<Rightarrow> limiter \<Rightarrow> bool" where
  "lim_wf epoch now l \<longleftrightarrow> 0 < limRate l \<and> 1 \<le> limBurst l \<and>
     (if perIPOn l then \<forall>ip e. perIP l ip = Some e \<longrightarrow> entry_ok epoch now l e
      else \<exists>b. global l = Some b \<and> global_ok now l b)"

lemma NewLimiter_wf: "NewLimiter now r b ip = Inr l \<Longrightarrow> lim_wf epoch now l"
  by (auto simp: NewLimiter_def lim_wf_def global_ok_def newBucket_def bucket_wf_def split: if_splits)

lemma lim_wf_later: "lim_wf epoch now l \<Longrightarrow> now \<le> t \<Longrightarrow> lim_wf epoch t l"
  by (fastforce simp: lim_wf_def entry_ok_def global_ok_def)

lemma entry_upd: "e\<lparr>lastSeen := s, entryBucket := b\<rparr> = \<lparr>entryBucket = b, lastSeen = s\<rparr>"
  by (cases e) simp

lemma lim_bucket_ok:
  assumes "lim_wf epoch now l"
  shows "global_ok now l (lim_bucket now ip l)"
  using assms
  by (auto simp: lim_wf_def lim_bucket_def global_ok_def entry_ok_def newBucket_wf split: option.split)

lemma limiter_Allow_bucket:
  assumes "lim_wf epoch now l"
  obtains l' where "limiter_Allow epoch now ip l = Some (fst (allow now (lim_bucket now ip l)), l')"
    and "lim_wf epoch now l'" and "\<And>t. lim_bucket t ip l' = snd (allow now (lim_bucket now ip l))"
    and "retryAfter ip l' = Some (retryAfterSeconds (lim_bucket now ip l'))"
    and "perIPOn l' = perIPOn l" and "limRate l' = limRate l" and "limBurst l' = limBurst l"
    and "\<And>t j. perIPOn l \<Longrightarrow> j \<noteq> ip \<Longrightarrow> perIP l' j = perIP l j"
proof (cases "perIPOn l")
  case True
  let ?b = "snd (allow now (lim_bucket now ip l))"
  let ?l = "l\<lparr>perIP := (perIP l)(ip \<mapsto> \<lparr>entryBucket = ?b, lastSeen = Unix epoch now\<rparr>)\<rparr>"
  have b: "global_ok now l ?b"
    using lim_bucket_ok [OF assms, of ip] allow_wf [of "lim_bucket now ip l" now] by (simp add: global_ok_def)
  have "limiter_Allow epoch now ip l = Some (fst (allow now (lim_bucket now ip l)), ?l)"
    using True by (auto simp: limiter_Allow_def lim_bucket_def Let_def case_prod_unfold entry_upd split: option.split)
  moreover have "lim_wf epoch now ?l"
    using assms b True by (auto simp: lim_wf_def entry_ok_def global_ok_def)
  ultimately show thesis
    using True by (intro that [of ?l]) (simp_all add: lim_bucket_def retryAfter_def)
next
  case False
  then obtain b where b: "global l = Some b" "global_ok now l b" using assms by (auto simp: lim_wf_def)
  let ?l = "l\<lparr>global := Some (snd (allow now b))\<rparr>"
  have "limiter_Allow epoch now ip l = Some (fst (allow now (lim_bucket now ip l)), ?l)"
    using False b by (simp add: limiter_Allow_def lim_bucket_def case_prod_unfold)
  moreover have "lim_wf epoch now ?l"
    using assms b False allow_wf [of b now] by (auto simp: lim_wf_def global_ok_def)
  ultimately show thesis
    using False b(1) by (intro that [of ?l]) (simp_all add: lim_bucket_def retryAfter_def)
qed

section \<open>Clients and sweeps interleaved\<close>

datatype event = Arrives string | Tick

fun limiter_run :: "int \<Rightarrow> (instant \<times> event) list \<Rightarrow> limiter \<Rightarrow> (string \<times> bool) list option" where
  "limiter_run epoch [] l = Some []"
| "limiter_run epoch ((t, Arrives ip) # es) l =
     (case limiter_Allow epoch t ip l of None \<Rightarrow> None
      | Some (ok, l) \<Rightarrow> map_option ((#) (ip, ok)) (limiter_run epoch es l))"
| "limiter_run epoch ((t, Tick) # es) l = limiter_run epoch es (sweep epoch t l)"

definition decisions :: "string \<Rightarrow> (string \<times> bool) list \<Rightarrow> bool list" where
  "decisions ip xs = map snd (filter (\<lambda>x. fst x = ip) xs)"

definition arrivals :: "string \<Rightarrow> (instant \<times> event) list \<Rightarrow> instant list" where
  "arrivals ip es = map fst (filter (\<lambda>x. snd x = Arrives ip) es)"

lemma decisions_arrivals_simps [simp]:
  "decisions ip [] = []" "decisions ip ((j, ok) # xs) = (if j = ip then ok # decisions ip xs else decisions ip xs)"
  "arrivals ip [] = []" "arrivals ip ((t, Tick) # es) = arrivals ip es"
  "arrivals ip ((t, Arrives j) # es) = (if j = ip then t # arrivals ip es else arrivals ip es)"
  by (simp_all add: decisions_def arrivals_def)

lemma allow_same_level:
  "level t b = level t b' \<Longrightarrow> rate b = rate b' \<Longrightarrow> maxTokens b = maxTokens b' \<Longrightarrow> allow t b = allow t b'"
  by (cases b; cases b') (simp add: allow_level)

lemma level_new [simp]: "level t (newBucket t r n) = of_int n"
  by (simp add: level_def)

lemma level_full:
  assumes "bucket_wf b" and "maxTokens b \<le> 300 * rate b" and "lastTime b + 300 * 1000000000 \<le> t"
  shows "level t b = maxTokens b"
proof -
  have "300 \<le> Seconds (t - lastTime b)"
    using Seconds_mono [of "300 * 1000000000" "t - lastTime b"] assms(3) Seconds_simps(5) [of 300] by simp
  then have "300 * rate b \<le> Seconds (t - lastTime b) * rate b"
    using assms(1) by (simp add: bucket_wf_def)
  with assms(1,2) have "maxTokens b \<le> tokens b + Seconds (t - lastTime b) * rate b"
    unfolding bucket_wf_def by linarith
  then show ?thesis by (simp add: level_def)
qed

lemma unseen: "Unix epoch s < Unix epoch (t - d) \<Longrightarrow> s + d \<le> t"
  using zdiv_mono1 [of "epoch + (t - d)" "epoch + s" 1000000000] by (force simp: Unix_def)

text \<open>A sweep drops only buckets that would be full again, so no decision tells it happened.\<close>

lemma sweep_wf:
  assumes "lim_wf epoch t l"
  shows "lim_wf epoch t (sweep epoch t l)"
  using assms by (auto simp: lim_wf_def sweep_def Let_def entry_ok_def global_ok_def split: option.splits if_splits)

lemma sweep_fields [simp]: "perIPOn (sweep epoch t l) = perIPOn l" "limRate (sweep epoch t l) = limRate l"
  "limBurst (sweep epoch t l) = limBurst l"
  by (simp_all add: sweep_def Let_def)

lemma sweep_level:
  assumes wf: "lim_wf epoch t l" and on: "perIPOn l" and fill: "of_int (limBurst l) \<le> 300 * limRate l"
    and u: "t \<le> u"
  shows "level u (lim_bucket u ip (sweep epoch t l)) = level u (lim_bucket u ip l)"
proof (cases "perIP l ip")
  case (Some e)
  then have e: "entry_ok epoch t l e" using wf on by (auto simp: lim_wf_def)
  show ?thesis
  proof (cases "lastSeen e < Unix epoch (t - 300 * 1000000000)")
    case True
    then have "lastTime (entryBucket e) + 300 * 1000000000 \<le> u"
      using e u unseen [of epoch "lastTime (entryBucket e)" t "300 * 1000000000"] by (auto simp: entry_ok_def)
    then have "level u (entryBucket e) = of_int (limBurst l)"
      using e fill level_full [of "entryBucket e" u] by (auto simp: entry_ok_def)
    with Some True on show ?thesis by (simp add: lim_bucket_def sweep_def Let_def)
  qed (use Some on in \<open>simp add: lim_bucket_def sweep_def Let_def\<close>)
qed (use on in \<open>simp add: lim_bucket_def sweep_def Let_def\<close>)

lemma limiter_run_private:
  assumes "lim_wf epoch t l" and "perIPOn l" and "of_int (limBurst l) \<le> 300 * limRate l"
    and "sorted (t # map fst es)" and "rate b = limRate l" and "maxTokens b = of_int (limBurst l)"
    and "\<And>u. t \<le> u \<Longrightarrow> level u (lim_bucket u ip l) = level u b"
  shows "\<exists>xs. limiter_run epoch es l = Some xs \<and> decisions ip xs = fst (allow_run (arrivals ip es) b)"
  using assms
proof (induction es arbitrary: t l b)
  case (Cons x es)
  obtain t' ev where x: "x = (t', ev)" by (cases x)
  have t: "t \<le> t'" and s: "sorted (t' # map fst es)" using Cons.prems(4) x by simp_all
  have wf: "lim_wf epoch t' l" by (rule lim_wf_later [OF Cons.prems(1) t])
  show ?case
  proof (cases ev)
    case Tick
    have "level u (lim_bucket u ip (sweep epoch t' l)) = level u b" if "t' \<le> u" for u
      using sweep_level [OF wf Cons.prems(2,3) that] Cons.prems(7) [of u] t that by simp
    from Cons.IH [OF sweep_wf [OF wf] _ _ s _ _ this] show ?thesis
      using Cons.prems(2,3,5,6) by (simp add: x Tick)
  next
    case (Arrives j)
    obtain l' where a: "limiter_Allow epoch t' j l = Some (fst (allow t' (lim_bucket t' j l)), l')"
      and l': "lim_wf epoch t' l'" "\<And>u. lim_bucket u j l' = snd (allow t' (lim_bucket t' j l))"
        "perIPOn l' = perIPOn l" "limRate l' = limRate l" "limBurst l' = limBurst l"
        "\<And>j'. j' \<noteq> j \<Longrightarrow> perIP l' j' = perIP l j'"
      using limiter_Allow_bucket [OF wf, of j] Cons.prems(2) by metis
    show ?thesis
    proof (cases "j = ip")
      case True
      have eq: "allow t' (lim_bucket t' ip l) = allow t' b"
        using lim_bucket_ok [OF wf, of ip] Cons.prems(5,6) Cons.prems(7) [OF t]
        by (intro allow_same_level) (simp_all add: global_ok_def)
      obtain xs where "limiter_run epoch es l' = Some xs"
        "decisions ip xs = fst (allow_run (arrivals ip es) (snd (allow t' b)))"
        using Cons.IH [OF l'(1) _ _ s, of "snd (allow t' b)"] Cons.prems(2,3,5,6) l' True eq by auto
      with a eq True show ?thesis by (simp add: x Arrives case_prod_unfold)
    next
      case False
      have "lim_bucket u ip l' = lim_bucket u ip l" for u
        using False Cons.prems(2) l'(3,4,5) l'(6) [of ip] by (simp add: lim_bucket_def split: option.split)
      then have "level u (lim_bucket u ip l') = level u b" if "t' \<le> u" for u
        using Cons.prems(7) [of u] that t by simp
      from Cons.IH [OF l'(1) _ _ s _ _ this] show ?thesis
        using Cons.prems(2,3,5,6) l' a False by (auto simp: x Arrives)
    qed
  qed
qed simp

section \<open>The middleware\<close>

lemma Chain_simps [simp]: "Chain h [] = h" "Chain h (m # mws) = m (Chain h mws)"
  by (simp_all add: Chain_def)

lemma SplitHostPort_plain:
  assumes "CHR '':'' \<notin> set host" "CHR ''['' \<notin> set host" "CHR '']'' \<notin> set host"
    and "CHR '':'' \<notin> set port" "CHR ''['' \<notin> set port" "CHR '']'' \<notin> set port" and "host \<noteq> []"
  shows "SplitHostPort (host @ '':'' @ port) = Some host"
proof -
  have "dropWhile (\<lambda>c. c \<noteq> CHR '':'') (rev (host @ '':'' @ port)) = CHR '':'' # rev host"
    using assms(4) by (simp add: dropWhile_append)
  then show ?thesis using assms by (cases host) (auto simp: SplitHostPort_def)
qed

lemma limiter_Middleware_cases:
  assumes "lim_wf epoch now (limiter st)" and "ip = (if perIPOn (limiter st) then clientIP addr else [])"
  obtains l' where "lim_wf epoch now l'" "perIPOn l' = perIPOn (limiter st)"
    "\<And>t. lim_bucket t ip l' = snd (allow now (lim_bucket now ip (limiter st)))"
    "limiter_Middleware epoch next_handler now addr r st =
      (if 1 \<le> level now (lim_bucket now ip (limiter st)) then
         next_handler now addr r (st\<lparr>limiter := l', rejected := None\<rparr>)
       else Some (st\<lparr>limiter := l', rejected := Some (Itoa (retryAfterSeconds (lim_bucket now ip l')))\<rparr>))"
proof -
  obtain l' where a: "limiter_Allow epoch now ip (limiter st) =
      Some (fst (allow now (lim_bucket now ip (limiter st))), l')"
    and l': "lim_wf epoch now l'" "perIPOn l' = perIPOn (limiter st)"
      "\<And>t. lim_bucket t ip l' = snd (allow now (lim_bucket now ip (limiter st)))"
      "retryAfter ip l' = Some (retryAfterSeconds (lim_bucket now ip l'))"
    using limiter_Allow_bucket [OF assms(1), of ip] by metis
  show thesis
    by (rule that [OF l'(1,2,3)])
      (use a l'(4) assms(2) in \<open>simp add: limiter_Middleware_def allow_level\<close>)
qed

text \<open>A refusal leaves the client's bucket below one token, and the header names the wait.\<close>

lemma rejection:
  assumes wf: "lim_wf epoch now (limiter st)"
    and ip: "ip = (if perIPOn (limiter st) then clientIP addr else [])"
    and no: "limiter_Allow epoch now ip (limiter st) = Some (False, l1)"
    and st': "limiter_Middleware epoch next_handler now addr r st = Some st'"
  obtains b where "rejected st' = Some (Itoa (retryAfterSeconds b))" "inner st' = inner st" "bucket_wf b"
    "tokens b < 1" "lastTime b = now" "lim_wf epoch now (limiter st')"
    "perIPOn (limiter st') = perIPOn (limiter st)" "\<And>t. lim_bucket t ip (limiter st') = b"
proof -
  let ?b = "snd (allow now (lim_bucket now ip (limiter st)))"
  obtain l' where l': "lim_wf epoch now l'" "perIPOn l' = perIPOn (limiter st)" "\<And>t. lim_bucket t ip l' = ?b"
    "limiter_Middleware epoch next_handler now addr r st =
      (if 1 \<le> level now (lim_bucket now ip (limiter st)) then
         next_handler now addr r (st\<lparr>limiter := l', rejected := None\<rparr>)
       else Some (st\<lparr>limiter := l', rejected := Some (Itoa (retryAfterSeconds (lim_bucket now ip l')))\<rparr>))"
    using limiter_Middleware_cases [OF wf ip, of next_handler r] by blast
  have low: "\<not> 1 \<le> level now (lim_bucket now ip (limiter st))"
    using limiter_Allow_bucket [OF wf, of ip] no by (metis allow_level fst_conv option.inject prod.inject)
  then have "bucket_wf ?b" "tokens ?b < 1"
    using lim_bucket_ok [OF wf, of ip] allow_wf [of "lim_bucket now ip (limiter st)" now]
    by (auto simp: global_ok_def allow_level)
  with l' low st' show thesis by (intro that [of ?b]) auto
qed

section \<open>Properties\<close>

text \<open>
  C32: a bucket keeps to its rate. In any stretch of its requests, wherever in the bucket's life the
  stretch begins, the requests admitted number at most the burst plus the rate times the stretch's
  length in seconds; and the bucket never holds a negative number of tokens or more than the burst.
\<close>

theorem bucket_keeps_rate:
  assumes "0 < r" and "1 \<le> n" and "sorted (t0 # earlier @ t # ts)"
  shows "of_int (admitted (fst (allow_run (t # ts) (snd (allow_run earlier (newBucket t0 r n))))))
      \<le> of_int n + r * Seconds (last (t # ts) - t) \<and>
    bucket_wf (snd (allow_run earlier (newBucket t0 r n)))"
proof -
  let ?b = "snd (allow_run earlier (newBucket t0 r n))"
  have fields: "rate (snd (allow_run us b)) = rate b" "maxTokens (snd (allow_run us b)) = maxTokens b"
    "lastTime (snd (allow_run us b)) = last (lastTime b # us)" for us b
    by (induction us arbitrary: b) (simp_all add: case_prod_unfold)
  have wf: "bucket_wf ?b"
    using assms allow_run_budget [of "newBucket t0 r n" earlier] newBucket_wf [of r n t0]
    by (simp add: sorted_append)
  have le: "lastTime ?b \<le> t"
    using assms(3) by (cases earlier rule: rev_cases) (auto simp: fields sorted_append)
  let ?c = "snd (allow t ?b)"
  have "of_int (admitted (fst (allow_run ts ?c))) \<le> tokens ?c + r * Seconds (last (t # ts) - t)"
    using allow_run_budget [OF allow_wf [OF wf le], of ts] assms(3)
      allow_run_budget [OF allow_wf [OF wf le], of ts, THEN conjunct1]
    by (simp add: fields sorted_append bucket_wf_def del: Seconds_simps)
  moreover have "(if fst (allow t ?b) then 1 else 0) + tokens ?c \<le> of_int n"
    using level_bounds(2) [OF wf le] by (simp add: allow_level fields)
  ultimately have "of_int (admitted (fst (allow_run (t # ts) ?b))) \<le> of_int n + r * Seconds (last (t # ts) - t)"
    by (simp add: case_prod_unfold split: if_splits)
  with wf show ?thesis by blast
qed

theorem bucket_keeps_rate_witness:
  "admitted (fst (allow_run [5, 500000000, 600000000, 700000000]
      (snd (allow_run [1, 2] (newBucket 0 1 2))))) \<le> 2"
proof -
  have "of_int (admitted (fst (allow_run (5 # [500000000, 600000000, 700000000])
      (snd (allow_run [1, 2] (newBucket 0 1 2)))))) \<le>
      rat_of_int 2 + 1 * Seconds (last (5 # [500000000, 600000000, 700000000]) - 5)"
    by (rule bucket_keeps_rate [THEN conjunct1]) simp_all
  also have "\<dots> < 3" by (simp add: Seconds_def)
  finally show ?thesis by simp
qed

text \<open>
  C30: clients do not disturb one another, and sweeps that do not overlap calls disturb nobody. When a
  bucket refills within the five minutes after which an idle one is dropped, a per-client limiter never
  panics, and whatever the order of calls of \<open>Allow\<close> and sweeps, as long as each ends before the next
  begins, each client's requests are decided as by a private bucket that was created full with the
  limiter and is never dropped. The code does not keep a sweep from overlapping a call:
  \<open>sweep_race_admits\<close> in \<open>Limiter_Steps\<close> is what can happen then, \<open>limiter_race_bound\<close> what cannot.
\<close>

theorem clients_isolated:
  assumes "NewLimiter t0 r n True = Inr l" and "of_int n \<le> 300 * r" and "sorted (t0 # map fst es)"
  shows "\<exists>xs. limiter_run epoch es l = Some xs \<and>
    decisions ip xs = fst (allow_run (arrivals ip es) (newBucket t0 r n))"
proof -
  have l: "perIPOn l" "perIP l = Map.empty" "limRate l = r" "limBurst l = n" "0 < r" "1 \<le> n"
    using assms(1) by (auto simp: NewLimiter_def split: if_splits)
  have "level u (newBucket t0 r n) = of_int n" if "t0 \<le> u" for u
  proof -
    have "0 \<le> Seconds (u - t0) * r"
      using Seconds_mono [of 0 "u - t0"] that l(5) by simp
    then show ?thesis by (simp add: level_def del: Seconds_simps)
  qed
  then show ?thesis
    using limiter_run_private [OF NewLimiter_wf [OF assms(1)] l(1), of es "newBucket t0 r n" ip] assms(2,3) l
    by (simp add: lim_bucket_def)
qed

theorem clients_isolated_witness:
  "\<exists>xs. limiter_run 0 [(0, Arrives ''a''), (1, Arrives ''a''), (2, Arrives ''b''), (400000000000, Tick),
        (400000000001, Arrives ''a'')]
      \<lparr>global = None, perIP = Map.empty, limRate = 1, limBurst = 1, perIPOn = True, stopped = False\<rparr> = Some xs \<and>
    decisions ''a'' xs = [True, False, True]"
proof -
  let ?es = "[(0, Arrives ''a''), (1, Arrives ''a''), (2, Arrives ''b''), (400000000000, Tick),
        (400000000001, Arrives ''a'')]"
  have "fst (allow_run (arrivals ''a'' ?es) (newBucket 0 1 1)) = [True, False, True]"
    by (simp add: allow_level level_def Seconds_def)
  moreover have "NewLimiter 0 1 1 True = Inr \<lparr>global = None, perIP = Map.empty, limRate = 1, limBurst = 1,
      perIPOn = True, stopped = False\<rparr>"
    by (simp add: NewLimiter_def)
  note clients_isolated [OF this, of ?es 0 "''a''"]
  ultimately show ?thesis by simp
qed

text \<open>
  C33: the \<open>Retry-After\<close> header is right to the second. A rejected request reaches no handler inside,
  and its header names a number of seconds, at least 1, such that the client's next request is passed on
  if it comes no sooner than that, whatever port it comes from, and is rejected again if it comes
  a whole second sooner.
\<close>

theorem retry_after_exact:
  assumes wf: "lim_wf epoch now (limiter st)"
    and ip: "ip = (if perIPOn (limiter st) then clientIP addr else [])"
    and no: "limiter_Allow epoch now ip (limiter st) = Some (False, l1)"
    and st': "limiter_Middleware epoch next_handler now addr r st = Some st'"
  shows "inner st' = inner st \<and> (\<exists>k \<ge> 1. rejected st' = Some (Itoa k) \<and>
    (\<forall>t addr' r'. clientIP addr' = clientIP addr \<longrightarrow> now \<le> t \<longrightarrow>
      (\<exists>l. (now + k * 1000000000 \<le> t \<longrightarrow> limiter_Middleware epoch next_handler t addr' r' st' =
          next_handler t addr' r' (st'\<lparr>limiter := l, rejected := None\<rparr>)) \<and>
        (t \<le> now + (k - 1) * 1000000000 \<longrightarrow> (\<exists>h'. limiter_Middleware epoch next_handler t addr' r' st' =
          Some (st'\<lparr>limiter := l, rejected := Some h'\<rparr>))))))"
proof -
  obtain b where b: "rejected st' = Some (Itoa (retryAfterSeconds b))" "inner st' = inner st" "bucket_wf b"
    "tokens b < 1" "lastTime b = now" "lim_wf epoch now (limiter st')"
    "perIPOn (limiter st') = perIPOn (limiter st)" "\<And>t. lim_bucket t ip (limiter st') = b"
    using rejection [OF wf ip no st'] by blast
  have "\<exists>l. (now + retryAfterSeconds b * 1000000000 \<le> t \<longrightarrow> limiter_Middleware epoch next_handler t addr' r' st' =
          next_handler t addr' r' (st'\<lparr>limiter := l, rejected := None\<rparr>)) \<and>
        (t \<le> now + (retryAfterSeconds b - 1) * 1000000000 \<longrightarrow>
          (\<exists>h'. limiter_Middleware epoch next_handler t addr' r' st' = Some (st'\<lparr>limiter := l, rejected := Some h'\<rparr>)))"
    if same: "clientIP addr' = clientIP addr" and t: "now \<le> t" for t addr' r'
  proof -
    have ip': "ip = (if perIPOn (limiter st') then clientIP addr' else [])" using same b(7) ip by simp
    obtain l where l: "limiter_Middleware epoch next_handler t addr' r' st' =
      (if 1 \<le> level t (lim_bucket t ip (limiter st')) then
         next_handler t addr' r' (st'\<lparr>limiter := l, rejected := None\<rparr>)
       else Some (st'\<lparr>limiter := l, rejected := Some (Itoa (retryAfterSeconds (lim_bucket t ip l)))\<rparr>))"
      using limiter_Middleware_cases [OF lim_wf_later [OF b(6) t] ip', of next_handler r'] by blast
    show ?thesis
      using retryAfter_level(2,3) [OF b(3,4), of t] b(5) t
      by (intro exI [of _ l]) (auto simp: l b(8))
  qed
  with b(1,2) retryAfter_level(1) [OF b(3,4)] b(5) show ?thesis by blast
qed

definition counting_handler :: "(unit, int limited) handler" where
  "counting_handler t addr r st = Some (st\<lparr>inner := inner st + 1\<rparr>)"

definition drained :: "int limited" where
  "drained = \<lparr>limiter = \<lparr>global = None,
     perIP = [''10.0.0.1'' \<mapsto> \<lparr>entryBucket = (newBucket 0 1 1)\<lparr>tokens := 0\<rparr>, lastSeen = 0\<rparr>],
     limRate = 1, limBurst = 1, perIPOn = True, stopped = False\<rparr>, rejected = None, inner = 1\<rparr>"

theorem retry_after_exact_witness:
  "\<exists>st' k l. limiter_Middleware 0 counting_handler 1 ''10.0.0.1:5000'' () drained = Some st' \<and>
     1 \<le> k \<and> rejected st' = Some (Itoa k) \<and>
     limiter_Middleware 0 counting_handler (1 + k * 1000000000) ''10.0.0.1:6000'' () st' =
       Some (st'\<lparr>limiter := l, rejected := None, inner := 2\<rparr>)"
proof -
  have ip: "clientIP ''10.0.0.1:5000'' = ''10.0.0.1''" "clientIP ''10.0.0.1:6000'' = ''10.0.0.1''"
    by (simp_all add: clientIP_def SplitHostPort_def)
  have wf: "lim_wf 0 1 (limiter drained)"
    by (simp add: lim_wf_def drained_def entry_ok_def bucket_wf_def Unix_def)
  have on: "''10.0.0.1'' = (if perIPOn (limiter drained) then clientIP ''10.0.0.1:5000'' else [])"
    by (simp add: drained_def ip)
  obtain l1 where no: "limiter_Allow 0 1 ''10.0.0.1'' (limiter drained) = Some (False, l1)"
    by (simp add: limiter_Allow_def allow_level level_def Seconds_def drained_def)
  obtain st' where rej: "limiter_Middleware 0 counting_handler 1 ''10.0.0.1:5000'' () drained = Some st'"
    by (simp add: limiter_Middleware_def limiter_Allow_def allow_level level_def Seconds_def drained_def ip
        retryAfter_def)
  obtain k where k: "1 \<le> k" "rejected st' = Some (Itoa k)"
    and later: "\<And>t addr r. clientIP addr = clientIP ''10.0.0.1:5000'' \<Longrightarrow> 1 \<le> t \<Longrightarrow> 1 + k * 1000000000 \<le> t \<Longrightarrow>
      \<exists>l. limiter_Middleware 0 counting_handler t addr r st' =
        counting_handler t addr r (st'\<lparr>limiter := l, rejected := None\<rparr>)"
    and same: "inner st' = inner drained"
    using retry_after_exact [OF wf on no rej] by blast
  have "inner st' = 1" using same by (simp add: drained_def)
  with later [of "''10.0.0.1:6000''" "1 + k * 1000000000" "()"] k rej ip show ?thesis
    by (auto simp: counting_handler_def)
qed

end
