(* ===== verification/Limiter_Steps.thy ===== *)
theory Limiter_Steps
  imports Rate_Limit
begin

text \<open>
  The per-client limiter at the granularity of its shared accesses. \<open>Rate_Limit\<close> treats a call of
  \<open>Allow\<close> and a sweep as one step each; in the code they are sequences of operations on a
  \<open>sync.Map\<close>, on an entry's atomic \<open>lastSeen\<close> and on a bucket under its lock, and those of several
  requests and of the sweeping goroutine interleave. Here every such operation is a step of its own.
  The entries lie in a list of cells that only grows, so an entry that was removed from the map is
  still there for the calls that hold it.
\<close>

section \<open>The state\<close>

text \<open>
  Where a call of \<open>Allow\<close> stands: about to \<open>Load\<close>, to \<open>LoadOrStore\<close> the entry it has made, to store
  \<open>lastSeen\<close>, to take a token, or done; \<open>seen\<close> is its \<open>now\<close>.
\<close>

datatype allow_phase =
    Loading int | Storing int entry | Touching int nat | Taking nat | Decided nat bool

text \<open>
  The sweeping goroutine waits for a tick, is in \<open>Range\<close> with its cutoff and the keys it has visited,
  or is about to delete a key it has found unseen.
\<close>

datatype sweep_phase = Waiting | Ranging int "string list" | Condemned int "string list" string

record shared =
  cells :: "(string \<times> entry) list" \<comment> \<open>every entry stored so far, with its key\<close>
  table :: "string \<rightharpoonup> nat" \<comment> \<open>\<open>perIP\<close>: the cell a key is mapped to\<close>
  underway :: "(string \<times> allow_phase) list" \<comment> \<open>the calls of \<open>Allow\<close> so far\<close>
  sweeper :: sweep_phase
  clockNow :: instant
  dropped :: "string \<Rightarrow> nat" \<comment> \<open>history: how often \<open>Delete\<close> removed the key's entry\<close>

definition shared_start :: "instant \<Rightarrow> shared" where
  "shared_start t0 = \<lparr>cells = [], table = Map.empty, underway = [], sweeper = Waiting, clockNow = t0,
     dropped = (\<lambda>_. 0)\<rparr>"

section \<open>The accesses\<close>

text \<open>One access of a call of \<open>Allow\<close> for \<open>ip\<close>.\<close>

fun allow_access :: "int \<Rightarrow> limiter \<Rightarrow> string \<Rightarrow> allow_phase \<Rightarrow> shared \<Rightarrow> (allow_phase \<times> shared) option" where
  "allow_access epoch l ip (Loading seen) s =
     (case table s ip of
        Some r \<Rightarrow> Some (Touching seen r, s)
      | None \<Rightarrow> Some (Storing seen
          \<lparr>entryBucket = newBucket (clockNow s) (limRate l) (limBurst l), lastSeen = seen\<rparr>, s))"
| "allow_access epoch l ip (Storing seen e) s =
     (case table s ip of
        Some r \<Rightarrow> Some (Touching seen r, s)
      | None \<Rightarrow> Some (Touching seen (length (cells s)),
          s\<lparr>cells := cells s @ [(ip, e)], table := (table s)(ip \<mapsto> length (cells s))\<rparr>))"
| "allow_access epoch l ip (Touching seen r) s =
     (case cells s ! r of (j, e) \<Rightarrow>
        Some (Taking r, s\<lparr>cells := (cells s)[r := (j, e\<lparr>lastSeen := seen\<rparr>)]\<rparr>))"
| "allow_access epoch l ip (Taking r) s =
     (case cells s ! r of (j, e) \<Rightarrow>
        (case allow (clockNow s) (entryBucket e) of (ok, b) \<Rightarrow>
           Some (Decided r ok, s\<lparr>cells := (cells s)[r := (j, e\<lparr>entryBucket := b\<rparr>)]\<rparr>)))"
| "allow_access epoch l ip (Decided r ok) s = None"

text \<open>
  \<open>Visit ip r\<close> is \<open>Range\<close>'s function called with the key \<open>ip\<close> and the entry in cell \<open>r\<close>, up to the
  comparison. \<open>Range\<close> visits no key twice and may show any value the key had while it runs; here it
  may show any entry ever stored for the key.
\<close>

datatype limiter_access = CallAllow string | Advance nat | SweepTick | Visit string nat | DeleteKey | RangeEnd | Pass duration

fun lim_step :: "int \<Rightarrow> limiter \<Rightarrow> limiter_access \<Rightarrow> shared \<Rightarrow> shared option" where
  "lim_step epoch l (CallAllow ip) s =
     Some (s\<lparr>underway := underway s @ [(ip, Loading (Unix epoch (clockNow s)))]\<rparr>)"
| "lim_step epoch l (Advance k) s =
     (if k < length (underway s) then
        (case underway s ! k of (ip, ph) \<Rightarrow>
           (case allow_access epoch l ip ph s of
              None \<Rightarrow> None
            | Some (ph, s') \<Rightarrow> Some (s'\<lparr>underway := (underway s)[k := (ip, ph)]\<rparr>)))
      else None)"
| "lim_step epoch l SweepTick s =
     (if sweeper s = Waiting then
        Some (s\<lparr>sweeper := Ranging (Unix epoch (clockNow s - 300 * 1000000000)) []\<rparr>)
      else None)"
| "lim_step epoch l (Visit ip r) s =
     (case sweeper s of
        Ranging cutoff visited \<Rightarrow>
          if ip \<in> set visited \<or> length (cells s) \<le> r \<or> fst (cells s ! r) \<noteq> ip then None
          else Some (s\<lparr>sweeper := (if lastSeen (snd (cells s ! r)) < cutoff
                 then Condemned cutoff (ip # visited) ip else Ranging cutoff (ip # visited))\<rparr>)
      | _ \<Rightarrow> None)"
| "lim_step epoch l DeleteKey s =
     (case sweeper s of
        Condemned cutoff visited ip \<Rightarrow>
          Some (s\<lparr>sweeper := Ranging cutoff visited, table := (table s)(ip := None),
             dropped := (if table s ip = None then dropped s else (dropped s)(ip := dropped s ip + 1))\<rparr>)
      | _ \<Rightarrow> None)"
| "lim_step epoch l RangeEnd s =
     (case sweeper s of Ranging cutoff visited \<Rightarrow> Some (s\<lparr>sweeper := Waiting\<rparr>) | _ \<Rightarrow> None)"
| "lim_step epoch l (Pass d) s = (if 0 \<le> d then Some (s\<lparr>clockNow := clockNow s + d\<rparr>) else None)"

fun lim_steps :: "int \<Rightarrow> limiter \<Rightarrow> limiter_access list \<Rightarrow> shared \<Rightarrow> shared option" where
  "lim_steps epoch l [] s = Some s"
| "lim_steps epoch l (a # as) s = Option.bind (lim_step epoch l a s) (lim_steps epoch l as)"

text \<open>How many calls for \<open>ip\<close> were admitted.\<close>

definition grants :: "string \<Rightarrow> shared \<Rightarrow> nat" where
  "grants ip s = length (filter (\<lambda>(j, ph). j = ip \<and> (case ph of Decided r ok \<Rightarrow> ok | _ \<Rightarrow> False)) (underway s))"

section \<open>The invariant\<close>

definition cell_ok :: "limiter \<Rightarrow> instant \<Rightarrow> entry \<Rightarrow> bool" where
  "cell_ok l t e \<longleftrightarrow> bucket_wf (entryBucket e) \<and> rate (entryBucket e) = limRate l \<and>
     maxTokens (entryBucket e) = of_int (limBurst l) \<and> lastTime (entryBucket e) \<le> t"

text \<open>What a cell may have granted at most: its burst and what has flowed in, less what it still holds.\<close>

definition spent :: "instant \<Rightarrow> limiter \<Rightarrow> entry \<Rightarrow> rat" where
  "spent t0 l e = of_int (limBurst l) + limRate l * Seconds (lastTime (entryBucket e) - t0) - tokens (entryBucket e)"

definition owned :: "string \<Rightarrow> shared \<Rightarrow> entry list" where
  "owned ip s = map snd (filter (\<lambda>(j, e). j = ip) (cells s))"

definition holds :: "shared \<Rightarrow> string \<Rightarrow> nat \<Rightarrow> bool" where
  "holds s ip r \<longleftrightarrow> r < length (cells s) \<and> fst (cells s ! r) = ip"

fun phase_ok :: "instant \<Rightarrow> limiter \<Rightarrow> shared \<Rightarrow> string \<Rightarrow> allow_phase \<Rightarrow> bool" where
  "phase_ok t0 l s ip (Loading seen) = True"
| "phase_ok t0 l s ip (Storing seen e) \<longleftrightarrow>
     (\<exists>c. t0 \<le> c \<and> c \<le> clockNow s \<and> entryBucket e = newBucket c (limRate l) (limBurst l))"
| "phase_ok t0 l s ip (Touching seen r) = holds s ip r"
| "phase_ok t0 l s ip (Taking r) = holds s ip r"
| "phase_ok t0 l s ip (Decided r ok) = True"

definition shared_inv :: "instant \<Rightarrow> limiter \<Rightarrow> shared \<Rightarrow> bool" where
  "shared_inv t0 l s \<longleftrightarrow> t0 \<le> clockNow s \<and>
     (\<forall>(j, e) \<in> set (cells s). cell_ok l (clockNow s) e) \<and>
     (\<forall>ip r. table s ip = Some r \<longrightarrow> holds s ip r) \<and>
     (\<forall>(ip, ph) \<in> set (underway s). phase_ok t0 l s ip ph) \<and>
     (\<forall>ip. length (owned ip s) = dropped s ip + (if table s ip = None then 0 else 1)) \<and>
     (\<forall>ip. of_nat (grants ip s) \<le> sum_list (map (spent t0 l) (owned ip s)))"


lemma length_filter_update:
  "k < length xs \<Longrightarrow> \<not> P (xs ! k) \<Longrightarrow> length (filter P (xs[k := y])) = length (filter P xs) + (if P y then 1 else 0)"
proof (induction xs arbitrary: k)
  case (Cons x xs)
  then show ?case by (cases k) auto
qed simp

lemma sum_key_update:
  fixes f :: "'b \<Rightarrow> rat"
  assumes "k < length xs" and "xs ! k = (j, e)"
  shows "sum_list (map f (map snd (filter (\<lambda>(i, e). i = ip) (xs[k := (j, y)])))) =
    sum_list (map f (map snd (filter (\<lambda>(i, e). i = ip) xs))) + (if j = ip then f y - f e else 0)"
  using assms
proof (induction xs arbitrary: k)
  case (Cons x xs)
  then show ?case by (cases k) (auto split: prod.splits)
qed simp

lemma length_key_update:
  assumes "k < length xs" and "fst (xs ! k) = j"
  shows "length (filter (\<lambda>(i, e). i = ip) (xs[k := (j, y)])) = length (filter (\<lambda>(i, e). i = ip) xs)"
  using assms
proof (induction xs arbitrary: k)
  case (Cons x xs)
  then show ?case by (cases k) (auto split: prod.splits)
qed simp

lemma spent_new [simp]: "entryBucket e = newBucket c (limRate l) (limBurst l) \<Longrightarrow>
    spent t0 l e = limRate l * Seconds (c - t0)"
  by (simp add: spent_def del: Seconds_simps)

lemma spent_take:
  assumes "cell_ok l t e" and "allow t (entryBucket e) = (ok, b)"
  shows "cell_ok l t (e\<lparr>entryBucket := b\<rparr>)" and "spent t0 l e + (if ok then 1 else 0) \<le> spent t0 l (e\<lparr>entryBucket := b\<rparr>)"
proof -
  have wf: "bucket_wf (entryBucket e)" "lastTime (entryBucket e) \<le> t" using assms(1) by (auto simp: cell_ok_def)
  have ok: "ok = (1 \<le> level t (entryBucket e))" and b: "b = snd (allow t (entryBucket e))"
    using assms(2) by (auto simp: allow_level)
  show "cell_ok l t (e\<lparr>entryBucket := b\<rparr>)" using assms(1) allow_wf [OF wf] by (simp add: cell_ok_def b)
  have "(if ok then 1 else 0) + tokens b \<le> tokens (entryBucket e) + Seconds (t - lastTime (entryBucket e)) * limRate l"
    using level_bounds(3) [OF wf] assms(1) by (simp add: b ok allow_level cell_ok_def)
  moreover have "lastTime b = t" by (simp add: b)
  ultimately show "spent t0 l e + (if ok then 1 else 0) \<le> spent t0 l (e\<lparr>entryBucket := b\<rparr>)"
    by (simp add: spent_def algebra_simps)
qed

text \<open>A call's access: the parts of the invariant that concern the cells, and what becomes of the call.\<close>

lemma phase_ok_mono:
  assumes "phase_ok t0 l s ip ph" and "clockNow s \<le> clockNow s'" and "\<And>j r. holds s j r \<Longrightarrow> holds s' j r"
  shows "phase_ok t0 l s' ip ph"
  using assms by (cases ph) auto

lemma grants_advance:
  assumes "k < length (underway s)" and "underway s ! k = (ip, ph)" and "\<And>r ok. ph \<noteq> Decided r ok"
  shows "grants j (s1\<lparr>underway := (underway s)[k := (ip, ph')]\<rparr>) =
    grants j s + (if j = ip \<and> (case ph' of Decided r ok \<Rightarrow> ok | _ \<Rightarrow> False) then 1 else 0)"
  using assms(2,3) length_filter_update [OF assms(1)]
  by (cases ph) (auto simp: grants_def)

lemma advance_inv:
  assumes inv: "shared_inv t0 l s" and k: "k < length (underway s)" "underway s ! k = (ip, ph)"
    and "clockNow s1 = clockNow s" and "\<And>j r. holds s j r \<Longrightarrow> holds s1 j r"
    and "\<forall>(j, e) \<in> set (cells s1). cell_ok l (clockNow s) e"
    and "\<And>ip r. table s1 ip = Some r \<Longrightarrow> holds s1 ip r"
    and "phase_ok t0 l s1 ip ph'"
    and "\<And>ip. length (owned ip s1) = dropped s1 ip + (if table s1 ip = None then 0 else 1)"
    and "\<And>j. of_nat (if j = ip \<and> (case ph' of Decided r ok \<Rightarrow> ok | _ \<Rightarrow> False) then 1 else 0) +
      sum_list (map (spent t0 l) (owned j s)) \<le> sum_list (map (spent t0 l) (owned j s1))"
    and undecided: "\<And>r ok. ph \<noteq> Decided r ok"
  shows "shared_inv t0 l (s1\<lparr>underway := (underway s)[k := (ip, ph')]\<rparr>)"
proof -
  let ?s = "s1\<lparr>underway := (underway s)[k := (ip, ph')]\<rparr>"
  have same: "holds ?s = holds s1" "owned j ?s = owned j s1" "phase_ok t0 l ?s j p = phase_ok t0 l s1 j p" for j p
    by (cases p; simp add: holds_def owned_def fun_eq_iff)+
  have "phase_ok t0 l s1 j p" if "(j, p) \<in> set ((underway s)[k := (ip, ph')])" for j p
  proof (cases "(j, p) = (ip, ph')")
    case False
    then have "phase_ok t0 l s j p"
      using inv that set_update_subset_insert [of "underway s" k "(ip, ph')"] by (fastforce simp: shared_inv_def)
    then show ?thesis by (rule phase_ok_mono) (simp_all add: assms(4,5))
  qed (use assms(8) in simp)
  moreover have "of_nat (grants j ?s) \<le> sum_list (map (spent t0 l) (owned j s1))" for j
  proof -
    have "of_nat (grants j s) \<le> sum_list (map (spent t0 l) (owned j s))" using inv by (simp add: shared_inv_def)
    with assms(10) [of j] show ?thesis
      unfolding grants_advance [OF k undecided] of_nat_add by linarith
  qed
  ultimately show ?thesis
    using inv assms(4,6,7,9) by (auto simp: shared_inv_def same)
qed

lemma holds_update: "r < length (cells s) \<Longrightarrow> cells s ! r = (j, e) \<Longrightarrow>
    holds (s\<lparr>cells := (cells s)[r := (j, e')]\<rparr>) = holds s"
  by (auto simp: holds_def fun_eq_iff nth_list_update)

lemma cells_update:
  assumes "\<forall>(j, e) \<in> set (cells s). cell_ok l t e" and "cell_ok l t e'"
  shows "\<forall>(j, e) \<in> set ((cells s)[r := (i, e')]). cell_ok l t e"
  using assms set_update_subset_insert [of "cells s" r "(i, e')"] by fastforce

lemma Advance_inv:
  assumes inv: "shared_inv t0 l s" and step: "lim_step epoch l (Advance k) s = Some s'"
    and l: "0 < limRate l" "1 \<le> limBurst l"
  shows "shared_inv t0 l s'"
proof -
  obtain ip ph ph' s1 where k: "k < length (underway s)" "underway s ! k = (ip, ph)"
    and a: "allow_access epoch l ip ph s = Some (ph', s1)"
    and s': "s' = s1\<lparr>underway := (underway s)[k := (ip, ph')]\<rparr>"
    using step by (cases "underway s ! k") (auto split: if_splits option.splits)
  have ok: "phase_ok t0 l s ip ph" using inv k nth_mem [OF k(1)] by (fastforce simp: shared_inv_def)
  have cells: "\<forall>(j, e) \<in> set (cells s). cell_ok l (clockNow s) e" and tab: "\<And>ip r. table s ip = Some r \<Longrightarrow> holds s ip r"
    and len: "\<And>ip. length (owned ip s) = dropped s ip + (if table s ip = None then 0 else 1)"
    and t0: "t0 \<le> clockNow s"
    using inv by (auto simp: shared_inv_def)
  show ?thesis
  proof (cases ph)
    case (Loading seen)
    have s1: "s1 = s" and "phase_ok t0 l s ip ph'" "\<And>r ok. ph' \<noteq> Decided r ok"
      using a Loading tab t0 by (auto split: option.splits)
    then show ?thesis unfolding s' s1
      by (intro advance_inv [OF inv k]) (use cells tab len Loading in \<open>auto split: allow_phase.splits\<close>)
  next
    case (Storing seen e)
    show ?thesis
    proof (cases "table s ip")
      case None
      have s1: "s1 = s\<lparr>cells := cells s @ [(ip, e)], table := (table s)(ip \<mapsto> length (cells s))\<rparr>"
        and ph': "ph' = Touching seen (length (cells s))" using a Storing None by auto
      obtain c where c: "t0 \<le> c" "c \<le> clockNow s" "entryBucket e = newBucket c (limRate l) (limBurst l)"
        using ok Storing by auto
      have h: "holds s j r \<Longrightarrow> holds s1 j r" for j r by (simp add: s1 holds_def nth_append)
      have "cell_ok l (clockNow s) e" using c l newBucket_wf [OF l] by (simp add: cell_ok_def)
      moreover have "0 \<le> spent t0 l e"
        using Seconds_mono [of 0 "c - t0"] c(1) l(1) unfolding spent_new [OF c(3)] by simp
      ultimately show ?thesis unfolding s'
        by (intro advance_inv [OF inv k])
          (use h cells tab len Storing None in \<open>auto simp: s1 ph' owned_def holds_def nth_append split: if_splits\<close>)
    next
      case (Some r)
      have s1: "s1 = s" and ph': "ph' = Touching seen r" using a Storing Some by auto
      then show ?thesis unfolding s' s1
        by (intro advance_inv [OF inv k]) (use cells tab len Storing Some in auto)
    qed
  next
    case (Touching seen r)
    obtain e where r: "r < length (cells s)" "cells s ! r = (ip, e)"
      using ok Touching by (cases "cells s ! r") (auto simp: holds_def)
    have e: "cell_ok l (clockNow s) e" using cells r nth_mem [OF r(1)] by fastforce
    have s1: "s1 = s\<lparr>cells := (cells s)[r := (ip, e\<lparr>lastSeen := seen\<rparr>)]\<rparr>" and ph': "ph' = Taking r"
      using a Touching r by auto
    have "spent t0 l (e\<lparr>lastSeen := seen\<rparr>) = spent t0 l e" by (simp add: spent_def)
    moreover have "holds s1 = holds s" unfolding s1 by (rule holds_update [OF r])
    moreover have "\<forall>(j, e) \<in> set (cells s1). cell_ok l (clockNow s) e"
      unfolding s1 by (simp, rule cells_update [OF cells]) (use e in \<open>simp add: cell_ok_def\<close>)
    ultimately show ?thesis unfolding s'
      by (intro advance_inv [OF inv k])
        (use tab len Touching r in \<open>auto simp: s1 ph' owned_def length_key_update sum_key_update holds_def
          simp del: map_map\<close>)
  next
    case (Taking r)
    obtain e where r: "r < length (cells s)" "cells s ! r = (ip, e)"
      using ok Taking by (cases "cells s ! r") (auto simp: holds_def)
    have e: "cell_ok l (clockNow s) e" using cells r nth_mem [OF r(1)] by fastforce
    obtain granted b where b: "allow (clockNow s) (entryBucket e) = (granted, b)" by fastforce
    have s1: "s1 = s\<lparr>cells := (cells s)[r := (ip, e\<lparr>entryBucket := b\<rparr>)]\<rparr>" and ph': "ph' = Decided r granted"
      using a Taking r b by auto
    have "holds s1 = holds s" unfolding s1 by (rule holds_update [OF r])
    moreover have "\<forall>(j, e) \<in> set (cells s1). cell_ok l (clockNow s) e"
      unfolding s1 using spent_take(1) [OF e b] by (simp add: cells_update [OF cells])
    ultimately show ?thesis unfolding s'
      using spent_take(2) [OF e b, of t0]
      by (intro advance_inv [OF inv k])
        (use tab len Taking r in \<open>auto simp: s1 ph' owned_def length_key_update sum_key_update holds_def
          simp del: map_map\<close>)
  next
    case (Decided r ok)
    with a show ?thesis by simp
  qed
qed

lemma cell_ok_later: "cell_ok l t e \<Longrightarrow> t \<le> u \<Longrightarrow> cell_ok l u e"
  by (simp add: cell_ok_def)

text \<open>Steps that touch neither the cells nor the calls.\<close>

lemma inv_frame:
  assumes inv: "shared_inv t0 l s" and "cells s' = cells s" and "underway s' = underway s" and "clockNow s \<le> clockNow s'"
    and "\<And>ip. table s' ip = table s ip \<and> dropped s' ip = dropped s ip \<or>
      table s' ip = None \<and> dropped s' ip = dropped s ip + (if table s ip = None then 0 else 1)"
  shows "shared_inv t0 l s'"
proof -
  have h: "holds s' = holds s" and o: "owned ip s' = owned ip s" and g: "grants ip s' = grants ip s" for ip
    using assms(2,3) by (simp_all add: holds_def owned_def grants_def fun_eq_iff)
  have tab: "table s' ip = Some r \<Longrightarrow> table s ip = Some r" for ip r using assms(5) [of ip] by auto
  have "dropped s' ip + (if table s' ip = None then 0 else 1) = dropped s ip + (if table s ip = None then 0 else 1)" for ip
    using assms(5) [of ip] by auto
  moreover have "phase_ok t0 l s' j ph" if "(j, ph) \<in> set (underway s)" for j ph
    using inv that by (intro phase_ok_mono [OF _ assms(4)]) (auto simp: shared_inv_def h)
  moreover have "cell_ok l (clockNow s') e" if "(j, e) \<in> set (cells s)" for j e
    using inv that by (intro cell_ok_later [OF _ assms(4)]) (auto simp: shared_inv_def)
  ultimately show ?thesis
    using inv assms(2-4) tab by (auto simp: shared_inv_def h o g)
qed

lemma inv_sweeper: "shared_inv t0 l s \<Longrightarrow> shared_inv t0 l (s\<lparr>sweeper := x\<rparr>)"
  by (erule inv_frame) simp_all

lemma lim_step_inv:
  assumes "shared_inv t0 l s" and "lim_step epoch l a s = Some s'" and "0 < limRate l" and "1 \<le> limBurst l"
  shows "shared_inv t0 l s'"
proof (cases a)
  case (CallAllow ip)
  let ?u = "(ip, Loading (Unix epoch (clockNow s)))"
  have s': "s' = s\<lparr>underway := underway s @ [?u]\<rparr>" using assms(2) CallAllow by simp
  have same: "holds s' = holds s" "owned j s' = owned j s" "grants j s' = grants j s" for j
    by (simp_all add: s' holds_def owned_def grants_def fun_eq_iff)
  have "phase_ok t0 l s' j ph" if "(j, ph) \<in> set (underway s)" for j ph
  proof (rule phase_ok_mono)
    show "phase_ok t0 l s j ph" using assms(1) that unfolding shared_inv_def by blast
  qed (simp_all add: s' holds_def)
  then have "\<forall>(j, ph) \<in> set (underway s'). phase_ok t0 l s' j ph" by (auto simp: s')
  moreover have "clockNow s' = clockNow s" "cells s' = cells s" "table s' = table s" "dropped s' = dropped s"
    by (simp_all add: s')
  ultimately show ?thesis using assms(1) by (simp add: shared_inv_def same)
next
  case (Advance k)
  with assms show ?thesis by (blast intro: Advance_inv)
next
  case SweepTick
  then show ?thesis using assms(2) inv_sweeper [OF assms(1)] by (auto split: if_splits)
next
  case (Visit ip r)
  then obtain x where "s' = s\<lparr>sweeper := x\<rparr>" using assms(2) by (fastforce split: sweep_phase.splits if_splits)
  then show ?thesis using inv_sweeper [OF assms(1)] by simp
next
  case DeleteKey
  then obtain cutoff visited ip where "s' = s\<lparr>sweeper := Ranging cutoff visited, table := (table s)(ip := None),
      dropped := (if table s ip = None then dropped s else (dropped s)(ip := dropped s ip + 1))\<rparr>"
    using assms(2) by (auto split: sweep_phase.splits)
  then show ?thesis by (intro inv_frame [OF assms(1)]) auto
next
  case RangeEnd
  then show ?thesis using assms(2) inv_sweeper [OF assms(1)] by (auto split: sweep_phase.splits)
next
  case (Pass d)
  then show ?thesis by (intro inv_frame [OF assms(1)]) (use assms(2) in \<open>auto split: if_splits\<close>)
qed

lemma lim_steps_inv:
  "shared_inv t0 l s \<Longrightarrow> lim_steps epoch l as s = Some s' \<Longrightarrow> 0 < limRate l \<Longrightarrow> 1 \<le> limBurst l \<Longrightarrow> shared_inv t0 l s'"
  by (induction "as" arbitrary: s) (auto simp: bind_eq_Some_conv dest: lim_step_inv)

lemma shared_start_inv: "shared_inv t0 l (shared_start t0)"
  by (simp add: shared_inv_def shared_start_def owned_def grants_def)

lemma spent_le:
  assumes "cell_ok l t e" and "0 < limRate l"
  shows "spent t0 l e \<le> of_int (limBurst l) + limRate l * Seconds (t - t0)"
proof -
  have "0 \<le> tokens (entryBucket e)" and "Seconds (lastTime (entryBucket e) - t0) \<le> Seconds (t - t0)"
    using assms(1) Seconds_mono [of "lastTime (entryBucket e) - t0" "t - t0"] by (auto simp: cell_ok_def bucket_wf_def)
  then have "limRate l * Seconds (lastTime (entryBucket e) - t0) \<le> limRate l * Seconds (t - t0)"
    using assms(2) by simp
  with \<open>0 \<le> tokens (entryBucket e)\<close> show ?thesis unfolding spent_def by linarith
qed

section \<open>Accesses that are not interrupted\<close>

text \<open>The limiter of \<open>Rate_Limit\<close> the shared state stands for.\<close>

definition seen_as :: "limiter \<Rightarrow> shared \<Rightarrow> limiter" where
  "seen_as l s = l\<lparr>perIP := (\<lambda>ip. map_option (\<lambda>r. snd (cells s ! r)) (table s ip))\<rparr>"

lemma seen_as_fields [simp]: "perIPOn (seen_as l s) = perIPOn l" "limRate (seen_as l s) = limRate l"
  "limBurst (seen_as l s) = limBurst l"
  "perIP (seen_as l s) ip = map_option (\<lambda>r. snd (cells s ! r)) (table s ip)"
  by (simp_all add: seen_as_def)

text \<open>A call of \<open>Allow\<close> whose accesses follow each other, with no time in between, is \<open>limiter_Allow\<close>.\<close>

lemma uninterrupted_call:
  assumes on: "perIPOn l" and refs: "\<And>ip r. table s ip = Some r \<Longrightarrow> holds s ip r"
    and k: "k = length (underway s)" and n: "n = (if table s ip = None then 4 else 3)"
  shows "\<exists>r ok s'. lim_steps epoch l (CallAllow ip # replicate n (Advance k)) s = Some s' \<and>
    underway s' = underway s @ [(ip, Decided r ok)] \<and>
    limiter_Allow epoch (clockNow s) ip (seen_as l s) = Some (ok, seen_as l s')"
proof (cases "table s ip")
  case None
  let ?e = "\<lparr>entryBucket = newBucket (clockNow s) (limRate l) (limBurst l), lastSeen = Unix epoch (clockNow s)\<rparr>"
  obtain ok b where b: "allow (clockNow s) (entryBucket ?e) = (ok, b)" by fastforce
  let ?s = "s\<lparr>cells := cells s @ [(ip, ?e\<lparr>entryBucket := b\<rparr>)], table := (table s)(ip \<mapsto> length (cells s)),
      underway := underway s @ [(ip, Decided (length (cells s)) ok)]\<rparr>"
  have run: "lim_steps epoch l (CallAllow ip # replicate n (Advance k)) s = Some ?s"
    using None b by (simp add: n k numeral_eq_Suc nth_append list_update_append)
  have same: "cells ?s ! r = cells s ! r" if "table s j = Some r" for j r
    using refs [OF that] by (simp add: holds_def nth_append)
  have "seen_as l ?s = (seen_as l s)\<lparr>perIP := (perIP (seen_as l s))(ip \<mapsto> ?e\<lparr>entryBucket := b\<rparr>)\<rparr>"
    using same by (simp add: seen_as_def fun_eq_iff map_option_case split: option.split)
  then have "limiter_Allow epoch (clockNow s) ip (seen_as l s) = Some (ok, seen_as l ?s)"
    using b on None by (simp add: limiter_Allow_def)
  with run show ?thesis by (intro exI [of _ "length (cells s)"] exI [of _ ok] exI [of _ ?s]) simp
next
  case (Some r)
  obtain e where r: "r < length (cells s)" "cells s ! r = (ip, e)"
    using refs [OF Some] by (cases "cells s ! r") (auto simp: holds_def)
  obtain ok b where b: "allow (clockNow s) (entryBucket e) = (ok, b)" by fastforce
  let ?e = "\<lparr>entryBucket = b, lastSeen = Unix epoch (clockNow s)\<rparr>"
  let ?s = "s\<lparr>cells := (cells s)[r := (ip, ?e)], underway := underway s @ [(ip, Decided r ok)]\<rparr>"
  have run: "lim_steps epoch l (CallAllow ip # replicate n (Advance k)) s = Some ?s"
    using Some b r by (simp add: n k numeral_eq_Suc nth_append list_update_append entry_upd)
  have other: "cells ?s ! q = cells s ! q" if "table s j = Some q" "j \<noteq> ip" for j q
    using refs [OF that(1)] that(2) r by (cases "q = r") (simp_all add: holds_def)
  have "seen_as l ?s = (seen_as l s)\<lparr>perIP := (perIP (seen_as l s))(ip \<mapsto> ?e)\<rparr>"
    using other Some r by (simp add: seen_as_def fun_eq_iff map_option_case split: option.split)
  then have "limiter_Allow epoch (clockNow s) ip (seen_as l s) = Some (ok, seen_as l ?s)"
    using b on Some r by (simp add: limiter_Allow_def entry_upd)
  with run show ?thesis by (intro exI [of _ r] exI [of _ ok] exI [of _ ?s]) simp
qed

text \<open>A visit and the \<open>Delete\<close> that follows it are what \<open>sweep\<close> does to the key.\<close>

lemma uninterrupted_visit:
  assumes "sweeper s = Ranging (Unix epoch (t - 300 * 1000000000)) visited" and "ip \<notin> set visited"
    and "table s ip = Some r" and "holds s ip r"
  shows "\<exists>s'. lim_steps epoch l (Visit ip r # (if lastSeen (snd (cells s ! r)) < Unix epoch (t - 300 * 1000000000)
      then [DeleteKey] else [])) s = Some s' \<and>
    perIP (seen_as l s') = (perIP (seen_as l s))(ip := perIP (sweep epoch t (seen_as l s)) ip)"
  using assms by (auto simp: holds_def sweep_def Let_def fun_eq_iff)

section \<open>Properties\<close>

text \<open>
  Between the look at \<open>lastSeen\<close> and \<open>Delete\<close> a call can use the entry: its client gets a new bucket.
  Here a client with burst 1 that has been silent for 301 seconds has two requests admitted in one
  instant, and every \<open>Visit\<close> shows the value the key has at that moment.
\<close>

definition sweep_race :: "limiter_access list" where
  "sweep_race =
     [CallAllow ''a'', Advance 0, Advance 0, Advance 0, Advance 0, Pass 301000000000, SweepTick, Visit ''a'' 0,
      CallAllow ''a'', Advance 1, Advance 1, Advance 1, DeleteKey,
      CallAllow ''a'', Advance 2, Advance 2, Advance 2, Advance 2]"

definition one_per_second :: limiter where
  "one_per_second = \<lparr>global = None, perIP = Map.empty, limRate = 1, limBurst = 1, perIPOn = True, stopped = False\<rparr>"

lemma sweep_race_admits:
  "case lim_steps 0 one_per_second sweep_race (shared_start 0) of None \<Rightarrow> False
   | Some s \<Rightarrow> map snd (underway s) = [Decided 0 True, Decided 0 True, Decided 1 True] \<and> clockNow s = 301000000000"
  by code_simp

lemma sum_list_le_bound:
  fixes f :: "'b \<Rightarrow> rat"
  shows "(\<And>x. x \<in> set xs \<Longrightarrow> f x \<le> b) \<Longrightarrow> sum_list (map f xs) \<le> of_nat (length xs) * b"
proof (induction xs)
  case (Cons x xs)
  then have "f x \<le> b" "sum_list (map f xs) \<le> of_nat (length xs) * b" by simp_all
  then show ?case by (simp add: algebra_simps)
qed simp

text \<open>
  C31: the limit holds under every interleaving of the shared accesses of any number of calls of
  \<open>Allow\<close> with those of the sweeping goroutine, up to one burst for each dropped bucket. Whatever is
  called, visited and deleted in whatever order, and however long a call is held up between two
  accesses, the calls for one client admitted so far are at most one burst plus the rate times the time
  since the limiter was created, once for the client's first bucket and once for each time the client's
  bucket was deleted. In particular first requests that arrive together share one bucket.
\<close>

theorem limiter_race_bound:
  assumes "NewLimiter t0 r n True = Inr l" and "lim_steps epoch l as (shared_start t0) = Some s"
  shows "of_nat (grants ip s) \<le> of_nat (1 + dropped s ip) * (of_int n + r * Seconds (clockNow s - t0))"
proof -
  let ?b = "of_int n + r * Seconds (clockNow s - t0)"
  have l: "limRate l = r" "limBurst l = n" "0 < r" "1 \<le> n"
    using assms(1) by (auto simp: NewLimiter_def split: if_splits)
  have inv: "shared_inv t0 l s" by (rule lim_steps_inv [OF shared_start_inv assms(2)]) (simp_all add: l)
  have t: "t0 \<le> clockNow s" using inv by (simp add: shared_inv_def)
  have "spent t0 l e \<le> ?b" if "e \<in> set (owned ip s)" for e
    using inv that spent_le [of l "clockNow s" e t0] l by (auto simp: shared_inv_def owned_def)
  then have "sum_list (map (spent t0 l) (owned ip s)) \<le> of_nat (length (owned ip s)) * ?b"
    by (rule sum_list_le_bound)
  moreover have "of_nat (grants ip s) \<le> sum_list (map (spent t0 l) (owned ip s))"
    using inv by (simp add: shared_inv_def)
  moreover have "length (owned ip s) \<le> 1 + dropped s ip" using inv by (simp add: shared_inv_def)
  then have "of_nat (length (owned ip s)) \<le> rat_of_nat (1 + dropped s ip)" by (simp only: of_nat_le_iff)
  moreover have "0 \<le> ?b"
    using Seconds_mono [of 0 "clockNow s - t0"] t l(3,4) by (simp del: Seconds_simps(3,4))
  ultimately show ?thesis by (meson mult_right_mono order_trans)
qed

text \<open>Two first requests of a client race; both miss the entry, and one of them is admitted.\<close>

theorem limiter_race_bound_witness:
  "\<exists>s. lim_steps 0 one_per_second [CallAllow ''a'', CallAllow ''a'', Advance 0, Advance 1, Advance 1, Advance 0,
        Advance 0, Advance 1, Advance 0, Advance 1] (shared_start 0) = Some s \<and>
    grants ''a'' s \<le> 1 \<and> length (underway s) = 2"
proof -
  let ?as = "[CallAllow ''a'', CallAllow ''a'', Advance 0, Advance 1, Advance 1, Advance 0,
        Advance 0, Advance 1, Advance 0, Advance 1]"
  have new: "NewLimiter 0 1 1 True = Inr one_per_second" by (simp add: NewLimiter_def one_per_second_def)
  have "case lim_steps 0 one_per_second ?as (shared_start 0) of None \<Rightarrow> False
    | Some s \<Rightarrow> dropped s ''a'' = 0 \<and> clockNow s = 0 \<and> length (underway s) = 2" by code_simp
  then obtain s where s: "lim_steps 0 one_per_second ?as (shared_start 0) = Some s"
    "dropped s ''a'' = 0" "clockNow s = 0" "length (underway s) = 2" by (auto split: option.splits)
  then have "rat_of_nat (grants ''a'' s) \<le> 1" using limiter_race_bound [OF new s(1), of "''a''"] by simp
  with s show ?thesis by simp
qed

end
