(* ===== verification/Config_Props.thy ===== *)
theory Config_Props
  imports Config
begin

text \<open>
  The properties of loading a configuration: which source wins for each setting, what a loaded
  configuration satisfies, and that the file format can express every configuration.
\<close>

section \<open>Settings by flag name\<close>

datatype setting = IntV int | TextV string | TimeV duration | FlagV bool | RealV rat | UrlsV "backend_config list"

text \<open>The setting that each flag is for, and the two that only a file can change.\<close>

definition settings :: "(string \<times> (config \<Rightarrow> setting)) list" where
  "settings =
     [(''port'', \<lambda>c. IntV (ServerPort (Server c))),
      (''backends'', \<lambda>c. UrlsV (PoolBackends (Pool c))),
      (''algorithm'', \<lambda>c. TextV (Algorithm (Pool c))),
      (''health-path'', \<lambda>c. TextV (HealthPath (HealthCheck c))),
      (''health-interval'', \<lambda>c. TimeV (HealthInterval (HealthCheck c))),
      (''health-timeout'', \<lambda>c. TimeV (HealthTimeout (HealthCheck c))),
      (''admin-port'', \<lambda>c. IntV (AdminPort (Admin c))),
      (''rl-enabled'', \<lambda>c. FlagV (RLEnabled (RateLimit c))),
      (''rl-rps'', \<lambda>c. RealV (RequestsPerSecond (RateLimit c))),
      (''rl-burst'', \<lambda>c. IntV (Burst (RateLimit c))),
      (''rl-per-ip'', \<lambda>c. FlagV (PerIP (RateLimit c))),
      (''metrics-enabled'', \<lambda>c. FlagV (MetricsEnabled (Metrics c))),
      (''metrics-port'', \<lambda>c. IntV (MetricsPort (Metrics c))),
      (''cb-enabled'', \<lambda>c. FlagV (CBEnabled (CircuitBreaker c))),
      (''cb-failure-threshold'', \<lambda>c. IntV (CBFailureThreshold (CircuitBreaker c))),
      (''cb-success-threshold'', \<lambda>c. IntV (CBSuccessThreshold (CircuitBreaker c))),
      (''cb-timeout'', \<lambda>c. TimeV (CBTimeout (CircuitBreaker c))),
      (''tls-enabled'', \<lambda>c. FlagV (TLSEnabled (TLS c))),
      (''tls-cert'', \<lambda>c. TextV (CertFile (TLS c))),
      (''tls-key'', \<lambda>c. TextV (KeyFile (TLS c))),
      (''tls-min-version'', \<lambda>c. TextV (MinVersion (TLS c))),
      (''sticky-enabled'', \<lambda>c. FlagV (StickyEnabled (StickySession c))),
      (''sticky-cookie-name'', \<lambda>c. TextV (StickyCookieName (StickySession c))),
      (''sticky-ttl'', \<lambda>c. TimeV (TTL (StickySession c))),
      (''health_check.unhealthy_threshold'', \<lambda>c. IntV (UnhealthyThreshold (HealthCheck c))),
      (''health_check.healthy_threshold'', \<lambda>c. IntV (HealthyThreshold (HealthCheck c)))]"

fun flag_name :: "flag \<Rightarrow> string" where
  "flag_name (Port _) = ''port''"
| "flag_name (BackendsFlag _) = ''backends''"
| "flag_name (AlgorithmFlag _) = ''algorithm''"
| "flag_name (HealthPathFlag _) = ''health-path''"
| "flag_name (HealthIntervalFlag _) = ''health-interval''"
| "flag_name (HealthTimeoutFlag _) = ''health-timeout''"
| "flag_name (AdminPortFlag _) = ''admin-port''"
| "flag_name (RlEnabled _) = ''rl-enabled''"
| "flag_name (RlRPS _) = ''rl-rps''"
| "flag_name (RlBurst _) = ''rl-burst''"
| "flag_name (RlPerIP _) = ''rl-per-ip''"
| "flag_name (MetricsEnabledFlag _) = ''metrics-enabled''"
| "flag_name (MetricsPortFlag _) = ''metrics-port''"
| "flag_name (CbEnabled _) = ''cb-enabled''"
| "flag_name (CbFailureThreshold _) = ''cb-failure-threshold''"
| "flag_name (CbSuccessThreshold _) = ''cb-success-threshold''"
| "flag_name (CbTimeout _) = ''cb-timeout''"
| "flag_name (TlsEnabled _) = ''tls-enabled''"
| "flag_name (TlsCert _) = ''tls-cert''"
| "flag_name (TlsKey _) = ''tls-key''"
| "flag_name (TlsMinVersion _) = ''tls-min-version''"
| "flag_name (StickyEnabledFlag _) = ''sticky-enabled''"
| "flag_name (StickyCookieNameFlag _) = ''sticky-cookie-name''"
| "flag_name (StickyTTL _) = ''sticky-ttl''"

text \<open>The setting a flag's value stands for.\<close>

fun flag_setting :: "flag \<Rightarrow> setting" where
  "flag_setting (BackendsFlag v) = UrlsV (cli_backends v)"
| "flag_setting (TlsMinVersion v) = TextV (TrimSpace v)"
| "flag_setting (Port v) = IntV v"
| "flag_setting (AdminPortFlag v) = IntV v"
| "flag_setting (RlBurst v) = IntV v"
| "flag_setting (MetricsPortFlag v) = IntV v"
| "flag_setting (CbFailureThreshold v) = IntV v"
| "flag_setting (CbSuccessThreshold v) = IntV v"
| "flag_setting (AlgorithmFlag v) = TextV v"
| "flag_setting (HealthPathFlag v) = TextV v"
| "flag_setting (TlsCert v) = TextV v"
| "flag_setting (TlsKey v) = TextV v"
| "flag_setting (StickyCookieNameFlag v) = TextV v"
| "flag_setting (HealthIntervalFlag v) = TimeV v"
| "flag_setting (HealthTimeoutFlag v) = TimeV v"
| "flag_setting (CbTimeout v) = TimeV v"
| "flag_setting (StickyTTL v) = TimeV v"
| "flag_setting (RlRPS v) = RealV v"
| "flag_setting (RlEnabled v) = FlagV v"
| "flag_setting (RlPerIP v) = FlagV v"
| "flag_setting (MetricsEnabledFlag v) = FlagV v"
| "flag_setting (CbEnabled v) = FlagV v"
| "flag_setting (TlsEnabled v) = FlagV v"
| "flag_setting (StickyEnabledFlag v) = FlagV v"

lemma flag_name_in_set: "map_of flag_set (flag_name f) \<noteq> None"
  by (cases f) (simp_all add: flag_set_def)

text \<open>A flag sets its own setting and no other.\<close>

lemma apply_flag_settings:
  "list_all (\<lambda>(n, get). get (apply_flag f c) = (if n = flag_name f then flag_setting f else get c)) settings"
  by (cases f) (simp_all add: settings_def)

lemma apply_flag_setting:
  assumes "map_of settings n = Some get"
  shows "get (apply_flag f c) = (if n = flag_name f then flag_setting f else get c)"
  using apply_flag_settings [of f c] map_of_SomeD [OF assms] by (auto simp: list_all_iff)

lemma flag_set_distinct: "distinct (map fst flag_set)"
  by (simp add: flag_set_def)


section \<open>The command line\<close>

fun var_makes :: "string \<Rightarrow> flag_var \<Rightarrow> bool" where
  "var_makes n (IntVar g) = (\<forall>x. flag_name (g x) = n)"
| "var_makes n (StringVar g) = (\<forall>x. flag_name (g x) = n)"
| "var_makes n (DurationVar g) = (\<forall>x. flag_name (g x) = n)"
| "var_makes n (BoolVar g) = (\<forall>x. flag_name (g x) = n)"
| "var_makes n (Float64Var g) = (\<forall>x. flag_name (g x) = n)"

lemma flag_set_makes: "map_of flag_set n = Some v \<Longrightarrow> var_makes n v"
proof -
  have "list_all (\<lambda>(n, v). var_makes n v) flag_set" by (simp add: flag_set_def)
  then show "map_of flag_set n = Some v \<Longrightarrow> ?thesis" by (auto simp: list_all_iff dest: map_of_SomeD)
qed

lemma flag_value_named: "flag_value pf v s = Some f \<Longrightarrow> var_makes n v \<Longrightarrow> flag_name f = n"
  by (cases v) auto

definition named :: "(string \<times> flag) list \<Rightarrow> bool" where
  "named fs \<longleftrightarrow> (\<forall>(n, f) \<in> set fs. flag_name f = n)"

lemma Parse_named: "Parse pf args acc = Inr fs \<Longrightarrow> named acc \<Longrightarrow> named fs"
proof (induction args arbitrary: acc rule: length_induct)
  case (1 args)
  show ?case
  proof (cases args)
    case Nil
    then show ?thesis using 1 by simp
  next
    case (Cons a rest)
    note P = "1.prems"(1) [unfolded Cons]
    have add: "named ((n, f) # acc)" if "map_of flag_set n = Some v" "flag_value pf v s = Some f" for n v s f
      using "1.prems"(2) flag_value_named [OF that(2) flag_set_makes [OF that(1)]] by (simp add: named_def)
    have on: "named ((n, g True) # acc)" if "map_of flag_set n = Some (BoolVar g)" for n g
      using "1.prems"(2) flag_set_makes [OF that] by (simp add: named_def)
    have rec: "Parse pf args' acc' = Inr fs \<Longrightarrow> named acc' \<Longrightarrow> length args' \<le> length rest \<Longrightarrow> named fs" for args' acc'
      using "1.IH" [rule_format, of args' acc'] Cons by simp
    show ?thesis
    proof (cases "flag_syntax a")
      case (FlagArg n val)
      obtain v where v: "map_of flag_set n = Some v"
        using P FlagArg by (cases "map_of flag_set n") auto
      show ?thesis
      proof (cases val)
        case (Some s)
        obtain f where f: "flag_value pf v s = Some f"
          using P FlagArg v Some by (cases "flag_value pf v s") auto
        show ?thesis using rec [OF _ add [OF v f]] P FlagArg v Some f by simp
      next
        case None
        show ?thesis
        proof (cases "\<exists>g. v = BoolVar g")
          case True
          then obtain g where g: "v = BoolVar g" ..
          show ?thesis using rec [OF _ on [OF v [unfolded g]]] P FlagArg v None g by simp
        next
          case False
          have "\<exists>s rest'. rest = s # rest' \<and> (case flag_value pf v s of None \<Rightarrow> Inl (ParsingFlags n)
              | Some f \<Rightarrow> Parse pf rest' ((n, f) # acc)) = Inr fs"
            using P FlagArg v None False by (cases v; cases rest) simp_all
          then obtain s rest' f where r: "rest = s # rest'" "flag_value pf v s = Some f"
            "Parse pf rest' ((n, f) # acc) = Inr fs" by (auto split: option.splits)
          show ?thesis using rec [OF r(3) add [OF v r(2)]] r(1) by simp
        qed
      qed
    qed (use P "1.prems"(2) in simp_all)
  qed
qed

lemma fold_visited:
  assumes "map_of settings n = Some get" and "named fs"
  shows "distinct names \<Longrightarrow>
    get (fold apply_flag (concat (map (\<lambda>m. case map_of fs m of None \<Rightarrow> [] | Some f \<Rightarrow> [f]) names)) c) =
      (if n \<in> set names then case map_of fs n of None \<Rightarrow> get c | Some f \<Rightarrow> flag_setting f else get c)"
proof (induction names arbitrary: c)
  case (Cons m names)
  have nm: "map_of fs m = Some f \<Longrightarrow> flag_name f = m" for f
    using assms(2) by (auto simp: named_def dest: map_of_SomeD)
  show ?case
  proof (cases "map_of fs m")
    case None
    then show ?thesis using Cons by auto
  next
    case (Some f)
    then show ?thesis
      using Cons apply_flag_setting [OF assms(1), of f] nm [OF Some] by (auto split: option.split)
  qed
qed simp

lemma visited_setting:
  assumes "map_of settings n = Some get" and "named fs"
  shows "get (fold apply_flag (visited fs) c) =
    (case map_of fs n of None \<Rightarrow> get c | Some f \<Rightarrow> flag_setting f)"
proof -
  have "visited fs = concat (map (\<lambda>m. case map_of fs m of None \<Rightarrow> [] | Some f \<Rightarrow> [f]) (map fst flag_set))"
    by (simp add: visited_def case_prod_unfold comp_def)
  moreover have "map_of fs n = None" if "n \<notin> set (map fst flag_set)"
  proof (rule ccontr)
    assume "map_of fs n \<noteq> None"
    then obtain f where "flag_name f = n" using assms(2) by (auto simp: named_def dest: map_of_SomeD)
    with that flag_name_in_set [of f] show False by (metis map_of_eq_None_iff list.set_map)
  qed
  ultimately show ?thesis using fold_visited [OF assms flag_set_distinct, of c] by auto
qed

lemma applyCLI_setting:
  assumes "applyCLI pf c args = Inr c'" and "map_of settings n = Some get"
  shows "\<exists>fs. Parse pf args [] = Inr fs \<and>
    get c' = (case map_of fs n of None \<Rightarrow> get c | Some f \<Rightarrow> flag_setting f)"
proof -
  obtain fs where fs: "Parse pf args [] = Inr fs" "c' = fold apply_flag (visited fs) c"
    using assms(1) by (auto simp: applyCLI_def sum_bind_Inr_iff Let_def split: if_splits)
  have "named fs" by (rule Parse_named [OF fs(1)]) (simp add: named_def)
  then show ?thesis using fs visited_setting [OF assms(2)] by blast
qed

section \<open>What a file says\<close>

text \<open>
  The value a file gives a setting, \<open>None\<close> if it leaves it out. Texts and numbers that are empty or
  zero count as left out, as do absent keys of the others; durations are parsed.
\<close>

definition given_text :: "(string \<Rightarrow> setting option) \<Rightarrow> string \<Rightarrow> setting option" where
  "given_text g s = (if s = [] then None else g s)"

definition given_time :: "string \<Rightarrow> setting option" where
  "given_time = given_text (\<lambda>s. map_option TimeV (ParseDuration s))"

definition given_number :: "int \<Rightarrow> setting option" where
  "given_number n = (if n = 0 then None else Some (IntV n))"

definition file_settings :: "fileConfig \<Rightarrow> (string \<times> setting option) list" where
  "file_settings f =
     [(''port'', given_number (fServerPort f)),
      (''backends'', if fBackends f = [] then None else Some (UrlsV (file_backends (fBackends f)))),
      (''algorithm'', given_text (Some \<circ> TextV) (fAlgorithm f)),
      (''health-path'', given_text (Some \<circ> TextV) (fHealthPath f)),
      (''health-interval'', given_time (fHealthInterval f)),
      (''health-timeout'', given_time (fHealthTimeout f)),
      (''admin-port'', map_option IntV (fAdminPort f)),
      (''rl-enabled'', map_option FlagV (fRLEnabled f)),
      (''rl-rps'', map_option RealV (fRequestsPerSecond f)),
      (''rl-burst'', map_option IntV (fBurst f)),
      (''rl-per-ip'', map_option FlagV (fPerIP f)),
      (''metrics-enabled'', map_option FlagV (fMetricsEnabled f)),
      (''metrics-port'', map_option IntV (fMetricsPort f)),
      (''cb-enabled'', map_option FlagV (fCBEnabled f)),
      (''cb-failure-threshold'', map_option IntV (fCBFailureThreshold f)),
      (''cb-success-threshold'', map_option IntV (fCBSuccessThreshold f)),
      (''cb-timeout'', given_time (fCBTimeout f)),
      (''tls-enabled'', map_option FlagV (fTLSEnabled f)),
      (''tls-cert'', given_text (Some \<circ> TextV) (fCertFile f)),
      (''tls-key'', given_text (Some \<circ> TextV) (fKeyFile f)),
      (''tls-min-version'', given_text (Some \<circ> TextV \<circ> TrimSpace) (fMinVersion f)),
      (''sticky-enabled'', map_option FlagV (fStickyEnabled f)),
      (''sticky-cookie-name'', given_text (Some \<circ> TextV) (fCookieName f)),
      (''sticky-ttl'', given_time (fTTL f)),
      (''health_check.unhealthy_threshold'', given_number (fUnhealthyThreshold f)),
      (''health_check.healthy_threshold'', given_number (fHealthyThreshold f))]"

definition file_setting :: "fileConfig \<Rightarrow> string \<Rightarrow> setting option" where
  "file_setting f n = (case map_of (file_settings f) n of None \<Rightarrow> None | Some v \<Rightarrow> v)"

abbreviation default_to :: "setting option \<Rightarrow> setting \<Rightarrow> setting" where
  "default_to v d \<equiv> (case v of None \<Rightarrow> d | Some x \<Rightarrow> x)"

lemma file_values:
  "IntV (if_nonzero n k) = default_to (given_number n) (IntV k)"
  "TextV (if_text s t) = default_to (given_text (Some \<circ> TextV) s) (TextV t)"
  "IntV (or_else i k) = default_to (map_option IntV i) (IntV k)"
  "FlagV (or_else b p) = default_to (map_option FlagV b) (FlagV p)"
  "RealV (or_else q x) = default_to (map_option RealV q) (RealV x)"
  "UrlsV (if bs \<noteq> [] then file_backends bs else cs) =
     default_to (if bs = [] then None else Some (UrlsV (file_backends bs))) (UrlsV cs)"
  "if_duration key s d = Inr v \<Longrightarrow> TimeV v = default_to (given_time s) (TimeV d)"
  "if_min_version s t = Inr u \<Longrightarrow> TextV u = default_to (given_text (Some \<circ> TextV \<circ> TrimSpace) s) (TextV t)"
  by (auto simp: if_nonzero_def given_number_def if_text_def given_text_def given_time_def or_else_def
      if_duration_def if_min_version_def Let_def split: option.splits if_splits)

text \<open>Each setting of the merged configuration is the file's, or the base's where the file has none.\<close>

lemma applyFileConfig_settings:
  assumes "applyFileConfig base f = Inr c"
  shows "list_all2 (\<lambda>(n, get) (m, v). m = n \<and> get c = default_to v (get base)) settings (file_settings f)"
proof -
  from assms obtain interval tmo cbTimeout version ttl where d:
    "if_duration ''health_check.interval'' (fHealthInterval f) (HealthInterval (HealthCheck base)) = Inr interval"
    "if_duration ''health_check.timeout'' (fHealthTimeout f) (HealthTimeout (HealthCheck base)) = Inr tmo"
    "if_duration ''circuit_breaker.timeout'' (fCBTimeout f) (CBTimeout (CircuitBreaker base)) = Inr cbTimeout"
    "if_duration ''sticky_sessions.ttl'' (fTTL f) (TTL (StickySession base)) = Inr ttl"
    "if_min_version (fMinVersion f) (MinVersion (TLS base)) = Inr version"
    by (auto simp: applyFileConfig_def sum_bind_Inr_iff Let_def)
  note timed = d(1-4) [THEN file_values(7)] d(5) [THEN file_values(8)]
  from assms d show ?thesis
    unfolding settings_def file_settings_def
    by (simp add: applyFileConfig_def Let_def) (hypsubst, simp add: file_values(1-6) timed)
qed

lemma applyFileConfig_setting:
  assumes "applyFileConfig base f = Inr c" and "map_of settings n = Some get"
  shows "get c = default_to (file_setting f n) (get base)"
proof -
  have "\<exists>v. map_of ys n = Some v \<and> get c = default_to v (get base)"
    if "list_all2 (\<lambda>(n, get) (m, v). m = n \<and> get c = default_to v (get base)) xs ys"
      "map_of xs n = Some get" for xs ys
    using that
  proof (induction xs ys rule: list_all2_induct)
    case (Cons x xs y ys)
    then show ?case by (cases x; cases y) (auto split: if_splits)
  qed simp
  from this [OF applyFileConfig_settings [OF assms(1)] assms(2)] show ?thesis
    by (auto simp: file_setting_def)
qed

section \<open>Writing a configuration to a file\<close>

definition dump :: "config \<Rightarrow> fileConfig" where
  "dump c = \<lparr>
     fServerPort = ServerPort (Server c), fAlgorithm = Algorithm (Pool c),
     fBackends = map (\<lambda>b. (BackendURL b, BackendWeight b)) (PoolBackends (Pool c)),
     fHealthPath = HealthPath (HealthCheck c),
     fHealthInterval = show_duration (HealthInterval (HealthCheck c)),
     fHealthTimeout = show_duration (HealthTimeout (HealthCheck c)),
     fUnhealthyThreshold = UnhealthyThreshold (HealthCheck c),
     fHealthyThreshold = HealthyThreshold (HealthCheck c),
     fAdminPort = Some (AdminPort (Admin c)), fRLEnabled = Some (RLEnabled (RateLimit c)),
     fRequestsPerSecond = Some (RequestsPerSecond (RateLimit c)), fBurst = Some (Burst (RateLimit c)),
     fPerIP = Some (PerIP (RateLimit c)), fMetricsEnabled = Some (MetricsEnabled (Metrics c)),
     fMetricsPort = Some (MetricsPort (Metrics c)), fCBEnabled = Some (CBEnabled (CircuitBreaker c)),
     fCBFailureThreshold = Some (CBFailureThreshold (CircuitBreaker c)),
     fCBSuccessThreshold = Some (CBSuccessThreshold (CircuitBreaker c)),
     fCBTimeout = show_duration (CBTimeout (CircuitBreaker c)), fTLSEnabled = Some (TLSEnabled (TLS c)),
     fCertFile = CertFile (TLS c), fKeyFile = KeyFile (TLS c), fMinVersion = MinVersion (TLS c),
     fStickyEnabled = Some (StickyEnabled (StickySession c)),
     fCookieName = StickyCookieName (StickySession c), fTTL = show_duration (TTL (StickySession c))\<rparr>"

text \<open>What a file cannot say: zero and empty values where these mean the default.\<close>

definition expressible :: "config \<Rightarrow> bool" where
  "expressible c \<longleftrightarrow>
     ServerPort (Server c) \<noteq> 0 \<and> Algorithm (Pool c) \<noteq> [] \<and> PoolBackends (Pool c) \<noteq> [] \<and>
     (\<forall>b \<in> set (PoolBackends (Pool c)). 1 \<le> BackendWeight b) \<and>
     HealthPath (HealthCheck c) \<noteq> [] \<and> UnhealthyThreshold (HealthCheck c) \<noteq> 0 \<and>
     HealthyThreshold (HealthCheck c) \<noteq> 0 \<and> CertFile (TLS c) \<noteq> [] \<and> KeyFile (TLS c) \<noteq> [] \<and>
     MinVersion (TLS c) \<in> {''1.2'', ''1.3''} \<and> StickyCookieName (StickySession c) \<noteq> [] \<and>
     is_int64 (HealthInterval (HealthCheck c)) \<and> is_int64 (HealthTimeout (HealthCheck c)) \<and>
     is_int64 (CBTimeout (CircuitBreaker c)) \<and> is_int64 (TTL (StickySession c))"

lemma file_backends_dump:
  "\<forall>b \<in> set bs. 1 \<le> BackendWeight b \<Longrightarrow>
   file_backends (map (\<lambda>b. (BackendURL b, BackendWeight b)) bs) = bs"
  by (induction bs) (simp_all add: file_backends_def)

lemma trim_versions: "TrimSpace ''1.2'' = ''1.2''" "TrimSpace ''1.3'' = ''1.3''"
  by code_simp+

lemma if_min_version_ok: "v \<in> {''1.2'', ''1.3''} \<Longrightarrow> if_min_version v d = Inr v"
  by (auto simp: if_min_version_def trim_versions Let_def)

section \<open>Properties\<close>

text \<open>
  C36: the command line wins over the file, the file over the defaults. In a loaded configuration
  every setting has the value of its flag's last occurrence if the flag was given; otherwise the
  value the file gives it, if there is a file and it does; otherwise the default. The health checker's
  thresholds have no flag, and are the file's or the default.
\<close>

theorem Load_precedence:
  assumes "Load fs pf path args = Inr cfg" and "map_of settings n = Some get"
  shows "\<exists>file flags.
    (case file of
       None \<Rightarrow> path = []
     | Some f \<Rightarrow> path \<noteq> [] \<and> (\<exists>data. readFile fs path = Inr data \<and> unmarshal fs data = Inr f)) \<and>
    Parse pf args [] = Inr flags \<and>
    get cfg =
      (case map_of flags n of
         Some flag \<Rightarrow> flag_setting flag
       | None \<Rightarrow> (case Option.bind file (\<lambda>f. file_setting f n) of Some v \<Rightarrow> v | None \<Rightarrow> get Defaults))"
proof -
  obtain merged c where l: "load_file_part fs path = Inr merged" "applyCLI pf merged args = Inr c"
    "check_breaker c = Inr cfg"
    using assms(1) by (auto simp: Load_def sum_bind_Inr_iff)
  moreover have "cfg = c" using l(3) by (auto simp: check_breaker_def Let_def split: if_splits)
  ultimately obtain flags where p: "Parse pf args [] = Inr flags"
    "get cfg = (case map_of flags n of None \<Rightarrow> get merged | Some f \<Rightarrow> flag_setting f)"
    using applyCLI_setting [OF l(2) assms(2)] by blast
  show ?thesis
  proof (cases "path = []")
    case True
    then have "merged = Defaults" using l(1) by (simp add: load_file_part_def)
    with True p show ?thesis by (intro exI [of _ None] exI [of _ flags]) (simp split: option.split)
  next
    case False
    then obtain data f where f: "readFile fs path = Inr data" "unmarshal fs data = Inr f"
      "applyFileConfig Defaults f = Inr merged"
      using l(1) by (auto simp: load_file_part_def split: sum.splits)
    from applyFileConfig_setting [OF f(3) assms(2)] False f(1,2) p show ?thesis
      by (intro exI [of _ "Some f"] exI [of _ flags]) (simp split: option.split)
  qed
qed

definition no_files :: files where
  "no_files = \<lparr>readFile = (\<lambda>_. Inl ''no such file''), unmarshal = (\<lambda>_. Inl ''not yaml'')\<rparr>"

theorem Load_precedence_witness:
  "\<exists>cfg. Load no_files (\<lambda>_. None) [] [''--port=80'', ''-port'', ''0x1F''] = Inr cfg \<and>
     ServerPort (Server cfg) = 31 \<and> Algorithm (Pool cfg) = ''round_robin''"
proof -
  let ?L = "Load no_files (\<lambda>_. None) [] [''--port=80'', ''-port'', ''0x1F'']"
  have "case ?L of Inl _ \<Rightarrow> False | Inr _ \<Rightarrow> True" by code_simp
  then obtain cfg where L: "?L = Inr cfg" by (auto split: sum.splits)
  have P: "Parse (\<lambda>_. None) [''--port=80'', ''-port'', ''0x1F''] [] = Inr [(''port'', Port 31), (''port'', Port 80)]"
    by code_simp
  have names: "map_of settings ''port'' = Some (\<lambda>c. IntV (ServerPort (Server c)))"
    "map_of settings ''algorithm'' = Some (\<lambda>c. TextV (Algorithm (Pool c)))"
    by (simp_all add: settings_def)
  have "ServerPort (Server cfg) = 31"
    using Load_precedence [OF L names(1)] unfolding P by auto
  moreover have "Algorithm (Pool cfg) = ''round_robin''"
    using Load_precedence [OF L names(2)] unfolding P by (auto simp: Defaults_def split: option.splits)
  ultimately show ?thesis using L by blast
qed

text \<open>
  C37: a configuration that loads is valid: its minimum TLS version is 1.2, 1.3 or unset, an enabled
  circuit breaker has positive thresholds and timeout, and no backend has a weight below 1.
\<close>

theorem Load_valid:
  assumes "Load fs pf path args = Inr cfg"
  shows "MinVersion (TLS cfg) \<in> {[], ''1.2'', ''1.3''} \<and>
    (CBEnabled (CircuitBreaker cfg) \<longrightarrow> 0 < CBFailureThreshold (CircuitBreaker cfg) \<and>
       0 < CBSuccessThreshold (CircuitBreaker cfg) \<and> 0 < CBTimeout (CircuitBreaker cfg)) \<and>
    (\<forall>b \<in> set (PoolBackends (Pool cfg)). 1 \<le> BackendWeight b)"
proof -
  obtain merged where l: "load_file_part fs path = Inr merged" "applyCLI pf merged args = Inr cfg"
    "check_breaker cfg = Inr cfg"
    using assms by (auto simp: Load_def sum_bind_Inr_iff check_breaker_def Let_def split: if_splits)
  have w: "\<forall>b \<in> set (PoolBackends (Pool merged)). 1 \<le> BackendWeight b"
    using l(1)
    by (auto simp: load_file_part_def applyFileConfig_def sum_bind_Inr_iff Let_def file_backends_def
        Defaults_def split: if_splits sum.splits)
  have "map_of settings ''backends'' = Some (\<lambda>c. UrlsV (PoolBackends (Pool c)))"
    by (simp add: settings_def)
  from applyCLI_setting [OF l(2) this] obtain flags where
    f: "Parse pf args [] = Inr flags" "UrlsV (PoolBackends (Pool cfg)) =
      (case map_of flags ''backends'' of None \<Rightarrow> UrlsV (PoolBackends (Pool merged)) | Some f \<Rightarrow> flag_setting f)"
    by blast
  have "\<forall>b \<in> set (PoolBackends (Pool cfg)). 1 \<le> BackendWeight b"
  proof (cases "map_of flags ''backends''")
    case None
    then show ?thesis using f(2) w by simp
  next
    case (Some g)
    have "named flags" by (rule Parse_named [OF f(1)]) (simp add: named_def)
    then have "flag_name g = ''backends''" using Some by (auto simp: named_def dest: map_of_SomeD)
    then obtain raw where "g = BackendsFlag raw" by (cases g) simp_all
    then show ?thesis using f(2) Some by (auto simp: cli_backends_def)
  qed
  moreover have "MinVersion (TLS cfg) \<in> {[], ''1.2'', ''1.3''}"
    using l(2) by (auto simp: applyCLI_def sum_bind_Inr_iff Let_def split: if_splits)
  ultimately show ?thesis
    using l(3) by (auto simp: check_breaker_def Let_def split: if_splits)
qed

theorem Load_valid_witness:
  "\<exists>cfg. Load no_files (\<lambda>_. None) [] [''-cb-enabled'', ''-cb-failure-threshold=7''] = Inr cfg \<and>
     0 < CBSuccessThreshold (CircuitBreaker cfg)"
proof -
  let ?L = "Load no_files (\<lambda>_. None) [] [''-cb-enabled'', ''-cb-failure-threshold=7'']"
  have "case ?L of Inl _ \<Rightarrow> False | Inr c \<Rightarrow> CBEnabled (CircuitBreaker c)" by code_simp
  then obtain cfg where "?L = Inr cfg" "CBEnabled (CircuitBreaker cfg)" by (auto split: sum.splits)
  then show ?thesis using Load_valid by blast
qed

text \<open>
  C38: the file can say everything. Whatever the configuration it is merged into, a file that spells
  out a configuration - durations in nanoseconds - yields exactly that configuration: every key
  reaches its own setting and none is lost. (Zero ports and thresholds and empty strings mean the
  default, so a configuration with one of these has no such file.)
\<close>

theorem file_expresses_config:
  assumes "expressible c"
  shows "applyFileConfig base (dump c) = Inr c"
  using assms file_backends_dump [of "PoolBackends (Pool c)"]
  by (simp add: applyFileConfig_def dump_def expressible_def if_duration_def if_text_def if_nonzero_def
      or_else_def Let_def if_min_version_ok)


theorem file_expresses_config_witness:
  "applyFileConfig Defaults (dump (Defaults
     \<lparr>Pool := \<lparr>Algorithm = ''least_connections'', PoolBackends = [\<lparr>BackendURL = ''http://a'', BackendWeight = 2\<rparr>]\<rparr>,
      TLS := \<lparr>TLSEnabled = True, CertFile = ''c'', KeyFile = ''k'', MinVersion = ''1.3''\<rparr>\<rparr>))
   = Inr (Defaults
     \<lparr>Pool := \<lparr>Algorithm = ''least_connections'', PoolBackends = [\<lparr>BackendURL = ''http://a'', BackendWeight = 2\<rparr>]\<rparr>,
      TLS := \<lparr>TLSEnabled = True, CertFile = ''c'', KeyFile = ''k'', MinVersion = ''1.3''\<rparr>\<rparr>)"
  by (rule file_expresses_config) (simp add: expressible_def Defaults_def seconds_def is_int64_def)

end
