(* ===== verification/Admin.thy ===== *)
theory Admin
  imports Reload
begin

text \<open>
  Package \<open>internal/admin\<close>: the management API. Decoding the JSON body (\<open>decodeJSON\<close>) and
  \<open>url.Parse\<close> are parameters; a response is its status and the value written as JSON. A request has
  its path as \<open>ServeMux\<close> sees it: the segments between slashes, each already unescaped once. The API
  works on the pool of the running load balancer, which the requests of clients change too; a run of
  the whole system interleaves these operations.
\<close>

section \<open>Requests and responses\<close>

record admin_request =
  adminMethod :: string
  segments :: "string list"
  requestBody :: string

record backendStatus =
  statusURL :: string
  statusAlive :: bool
  statusWeight :: int
  statusConns :: int

record addBackendRequest =
  addURL :: string
  addWeight :: int

datatype json = Listing "backendStatus list" | Single backendStatus | Error string

text \<open>\<open>None\<close> as the body: no JSON is written (the mux answers 404 and 405 in plain text).\<close>

type_synonym admin_response = "int \<times> json option"
type_synonym json_decoder = "string \<Rightarrow> string + addBackendRequest"

definition writeJSON :: "int \<Rightarrow> json \<Rightarrow> admin_response" where
  "writeJSON code v = (code, Some v)"

definition writeError :: "int \<Rightarrow> string \<Rightarrow> admin_response" where
  "writeError code msg = writeJSON code (Error msg)"

text \<open>\<open>url.QueryUnescape\<close>: \<open>None\<close> for a percent sign without two hexadecimal digits.\<close>

definition unhex :: "char \<Rightarrow> nat option" where
  "unhex c =
     (let n = of_char c :: nat in
      if 48 \<le> n \<and> n \<le> 57 then Some (n - 48)
      else if 97 \<le> n \<and> n \<le> 102 then Some (n - 87)
      else if 65 \<le> n \<and> n \<le> 70 then Some (n - 55)
      else None)"

fun QueryUnescape :: "string \<Rightarrow> string option" where
  "QueryUnescape [] = Some []"
| "QueryUnescape (c # cs) =
     (if c = CHR ''%'' then
        (case cs of
           x # y # rest \<Rightarrow>
             (case (unhex x, unhex y) of
                (Some a, Some b) \<Rightarrow> map_option ((#) (char_of (16 * a + b))) (QueryUnescape rest)
              | _ \<Rightarrow> None)
         | _ \<Rightarrow> None)
      else if c = CHR ''+'' then map_option ((#) CHR '' '') (QueryUnescape cs)
      else map_option ((#) c) (QueryUnescape cs))"

section \<open>Handlers\<close>

definition status_of :: "backend \<Rightarrow> backendStatus" where
  "status_of b = \<lparr>statusURL = url_of b, statusAlive = IsAlive b, statusWeight = GetWeight b, statusConns = ActiveConns b\<rparr>"

definition listBackends :: "'a pool_state_scheme \<Rightarrow> admin_response" where
  "listBackends s = writeJSON 200 (Listing (map (\<lambda>b. status_of (heap s b)) (Backends s)))"

fun exists_url :: "store \<Rightarrow> string \<Rightarrow> ref list \<Rightarrow> bool" where
  "exists_url h u [] = False"
| "exists_url h u (b # bs) = (if url_of (h b) = u then True else exists_url h u bs)"

definition addBackend ::
  "json_decoder \<Rightarrow> url_parser \<Rightarrow> admin_request \<Rightarrow> 'a pool_state_scheme \<Rightarrow> admin_response \<times> 'a pool_state_scheme" where
  "addBackend decodeJSON parse_url r s =
     (case decodeJSON (requestBody r) of
        Inl err \<Rightarrow> (writeError 400 (''invalid JSON: '' @ err), s)
      | Inr req \<Rightarrow>
          if addURL req = [] then (writeError 400 ''url is required'', s)
          else
            (case parse_url (addURL req) of
               Inl err \<Rightarrow> (writeError 400 (''invalid url: '' @ err), s)
             | Inr u \<Rightarrow>
                 if (Scheme u \<noteq> ''http'' \<and> Scheme u \<noteq> ''https'') \<or> Host u = [] then
                   (writeError 400 ''url must use http or https scheme with a non-empty host'', s)
                 else if exists_url (heap s) (URLString u) (Backends s) then
                   (writeError 409 ''backend already exists'', s)
                 else
                   let weight = (if addWeight req \<le> 0 then 1 else addWeight req) in
                   (case alloc \<lparr>URL = u, Weight = weight, alive = False, activeConns = 0, ReverseProxy = None\<rparr> s of
                      (b, s) \<Rightarrow>
                        let s = s\<lparr>heap := modify b (SetAlive True) (heap s)\<rparr>;
                            s = SetupProxy b s;
                            s = AddBackend b s
                        in (writeJSON 201 (Single \<lparr>statusURL = ref_url s b, statusAlive = True,
                              statusWeight = GetWeight (heap s b), statusConns = 0\<rparr>), s))))"

definition removeBackend :: "string \<Rightarrow> 'a pool_state_scheme \<Rightarrow> admin_response \<times> 'a pool_state_scheme" where
  "removeBackend pathURL s =
     (case QueryUnescape pathURL of
        None \<Rightarrow> (writeError 400 ''invalid url encoding'', s)
      | Some rawURL \<Rightarrow>
          (case Remove rawURL s of (found, s) \<Rightarrow>
             if \<not> found then (writeError 404 ''backend not found'', s) else ((204, None), s)))"

definition setAlive :: "string \<Rightarrow> bool \<Rightarrow> 'a pool_state_scheme \<Rightarrow> admin_response \<times> 'a pool_state_scheme" where
  "setAlive pathURL v s =
     (case QueryUnescape pathURL of
        None \<Rightarrow> (writeError 400 ''invalid url encoding'', s)
      | Some rawURL \<Rightarrow>
          (case find_url (heap s) rawURL (Backends s) of
             None \<Rightarrow> (writeError 404 ''backend not found'', s)
           | Some b \<Rightarrow>
               let s = MarkBackendStatus (URL (heap s b)) v s
               in (writeJSON 200 (Single \<lparr>statusURL = ref_url s b, statusAlive = v,
                     statusWeight = GetWeight (heap s b), statusConns = ActiveConns (heap s b)\<rparr>), s)))"

definition enableBackend :: "string \<Rightarrow> 'a pool_state_scheme \<Rightarrow> admin_response \<times> 'a pool_state_scheme" where
  "enableBackend pathURL s = setAlive pathURL True s"

definition disableBackend :: "string \<Rightarrow> 'a pool_state_scheme \<Rightarrow> admin_response \<times> 'a pool_state_scheme" where
  "disableBackend pathURL s = setAlive pathURL False s"

section \<open>Routes\<close>

text \<open>A \<open>GET\<close> pattern also matches \<open>HEAD\<close>; a known path with another method is 405, an unknown one 404.\<close>

definition Handler ::
  "json_decoder \<Rightarrow> url_parser \<Rightarrow> admin_request \<Rightarrow> 'a pool_state_scheme \<Rightarrow> admin_response \<times> 'a pool_state_scheme" where
  "Handler decodeJSON parse_url r s =
     (let m = adminMethod r in
      case segments r of
        [a, b] \<Rightarrow>
          if a = ''admin'' \<and> b = ''backends'' then
            (if m = ''GET'' \<or> m = ''HEAD'' then (listBackends s, s)
             else if m = ''POST'' then addBackend decodeJSON parse_url r s
             else ((405, None), s))
          else ((404, None), s)
      | [a, b, u] \<Rightarrow>
          if a = ''admin'' \<and> b = ''backends'' \<and> u \<noteq> [] then
            (if m = ''DELETE'' then removeBackend u s else ((405, None), s))
          else ((404, None), s)
      | [a, b, u, op] \<Rightarrow>
          if a = ''admin'' \<and> b = ''backends'' \<and> u \<noteq> [] \<and> (op = ''enable'' \<or> op = ''disable'') then
            (if m = ''POST'' then (if op = ''enable'' then enableBackend u s else disableBackend u s)
             else ((405, None), s))
          else ((404, None), s)
      | _ \<Rightarrow> ((404, None), s))"

section \<open>The API seen on the map of backends\<close>

lemma exists_url_iff: "exists_url (heap s) u (Backends s) \<longleftrightarrow> view s u \<noteq> None"
proof -
  have "exists_url h u bs \<longleftrightarrow> find_url h u bs \<noteq> None" for h bs
    by (induction bs) auto
  then show ?thesis by (simp add: view_def Backends_def)
qed

text \<open>What a request asks for, and what it should do to the map and answer.\<close>

datatype admin_op = ListAll | AddOne string | RemoveOne string | SetOne string bool | NotAllowed | NoRoute

definition route :: "admin_request \<Rightarrow> admin_op" where
  "route r =
     (let ok = (2 \<le> length (segments r) \<and> take 2 (segments r) = [''admin'', ''backends'']);
          rest = drop 2 (segments r); m = adminMethod r
      in if \<not> ok then NoRoute
         else if rest = [] then
           (if m \<in> {''GET'', ''HEAD''} then ListAll
            else if m = ''POST'' then AddOne (requestBody r) else NotAllowed)
         else if hd rest = [] then NoRoute
         else if tl rest = [] then (if m = ''DELETE'' then RemoveOne (hd rest) else NotAllowed)
         else if tl rest = [''enable''] then (if m = ''POST'' then SetOne (hd rest) True else NotAllowed)
         else if tl rest = [''disable''] then (if m = ''POST'' then SetOne (hd rest) False else NotAllowed)
         else NoRoute)"

fun admin_spec ::
  "json_decoder \<Rightarrow> url_parser \<Rightarrow> admin_op \<Rightarrow> (string \<rightharpoonup> backend) \<Rightarrow> int \<times> (string \<rightharpoonup> backend)" where
  "admin_spec decodeJSON parse_url ListAll v = (200, v)"
| "admin_spec decodeJSON parse_url (AddOne body) v =
     (case decodeJSON body of
        Inl err \<Rightarrow> (400, v)
      | Inr req \<Rightarrow>
          if addURL req = [] \<or> \<not> url_ok parse_url (addURL req) then (400, v)
          else let u = projr (parse_url (addURL req)) in
            if v (URLString u) \<noteq> None then (409, v)
            else (201, v(URLString u \<mapsto> configured u (max 1 (addWeight req)))))"
| "admin_spec decodeJSON parse_url (RemoveOne p) v =
     (case QueryUnescape p of None \<Rightarrow> (400, v)
      | Some u \<Rightarrow> if v u = None then (404, v) else (204, v(u := None)))"
| "admin_spec decodeJSON parse_url (SetOne p on) v =
     (case QueryUnescape p of None \<Rightarrow> (400, v)
      | Some u \<Rightarrow> (case v u of None \<Rightarrow> (404, v) | Some b \<Rightarrow> (200, v(u \<mapsto> SetAlive on b))))"
| "admin_spec decodeJSON parse_url NotAllowed v = (405, v)"
| "admin_spec decodeJSON parse_url NoRoute v = (404, v)"

text \<open>The JSON written describes the backends as they are after the request.\<close>

definition reports :: "json option \<Rightarrow> 'a pool_state_scheme \<Rightarrow> bool" where
  "reports j s \<longleftrightarrow>
     (case j of
        Some (Listing xs) \<Rightarrow> xs = map (\<lambda>u. status_of (the (view s u))) (BackendURLs s)
      | Some (Single x) \<Rightarrow> map_option status_of (view s (statusURL x)) = Some x
      | _ \<Rightarrow> True)"

definition implements ::
  "int \<times> (string \<rightharpoonup> backend) \<Rightarrow> admin_response \<times> 'a pool_state_scheme \<Rightarrow> bool" where
  "implements spec res \<longleftrightarrow> fst (fst res) = fst spec \<and> view (snd res) = snd spec \<and>
     reports (snd (fst res)) (snd res) \<and> lb_wf (snd res)"

lemma list_implements: "lb_wf s \<Longrightarrow> implements (200, view s) (listBackends s, s)"
  by (simp add: implements_def listBackends_def writeJSON_def reports_def BackendURLs_def Backends_def
      view_mem lb_wf_def)

lemma error_implements: "lb_wf s \<Longrightarrow> implements (code, view s) (writeError code msg, s)"
  "lb_wf s \<Longrightarrow> implements (code, view s) ((code, None), s)"
  by (simp_all add: implements_def writeError_def writeJSON_def reports_def)

lemma lb_wf_register:
  "lb_wf s \<Longrightarrow> ReverseProxy b = Some (URL b) \<Longrightarrow> lb_wf (register b s)"
  by (auto simp: lb_wf_view pool.inv_put pool.look_put ran_def split: option.splits if_splits)

lemma addBackend_register:
  assumes "decodeJSON (requestBody r) = Inr req" and "addURL req \<noteq> []" and "parse_url (addURL req) = Inr u"
    and "url_ok parse_url (addURL req)" and "view s (URLString u) = None"
  shows "addBackend decodeJSON parse_url r s =
    ((201, Some (Single (status_of (configured u (max 1 (addWeight req)))))),
     register (configured u (max 1 (addWeight req))) s)"
  using assms
  by (auto simp: addBackend_def exists_url_iff url_ok_def alloc_def SetupProxy_def modify_def accessor_defs
      register_def configured_def AddBackend_def writeJSON_def status_of_def Let_def max_def)

lemma addBackend_implements:
  assumes "lb_wf s"
  shows "implements (admin_spec decodeJSON parse_url (AddOne (requestBody r)) (view s))
    (addBackend decodeJSON parse_url r s)"
proof (cases "decodeJSON (requestBody r)")
  case (Inr req)
  show ?thesis
  proof (cases "addURL req = [] \<or> \<not> url_ok parse_url (addURL req) \<or> view s (URLString (projr (parse_url (addURL req)))) \<noteq> None")
    case True
    with Inr assms show ?thesis
      by (auto simp: addBackend_def url_ok_def exists_url_iff Let_def intro: error_implements split: sum.splits)
  next
    case False
    then obtain u where u: "parse_url (addURL req) = Inr u" by (auto simp: url_ok_def split: sum.splits)
    let ?b = "configured u (max 1 (addWeight req))"
    have "url_of ?b = URLString u" "ReverseProxy ?b = Some (URL ?b)" by (simp_all add: configured_def)
    with False u assms Inr show ?thesis
      using addBackend_register [of decodeJSON r req parse_url u s] lb_wf_register [OF assms, of ?b]
      by (simp add: implements_def reports_def pool.look_put lb_wf_def status_of_def)
  qed
qed (use assms in \<open>simp add: addBackend_def error_implements\<close>)

lemma removeBackend_implements:
  assumes "lb_wf s"
  shows "implements (admin_spec decodeJSON parse_url (RemoveOne p) (view s)) (removeBackend p s)"
proof (cases "QueryUnescape p")
  case (Some u)
  have wf: "pool_wf s" using assms by (simp add: lb_wf_def)
  have "lb_wf (snd (Remove u s))"
    using assms by (auto simp: lb_wf_view pool.inv_del pool.look_del ran_def split: if_splits)
  moreover have "view (snd (Remove u s)) = view s" if "view s u = None"
    using that pool.look_del [OF wf, of u] by auto
  ultimately show ?thesis
    using pool.look_del [OF wf, of u] pool.del_found [OF wf, of u]
    by (auto simp: removeBackend_def Some case_prod_unfold implements_def writeError_def writeJSON_def reports_def)
qed (use assms in \<open>simp add: removeBackend_def error_implements\<close>)

lemma setAlive_implements:
  assumes "lb_wf s"
  shows "implements (admin_spec decodeJSON parse_url (SetOne p on) (view s)) (setAlive p on s)"
proof (cases "QueryUnescape p")
  case (Some u)
  have wf: "pool_wf s" using assms by (simp add: lb_wf_def)
  show ?thesis
  proof (cases "find_url (heap s) u (backends s)")
    case None
    with Some assms show ?thesis by (simp add: setAlive_def Backends_def view_def error_implements)
  next
    case f: (Some b)
    let ?s = "MarkBackendStatus (URL (heap s b)) on s"
    have b: "ref_url s b = u" and v: "view s u = Some (heap s b)"
      using find_url_Some [OF f] f by (auto simp: view_def)
    have view: "view ?s = (view s)(u \<mapsto> SetAlive on (heap s b))"
      using view_MarkBackendStatus [OF wf, of "URL (heap s b)" on] b v by simp
    have h: "heap ?s b = SetAlive on (heap s b)"
      using f b by (simp add: MarkBackendStatus_def modify_def)
    have "lb_wf ?s"
      using assms pool_wf_MarkBackendStatus [OF wf] v
      by (auto simp: lb_wf_view view ran_def accessor_fields split: if_splits)
    with Some f v view h b show ?thesis
      by (simp add: setAlive_def Backends_def Let_def writeJSON_def implements_def reports_def status_of_def
          accessor_fields accessor_defs)
  qed
qed (use assms in \<open>simp add: setAlive_def error_implements\<close>)

lemma Handler_route:
  "Handler decodeJSON parse_url r s =
     (case route r of
        ListAll \<Rightarrow> (listBackends s, s)
      | AddOne body \<Rightarrow> addBackend decodeJSON parse_url r s
      | RemoveOne p \<Rightarrow> removeBackend p s
      | SetOne p on \<Rightarrow> setAlive p on s
      | NotAllowed \<Rightarrow> ((405, None), s)
      | NoRoute \<Rightarrow> ((404, None), s))"
proof -
  consider "segments r = []" | a where "segments r = [a]" | a b where "segments r = [a, b]"
    | a b u where "segments r = [a, b, u]" | a b u opr where "segments r = [a, b, u, opr]"
    | a b u opr x xs where "segments r = a # b # u # opr # x # xs"
    by (metis list.exhaust)
  then show ?thesis
    by cases (auto simp: Handler_def route_def enableBackend_def disableBackend_def Let_def)
qed

lemma route_body: "route r = AddOne body \<Longrightarrow> body = requestBody r"
  by (auto simp: route_def Let_def split: if_splits)

lemma Handler_implements:
  assumes "lb_wf s"
  shows "implements (admin_spec decodeJSON parse_url (route r) (view s)) (Handler decodeJSON parse_url r s)"
  using list_implements [OF assms] error_implements(2) [OF assms] addBackend_implements [OF assms]
    removeBackend_implements [OF assms] setAlive_implements [OF assms] route_body [of r]
  by (auto simp: Handler_route split: admin_op.split)

lemma QueryUnescape_plain: "CHR ''%'' \<notin> set u \<Longrightarrow> CHR ''+'' \<notin> set u \<Longrightarrow> QueryUnescape u = Some u"
  by (induction u) auto

definition named_request :: "string \<Rightarrow> string \<Rightarrow> string list \<Rightarrow> admin_request" where
  "named_request m u rest = \<lparr>adminMethod = m, segments = [''admin'', ''backends'', u] @ rest, requestBody = []\<rparr>"

section \<open>Properties\<close>

text \<open>
  C29: the management API implements its contract on the map from URL text to backend. Every request,
  whatever its method, path and body, gets the status the contract gives it and changes exactly what the
  contract says: adding needs a decodable body, an acceptable URL that is new, and installs a live
  idle backend of weight at least 1; removing, enabling and disabling act on the named
  backend only and answer 404 when there is none. The JSON written describes the backends as they are
  afterwards, and the pool stays one the load balancer can serve from.
\<close>

theorem admin_implements_contract:
  assumes "lb_wf s"
  shows "fst (fst (Handler decodeJSON parse_url r s)) = fst (admin_spec decodeJSON parse_url (route r) (view s)) \<and>
    view (snd (Handler decodeJSON parse_url r s)) = snd (admin_spec decodeJSON parse_url (route r) (view s)) \<and>
    reports (snd (fst (Handler decodeJSON parse_url r s))) (snd (Handler decodeJSON parse_url r s)) \<and>
    lb_wf (snd (Handler decodeJSON parse_url r s))"
  using Handler_implements [OF assms] by (simp add: implements_def)

text \<open>A decoder of bodies that are plain URLs, for the instances.\<close>

definition plain_decoder :: json_decoder where
  "plain_decoder body = Inr \<lparr>addURL = body, addWeight = 0\<rparr>"

definition post_backend :: "string \<Rightarrow> admin_request" where
  "post_backend u = \<lparr>adminMethod = ''POST'', segments = [''admin'', ''backends''], requestBody = u\<rparr>"

theorem admin_implements_contract_witness:
  "fst (fst (Handler plain_decoder plain_parser (post_backend ''http://b'') (sample_lb [''a''] []))) = 201 \<and>
   fst (fst (Handler plain_decoder plain_parser (post_backend ''http://a'') (sample_lb [''a''] []))) = 409"
proof -
  have v: "view (sample_lb [''a''] []) ''http://a'' \<noteq> None" "view (sample_lb [''a''] []) ''http://b'' = None"
    by (simp_all add: sample_lb_def NewLoadBalancer_def sample_pool_def view_def http_backend_def http_url_def)
  have wf: "lb_wf (sample_lb [''a''] [])" by (rule lb_wf_sample) simp
  show ?thesis
    using admin_implements_contract [OF wf, of plain_decoder plain_parser "post_backend ''http://b''"]
      admin_implements_contract [OF wf, of plain_decoder plain_parser "post_backend ''http://a''"] v
    by (simp add: route_def post_backend_def plain_decoder_def plain_parser_def url_ok_def http_url_def)
qed

text \<open>
  What the API adds it can take away. After an addition that was answered 201, a \<open>DELETE\<close> of the
  text under which the backend is listed is answered 204 and leaves the map of backends as it was
  before the addition; and disabling and enabling the new backend in between is answered 200 and leads
  to the same map. The text must be free of percent and plus signs, since the handlers decode the
  path value a second time.
\<close>

theorem admin_add_remove_roundtrip:
  assumes "lb_wf s" and "route r = AddOne body" and "decodeJSON body = Inr req"
    and "parse_url (addURL req) = Inr u" and "fst (fst (Handler decodeJSON parse_url r s)) = 201"
    and "URLString u \<noteq> []" and "CHR ''%'' \<notin> set (URLString u)" and "CHR ''+'' \<notin> set (URLString u)"
    and "s1 = snd (Handler decodeJSON parse_url r s)"
    and "(off, s2) = Handler decodeJSON parse_url (named_request ''POST'' (URLString u) [''disable'']) s1"
    and "(on, s3) = Handler decodeJSON parse_url (named_request ''POST'' (URLString u) [''enable'']) s2"
    and "(del, s4) = Handler decodeJSON parse_url (named_request ''DELETE'' (URLString u) []) s3"
  shows "fst off = 200 \<and> fst on = 200 \<and> fst del = 204 \<and> view s3 = view s1 \<and> view s4 = view s"
proof -
  note impl = Handler_implements [of _ decodeJSON parse_url, unfolded implements_def]
  have routes: "route (named_request ''POST'' (URLString u) [''disable'']) = SetOne (URLString u) False"
    "route (named_request ''POST'' (URLString u) [''enable'']) = SetOne (URLString u) True"
    "route (named_request ''DELETE'' (URLString u) []) = RemoveOne (URLString u)"
    using assms(6) by (simp_all add: route_def named_request_def)
  have q: "QueryUnescape (URLString u) = Some (URLString u)" using assms(7,8) by (rule QueryUnescape_plain)
  let ?b = "configured u (max 1 (addWeight req))"
  have new: "view s (URLString u) = None" and v1: "view s1 = (view s)(URLString u \<mapsto> ?b)" and wf1: "lb_wf s1"
    using impl [OF assms(1), of r] assms(2-5,9) by (auto simp: Let_def split: if_splits)
  have 2: "fst off = 200" "view s2 = (view s1)(URLString u \<mapsto> SetAlive False ?b)" "lb_wf s2"
    using impl [OF wf1, of "named_request ''POST'' (URLString u) [''disable'']"] assms(10)
    by (auto simp: routes q v1 dest: sym)
  have 3: "fst on = 200" "view s3 = (view s2)(URLString u \<mapsto> SetAlive True (SetAlive False ?b))" "lb_wf s3"
    using impl [OF 2(3), of "named_request ''POST'' (URLString u) [''enable'']"] assms(11)
    by (auto simp: routes q 2(2) dest: sym)
  have 4: "fst del = 204" "view s4 = (view s3)(URLString u := None)"
    using impl [OF 3(3), of "named_request ''DELETE'' (URLString u) []"] assms(12)
    by (auto simp: routes q 3(2) dest: sym)
  have "SetAlive True (SetAlive False ?b) = ?b" by (simp add: SetAlive_def configured_def)
  then show ?thesis using 2 3 4 v1 new by auto
qed

theorem admin_add_remove_roundtrip_witness:
  "fst (fst (Handler plain_decoder plain_parser (named_request ''DELETE'' ''http://b'' [])
     (snd (Handler plain_decoder plain_parser (named_request ''POST'' ''http://b'' [''enable''])
       (snd (Handler plain_decoder plain_parser (named_request ''POST'' ''http://b'' [''disable''])
         (snd (Handler plain_decoder plain_parser (post_backend ''http://b'') (sample_lb [''a''] [])))))))))
   = 204"
proof -
  have add: "fst (fst (Handler plain_decoder plain_parser (post_backend ''http://b'') (sample_lb [''a''] []))) = 201"
    by (simp add: Handler_def addBackend_def post_backend_def plain_decoder_def plain_parser_def http_url_def
        sample_lb_def NewLoadBalancer_def sample_pool_def Backends_def alloc_def writeJSON_def Let_def http_backend_def)
  have wf: "lb_wf (sample_lb [''a''] [])" by (rule lb_wf_sample) simp
  have r: "route (post_backend ''http://b'') = AddOne ''http://b''" by (simp add: route_def post_backend_def)
  have d: "plain_decoder ''http://b'' = Inr \<lparr>addURL = ''http://b'', addWeight = 0\<rparr>"
    by (simp add: plain_decoder_def)
  have u: "plain_parser (addURL \<lparr>addURL = ''http://b'', addWeight = 0\<rparr>) = Inr (http_url ''b'')"
    by (simp add: plain_parser_def)
  show ?thesis
    using admin_add_remove_roundtrip [OF wf r d u add _ _ _ refl prod.collapse prod.collapse prod.collapse]
    by (simp add: http_url_def)
qed

text \<open>
  A backend whose URL holds a plus sign is listed but can be neither removed nor switched off: its
  text is turned into one with a space.
\<close>

lemma admin_misses_plus:
  "let s = sample_lb [''a/x+y''] [];
       d = Handler plain_decoder plain_parser (named_request ''DELETE'' ''http://a/x+y'' []) s
   in BackendURLs s = [''http://a/x+y''] \<and> fst (fst d) = 404 \<and> snd d = s"
  by (simp add: Handler_def named_request_def removeBackend_def sample_lb_def NewLoadBalancer_def sample_pool_def
      BackendURLs_def http_backend_def http_url_def Remove_def writeError_def writeJSON_def Let_def)

section \<open>Two additions at once\<close>

text \<open>
  \<open>addBackend\<close> looks for an existing backend and adds the new one in two critical sections. Here it
  is cut between them: \<open>add_check\<close> is everything up to the end of the loop over the backends,
  \<open>add_commit\<close> the rest.
\<close>

definition add_check ::
  "json_decoder \<Rightarrow> url_parser \<Rightarrow> admin_request \<Rightarrow> 'a pool_state_scheme \<Rightarrow> admin_response + (url \<times> int)" where
  "add_check decodeJSON parse_url r s =
     (case decodeJSON (requestBody r) of
        Inl err \<Rightarrow> Inl (writeError 400 (''invalid JSON: '' @ err))
      | Inr req \<Rightarrow>
          if addURL req = [] then Inl (writeError 400 ''url is required'')
          else
            (case parse_url (addURL req) of
               Inl err \<Rightarrow> Inl (writeError 400 (''invalid url: '' @ err))
             | Inr u \<Rightarrow>
                 if (Scheme u \<noteq> ''http'' \<and> Scheme u \<noteq> ''https'') \<or> Host u = [] then
                   Inl (writeError 400 ''url must use http or https scheme with a non-empty host'')
                 else if exists_url (heap s) (URLString u) (Backends s) then
                   Inl (writeError 409 ''backend already exists'')
                 else Inr (u, addWeight req)))"

definition add_commit :: "url \<Rightarrow> int \<Rightarrow> 'a pool_state_scheme \<Rightarrow> admin_response \<times> 'a pool_state_scheme" where
  "add_commit u w s =
     (let weight = (if w \<le> 0 then 1 else w) in
      (case alloc \<lparr>URL = u, Weight = weight, alive = False, activeConns = 0, ReverseProxy = None\<rparr> s of
         (b, s) \<Rightarrow>
           let s = s\<lparr>heap := modify b (SetAlive True) (heap s)\<rparr>;
               s = SetupProxy b s;
               s = AddBackend b s
           in (writeJSON 201 (Single \<lparr>statusURL = ref_url s b, statusAlive = True,
                 statusWeight = GetWeight (heap s b), statusConns = 0\<rparr>), s)))"

lemma addBackend_two_steps:
  "addBackend decodeJSON parse_url r s =
     (case add_check decodeJSON parse_url r s of
        Inl response \<Rightarrow> (response, s)
      | Inr (u, w) \<Rightarrow> add_commit u w s)"
  by (simp add: addBackend_def add_check_def add_commit_def Let_def split: sum.split prod.split)

lemma add_commit_register:
  "snd (add_commit u w s) = register (configured u (if w \<le> 0 then 1 else w)) s"
  "fst (fst (add_commit u w s)) = 201"
  by (auto simp: add_commit_def alloc_def SetupProxy_def modify_def accessor_defs register_def configured_def
      AddBackend_def writeJSON_def Let_def)

text \<open>
  Two requests for one new URL whose checks both come before the first addition are both answered
  201, but the second changes nothing: its weight is dropped.
\<close>

lemma concurrent_adds_both_succeed:
  assumes "pool_wf s"
    and "add_check decodeJSON parse_url r s = Inr (u, w)" and "add_check decodeJSON parse_url r' s = Inr (u', w')"
    and "URLString u' = URLString u"
    and "add_commit u w s = (resp, s')" and "add_commit u' w' s' = (resp', s'')"
  shows "fst resp = 201 \<and> fst resp' = 201 \<and> view s'' = view s' \<and>
    view s' (URLString u) = Some (configured u (if w \<le> 0 then 1 else w))"
proof -
  let ?b = "configured u (if w \<le> 0 then 1 else w)"
  have s': "s' = register ?b s" using add_commit_register(1) [of u w s] assms(5) by simp
  have url: "url_of ?b = URLString u" by (simp add: configured_def)
  have "view s (URLString u) = None"
    using assms(2) by (auto simp: add_check_def exists_url_iff split: sum.splits if_splits)
  then have v: "view s' (URLString u) = Some ?b"
    using view_register [OF assms(1), of ?b] url s' by simp
  have wf: "pool_wf s'"
    unfolding s' register_def using pool_wf_AddBackend [OF pool_wf_alloc [OF assms(1)]]
    by (simp add: alloc_def)
  have "view s'' = view s'"
    using add_commit_register(1) [of u' w' s'] assms(4,6) v
      view_register [OF wf, of "configured u' (if w' \<le> 0 then 1 else w')"] by (simp add: configured_def)
  with v show ?thesis
    using add_commit_register(2) [of u w s] add_commit_register(2) [of u' w' s'] assms(5,6) by simp
qed

end
