(* ===== verification/Golb_Main.thy ===== *)
theory Golb_Main
  imports Config_Props Reload Admin Rate_Limit
begin

text \<open>
  The program: \<open>cmd/golb/main.go\<close>. Start-up reads the configuration, checks it, and builds the load
  balancer, the health checker, the limiter and the servers; then requests, probes, sweeps,
  management requests and signals arrive in any order. Each of these is one event of a run; how the
  steps of concurrent requests interleave is modelled in \<open>Proxy_Concurrent\<close>.

  The operating system and the libraries outside the program are the record \<open>os\<close>. An exit with a
  message is the left side of a sum.
\<close>

section \<open>The command line and the TLS version\<close>

datatype exit_reason =
    ConfigFlagError string | ConfigError config_error | NoBackends | TLSPathEmpty | TLSCertMissing
  | TLSKeyMissing | StickyNameEmpty | StickyTTLNotPositive | BadAlgorithm string | BadBackendURL string
  | BadBackendScheme string | BadBackendHost string | NoMetricsEndpoint | MetricsPanic panic
  | BadRateLimit limiter_error

text \<open>The loop over the arguments; \<open>before\<close> are those already passed over.\<close>

fun extract_loop :: "string list \<Rightarrow> string list \<Rightarrow> exit_reason + (string \<times> string list)" where
  "extract_loop passed [] = Inr ([], passed)"
| "extract_loop passed (a # args) =
     (if a = ''--config'' \<or> a = ''-config'' then
        (case args of
           [] \<Rightarrow> Inl (ConfigFlagError a)
         | path # args \<Rightarrow> Inr (path, passed @ args))
      else
        (case CutPrefix a ''--config='' of
           Some path \<Rightarrow> if path = [] then Inl (ConfigFlagError ''--config='') else Inr (path, passed @ args)
         | None \<Rightarrow>
             (case CutPrefix a ''-config='' of
                Some path \<Rightarrow> if path = [] then Inl (ConfigFlagError ''-config='') else Inr (path, passed @ args)
              | None \<Rightarrow> extract_loop (passed @ [a]) args)))"

definition extractConfigFlag :: "string list \<Rightarrow> exit_reason + (string \<times> string list)" where
  "extractConfigFlag args = extract_loop [] args"

definition VersionTLS12 :: int where "VersionTLS12 = 0x0303"
definition VersionTLS13 :: int where "VersionTLS13 = 0x0304"

definition parseTLSVersion :: "string \<Rightarrow> int" where
  "parseTLSVersion s =
     (let s = TrimSpace s in
      if s = ''1.3'' then VersionTLS13
      else if s = ''1.2'' \<or> s = [] then VersionTLS12
      else VersionTLS12)"

section \<open>Start-up\<close>

record os =
  osFiles :: files
  osFloat :: float_parser
  osStat :: "string \<Rightarrow> bool"
  osURL :: url_parser
  osRegister :: "collector \<Rightarrow> register_result"

definition check_tls :: "os \<Rightarrow> config \<Rightarrow> exit_reason + unit" where
  "check_tls sys c =
     (if TLSEnabled (TLS c) then
        (if CertFile (TLS c) = [] \<or> KeyFile (TLS c) = [] then Inl TLSPathEmpty
         else if \<not> osStat sys (CertFile (TLS c)) then Inl TLSCertMissing
         else if \<not> osStat sys (KeyFile (TLS c)) then Inl TLSKeyMissing
         else Inr ())
      else Inr ())"

definition check_sticky :: "config \<Rightarrow> exit_reason + unit" where
  "check_sticky c =
     (if StickyEnabled (StickySession c) then
        (if TrimSpace (StickyCookieName (StickySession c)) = [] then Inl StickyNameEmpty
         else if TTL (StickySession c) \<le> 0 then Inl StickyTTLNotPositive
         else Inr ())
      else Inr ())"

definition proxy_options :: "config \<Rightarrow> lb_option list" where
  "proxy_options c =
     (if CBEnabled (CircuitBreaker c)
      then [WithCircuitBreaker (NewRegistry \<lparr>FailureThreshold = CBFailureThreshold (CircuitBreaker c),
              SuccessThreshold = CBSuccessThreshold (CircuitBreaker c), Timeout = CBTimeout (CircuitBreaker c)\<rparr>)]
      else []) @
     (if StickyEnabled (StickySession c)
      then [WithStickySession (NewAffinity (StickyCookieName (StickySession c)) (TTL (StickySession c))
              [WithSecure (TLSEnabled (TLS c))])]
      else [])"

text \<open>\<open>&pool.ServerPool{}\<close> in a store whose unused references hold anything.\<close>

definition empty_pool :: "store \<Rightarrow> pool_state" where
  "empty_pool h = \<lparr>heap = h, fresh = 0, mets = metrics0, backends = []\<rparr>"

fun register_backends :: "url_parser \<Rightarrow> backend_config list \<Rightarrow> lb_state \<Rightarrow> exit_reason + lb_state" where
  "register_backends parse_url [] s = Inr s"
| "register_backends parse_url (bc # bcs) s =
     (case parse_url (BackendURL bc) of
        Inl err \<Rightarrow> Inl (BadBackendURL (BackendURL bc))
      | Inr u \<Rightarrow>
          if Scheme u \<noteq> ''http'' \<and> Scheme u \<noteq> ''https'' then Inl (BadBackendScheme (BackendURL bc))
          else if Host u = [] then Inl (BadBackendHost (BackendURL bc))
          else
            (case alloc \<lparr>URL = u, Weight = BackendWeight bc, alive = False, activeConns = 0, ReverseProxy = None\<rparr> s of
               (b, s) \<Rightarrow>
                 let s = s\<lparr>heap := modify b (SetAlive True) (heap s)\<rparr>;
                     s = SetupProxy b s;
                     s = AddBackend b s
                 in register_backends parse_url bcs s))"

definition start_metrics :: "os \<Rightarrow> config \<Rightarrow> lb_state \<Rightarrow> exit_reason + lb_state" where
  "start_metrics sys c s =
     (if MetricsEnabled (Metrics c) then
        (case Init (osRegister sys) (mets s) of
           (m, Some p) \<Rightarrow> Inl (MetricsPanic p)
         | (m, None) \<Rightarrow>
             Inr (fold (\<lambda>b s. s\<lparr>mets := SetBackendUp (ref_url s b) True (mets s)\<rparr>) (Backends s) (s\<lparr>mets := m\<rparr>)))
      else Inr s)"

definition start_health :: "config \<Rightarrow> health_checker" where
  "start_health c =
     (let h = HealthCheck c
      in NewHealthChecker (HealthPath h) (HealthInterval h) (HealthTimeout h)
           [WithUnhealthyThreshold (UnhealthyThreshold h), WithHealthyThreshold (HealthyThreshold h)])"

definition start_limiter :: "instant \<Rightarrow> config \<Rightarrow> exit_reason + limiter option" where
  "start_limiter t c =
     (if RLEnabled (RateLimit c) then
        (case NewLimiter t (RequestsPerSecond (RateLimit c)) (Burst (RateLimit c)) (PerIP (RateLimit c)) of
           Inl err \<Rightarrow> Inl (BadRateLimit err)
         | Inr l \<Rightarrow> Inr (Some l))
      else Inr None)"

text \<open>The HTTP servers started: port and the paths they serve.\<close>

definition servers :: "config \<Rightarrow> (int \<times> string list) list" where
  "servers c =
     [(ServerPort (Server c), [''/''])] @
     (if AdminPort (Admin c) \<noteq> 0
      then [(AdminPort (Admin c),
             [''/''] @ (if MetricsEnabled (Metrics c) \<and> MetricsPort (Metrics c) = 0 then [''/metrics''] else []))]
      else []) @
     (if MetricsEnabled (Metrics c) \<and> MetricsPort (Metrics c) \<noteq> 0
      then [(MetricsPort (Metrics c), [''/metrics''])] else [])"

record golb =
  cfgPath :: string
  currentCfg :: config
  served :: lb_state
  checker :: health_checker
  tickerInterval :: duration
  limits :: "limiter option"
  listening :: "(int \<times> string list) list"
  tlsMinVersion :: "int option"
  managed :: bool \<comment> \<open>the management server runs\<close>
  shuttingDown :: bool

definition main_start :: "os \<Rightarrow> store \<Rightarrow> instant \<Rightarrow> string list \<Rightarrow> exit_reason + golb" where
  "main_start sys h t osArgs =
     sum_bind (extractConfigFlag osArgs) (\<lambda>(path, args).
     case Load (osFiles sys) (osFloat sys) path args of
       Inl err \<Rightarrow> Inl (ConfigError err)
     | Inr c \<Rightarrow>
     if length (PoolBackends (Pool c)) = 0 then Inl NoBackends
     else
     sum_bind (check_tls sys c) (\<lambda>_.
     sum_bind (check_sticky c) (\<lambda>_.
     case New (Algorithm (Pool c)) of
       Inl err \<Rightarrow> Inl (BadAlgorithm err)
     | Inr a \<Rightarrow>
     sum_bind (register_backends (osURL sys) (PoolBackends (Pool c))
       (NewLoadBalancer (empty_pool h) a (proxy_options c))) (\<lambda>s.
     if MetricsEnabled (Metrics c) \<and> MetricsPort (Metrics c) = 0 \<and> AdminPort (Admin c) = 0
     then Inl NoMetricsEndpoint
     else
     sum_bind (start_metrics sys c s) (\<lambda>s.
     sum_bind (start_limiter t c) (\<lambda>l.
     Inr \<lparr>cfgPath = path, currentCfg = c, served = s, checker = start_health c,
       tickerInterval = hcInterval (start_health c), limits = l, listening = servers c,
       tlsMinVersion = (if TLSEnabled (TLS c) then Some (parseTLSVersion (MinVersion (TLS c))) else None),
       managed = (AdminPort (Admin c) \<noteq> 0), shuttingDown = False\<rparr>))))))"

section \<open>Serving\<close>

text \<open>
  A new request comes with a response of its own. \<open>net/http\<close> recovers a panicking handler and closes the
  connection; the state stays as the handler left it.
\<close>

definition serve_one :: "env \<Rightarrow> instant \<Rightarrow> request \<Rightarrow> lb_state \<Rightarrow> lb_state" where
  "serve_one e t r s = fst (ServeHTTP e (s\<lparr>now := t, status := [], writers := [], setCookies := []\<rparr>) r)"

definition lb_handler :: "env \<Rightarrow> (request, lb_state limited) handler" where
  "lb_handler e t addr r st = Some (st\<lparr>inner := serve_one e t r (inner st)\<rparr>)"

definition client_request :: "env \<Rightarrow> int \<Rightarrow> instant \<Rightarrow> string \<Rightarrow> request \<Rightarrow> golb \<Rightarrow> golb" where
  "client_request e epoch t addr r g =
     (case limits g of
        None \<Rightarrow> g\<lparr>served := serve_one e t r (served g)\<rparr>
      | Some l \<Rightarrow>
          (case Chain (lb_handler e) [limiter_Middleware epoch] t addr r
                  \<lparr>limiter = l, rejected = None, inner = served g\<rparr> of
             None \<Rightarrow> g
           | Some st \<Rightarrow> g\<lparr>limits := Some (limiter st), served := inner st\<rparr>))"

definition health_tick :: "prober \<Rightarrow> ref list \<Rightarrow> golb \<Rightarrow> golb" where
  "health_tick probe order g =
     (case Start_tick probe order (tickerInterval g, checker g, served g) of
        (i, hc, s) \<Rightarrow> g\<lparr>tickerInterval := i, checker := hc, served := s\<rparr>)"

definition admin_request_step :: "json_decoder \<Rightarrow> url_parser \<Rightarrow> admin_request \<Rightarrow> golb \<Rightarrow> golb" where
  "admin_request_step decodeJSON parse_url r g =
     (if \<not> managed g then g
      else g\<lparr>served := snd (Handler decodeJSON parse_url r (served g))\<rparr>)"

text \<open>\<open>SIGHUP\<close>; \<open>keys\<close> is the order in which Go iterates over a configuration's map of backends.\<close>

definition sighup :: "files \<Rightarrow> float_parser \<Rightarrow> url_parser \<Rightarrow> (config \<Rightarrow> string list) \<Rightarrow> golb \<Rightarrow> golb" where
  "sighup fs parseFloat parse_url keys g =
     (if cfgPath g = [] then g
      else
        (case LoadFile fs parseFloat (cfgPath g) of
           Inl err \<Rightarrow> g
         | Inr newCfg \<Rightarrow>
             if length (PoolBackends (Pool newCfg)) = 0 then g
             else
               (case New (Algorithm (Pool newCfg)) of
                  Inl err \<Rightarrow> g
                | Inr a \<Rightarrow>
                    let d = ComputeDiff (keys newCfg) (keys (currentCfg g)) (currentCfg g) newCfg in
                    (case Apply parse_url d (checker g, served g) of
                       (Some err, hc, s) \<Rightarrow> g\<lparr>checker := hc, served := s\<rparr>
                     | (None, hc, s) \<Rightarrow> g\<lparr>checker := hc, served := s, currentCfg := newCfg\<rparr>))))"

section \<open>The whole program as a sequence of events\<close>

datatype golb_event =
    Request env int instant string request
  | ProbeRound prober "ref list"
  | Manage json_decoder admin_request
  | SweepTick int instant
  | Hup files "config \<Rightarrow> string list"
  | Terminate

text \<open>After \<open>SIGINT\<close> or \<open>SIGTERM\<close> the signal loop ends and the servers shut down.\<close>

fun golb_step :: "float_parser \<Rightarrow> url_parser \<Rightarrow> golb_event \<Rightarrow> golb \<Rightarrow> golb" where
  "golb_step parseFloat parse_url ev g =
     (if shuttingDown g then g
      else
        (case ev of
           Request e epoch t addr r \<Rightarrow> client_request e epoch t addr r g
         | ProbeRound probe order \<Rightarrow> health_tick probe order g
         | Manage decodeJSON r \<Rightarrow> admin_request_step decodeJSON parse_url r g
         | SweepTick epoch t \<Rightarrow> g\<lparr>limits := map_option (sweep epoch t) (limits g)\<rparr>
         | Hup fs keys \<Rightarrow> sighup fs parseFloat parse_url keys g
         | Terminate \<Rightarrow> g\<lparr>shuttingDown := True\<rparr>))"

definition golb_run :: "float_parser \<Rightarrow> url_parser \<Rightarrow> golb_event list \<Rightarrow> golb \<Rightarrow> golb" where
  "golb_run parseFloat parse_url evs g = fold (golb_step parseFloat parse_url) evs g"

text \<open>
  What the properties ask of the events: Go's iteration runs through exactly the keys of a map, and
  the files read on \<open>SIGHUP\<close> spell URLs as they are printed.
\<close>

fun event_ok :: "float_parser \<Rightarrow> url_parser \<Rightarrow> string \<Rightarrow> golb_event \<Rightarrow> bool" where
  "event_ok parseFloat parse_url path (Hup fs keys) \<longleftrightarrow>
     (\<forall>c. set (keys c) = dom (backend_map c)) \<and>
     (\<forall>c. LoadFile fs parseFloat path = Inr c \<longrightarrow> canonical parse_url c)"
| "event_ok parseFloat parse_url path ev \<longleftrightarrow> True"

fun is_manage :: "golb_event \<Rightarrow> bool" where
  "is_manage (Manage decodeJSON r) \<longleftrightarrow> True"
| "is_manage ev \<longleftrightarrow> False"

section \<open>Steps that leave the pool's configuration alone\<close>

text \<open>Membership, URLs, weights and proxies are the same.\<close>

definition same_pool :: "lb_state \<Rightarrow> lb_state \<Rightarrow> bool" where
  "same_pool s t \<longleftrightarrow> backends t = backends s \<and> fresh t = fresh s \<and>
     (\<forall>x. URL (heap t x) = URL (heap s x) \<and> Weight (heap t x) = Weight (heap s x) \<and>
        ReverseProxy (heap t x) = ReverseProxy (heap s x))"

lemma same_pool_keeps:
  assumes "same_pool s t"
  shows "lb_wf t = lb_wf s" and "runs_config c t = runs_config c s"
proof -
  have "find_url (heap t) u (backends t) = find_url (heap s) u (backends s)" for u
    using assms find_url_cong [of "backends s" "heap t" "heap s" u] by (simp add: same_pool_def)
  then show "runs_config c t = runs_config c s"
    using assms by (simp add: runs_config_def view_def option.map_comp comp_def same_pool_def)
  show "lb_wf t = lb_wf s"
    using assms by (simp add: lb_wf_def pool_wf_def BackendURLs_def same_pool_def)
qed

lemma same_pool_serve: "same_pool s (serve_one e t r s)"
  using frame.serve_R(1) [of "s\<lparr>now := t, status := [], writers := [], setCookies := []\<rparr>" e r]
  by (simp add: serve_one_def same_pool_def serve_frame_def)

lemma same_pool_request: "same_pool (served g) (served (client_request e epoch t addr r g))"
  by (auto simp: client_request_def limiter_Middleware_def lb_handler_def Let_def same_pool_serve
      split: option.split) (auto simp: same_pool_def)

lemma same_pool_tick: "same_pool (served g) (served (health_tick probe order g))"
proof -
  have "same_pool (snd st) (snd (fold (CheckBackend probe) order st))" for st
  proof (induction order arbitrary: st)
    case (Cons b order)
    have "same_pool (snd st) (snd (CheckBackend probe b st))"
      unfolding CheckBackend_record same_pool_def by (simp add: frame_simps)
    with Cons [of "CheckBackend probe b st"] show ?case by (simp add: same_pool_def)
  qed (simp add: same_pool_def)
  from this [of "(checker g, served g)"] show ?thesis
    by (simp add: health_tick_def Start_tick_def case_prod_unfold)
qed

section \<open>Every reload keeps the pool servable\<close>

lemma Apply_lb_wf:
  assumes "lb_wf s" and "Apply parse_url d (hc, s) = (err, hc', s')"
  shows "lb_wf s'"
proof (cases err)
  case None
  have add: "lb_wf s \<Longrightarrow> lb_wf (add_one x s)" for x s
    using lb_wf_register [of s] by (cases x) (simp add: add_one_register configured_def lb_wf_def)
  have remove: "lb_wf s \<Longrightarrow> lb_wf (remove_one u s)" for u s
    by (auto simp: remove_one_def Let_def lb_wf_view pool.inv_del pool.look_del ran_def split: if_splits)
  have change: "lb_wf s \<Longrightarrow> lb_wf (change_one m bc s)" for m bc s
    by (auto simp: change_one_def lb_wf_def modify_apply accessor_fields intro!: pool_wf_modify split: option.split)
  have folds: "lb_wf s \<Longrightarrow> lb_wf (fold f xs s)" if "\<And>x s. lb_wf s \<Longrightarrow> lb_wf (f x s)"
    for xs :: "'x list" and f and s :: lb_state
    using that by (induction xs arbitrary: s) simp_all
  note folds = folds [of add_one, OF add] folds [of remove_one, OF remove] folds [of "change_one _", OF change]
  have "lb_wf (SetAlgorithm a s) = lb_wf s" for a s
    by (simp add: SetAlgorithm_def lb_wf_def pool_wf_def BackendURLs_def)
  with None assms folds show ?thesis by (auto elim!: Apply_None split: option.split)
next
  case (Some e)
  then show ?thesis using Apply_error [of parse_url d hc s] assms by auto
qed

lemma sighup_keeps:
  assumes "lb_wf (served g)"
  shows "lb_wf (served (sighup fs parseFloat parse_url keys g))"
  using assms
  by (auto simp: sighup_def Let_def split: sum.split prod.split option.split dest: Apply_lb_wf [rotated])

lemma sighup_runs:
  assumes wf: "lb_wf (served g)" and runs: "runs_config (currentCfg g) (served g)"
    and ok: "event_ok parseFloat parse_url (cfgPath g) (Hup fs keys)"
  shows "runs_config (currentCfg (sighup fs parseFloat parse_url keys g)) (served (sighup fs parseFloat parse_url keys g))"
proof (cases "cfgPath g = [] \<or> isl (LoadFile fs parseFloat (cfgPath g))")
  case True
  then show ?thesis using runs by (auto simp: sighup_def isl_def)
next
  case False
  then obtain c where c: "LoadFile fs parseFloat (cfgPath g) = Inr c"
    by (cases "LoadFile fs parseFloat (cfgPath g)") auto
  let ?d = "ComputeDiff (keys c) (keys (currentCfg g)) (currentCfg g) c"
  obtain err hc' s' where a: "Apply parse_url ?d (checker g, served g) = (err, hc', s')"
    by (cases "Apply parse_url ?d (checker g, served g)") auto
  show ?thesis
  proof (cases err)
    case None
    have "view s' = reload_target parse_url c (view (served g))"
      using reload_view [OF wf runs, of parse_url c "keys c" "keys (currentCfg g)"] ok c a None by simp
    then have "runs_config c s'" by (rule runs_reload_target)
    with runs False c a None show ?thesis by (simp add: sighup_def Let_def split: sum.split)
  next
    case (Some e)
    then have "s' = served g" using Apply_error [of parse_url ?d "checker g" "served g"] a by auto
    with runs False c a Some show ?thesis by (simp add: sighup_def Let_def split: sum.split)
  qed
qed

lemma step_keeps:
  assumes "lb_wf (served g)"
  shows "lb_wf (served (golb_step parseFloat parse_url ev g)) \<and>
    cfgPath (golb_step parseFloat parse_url ev g) = cfgPath g"
proof (cases ev)
  case (Request e epoch t addr r)
  then show ?thesis using assms same_pool_keeps(1) [OF same_pool_request]
    by (auto simp: client_request_def split: option.split)
next
  case (ProbeRound probe order)
  then show ?thesis using assms same_pool_keeps(1) [OF same_pool_tick]
    by (auto simp: health_tick_def split: prod.split)
next
  case (Manage decodeJSON r)
  then show ?thesis using assms Handler_implements [OF assms, of decodeJSON parse_url r]
    by (simp add: admin_request_step_def implements_def)
next
  case (Hup fs keys)
  then show ?thesis using assms sighup_keeps [OF assms]
    by (auto simp: sighup_def Let_def split: sum.split prod.split option.split)
qed (use assms in simp_all)

lemma step_runs:
  assumes "lb_wf (served g)" and "runs_config (currentCfg g) (served g)"
    and "event_ok parseFloat parse_url (cfgPath g) ev" and "\<not> is_manage ev"
  shows "runs_config (currentCfg (golb_step parseFloat parse_url ev g)) (served (golb_step parseFloat parse_url ev g))"
proof (cases ev)
  case (Request e epoch t addr r)
  have "currentCfg (client_request e epoch t addr r g) = currentCfg g"
    by (auto simp: client_request_def split: option.split)
  with Request assms same_pool_keeps(2) [OF same_pool_request] show ?thesis by simp
next
  case (ProbeRound probe order)
  have "currentCfg (health_tick probe order g) = currentCfg g"
    by (simp add: health_tick_def split: prod.split)
  with ProbeRound assms same_pool_keeps(2) [OF same_pool_tick] show ?thesis by simp
qed (use assms sighup_runs [of g parseFloat parse_url] in simp_all)

lemma run_simps [simp]:
  "golb_run parseFloat parse_url [] g = g"
  "golb_run parseFloat parse_url (ev # evs) g =
     golb_run parseFloat parse_url evs (golb_step parseFloat parse_url ev g)"
  by (simp_all add: golb_run_def del: golb_step.simps)

lemma run_keeps: "lb_wf (served g) \<Longrightarrow> lb_wf (served (golb_run parseFloat parse_url evs g))"
  by (induction evs arbitrary: g) (simp_all add: step_keeps del: golb_step.simps)

lemma run_runs:
  assumes "lb_wf (served g)" and "runs_config (currentCfg g) (served g)"
    and "list_all (event_ok parseFloat parse_url (cfgPath g)) evs" and "\<not> list_ex is_manage evs"
  shows "runs_config (currentCfg (golb_run parseFloat parse_url evs g)) (served (golb_run parseFloat parse_url evs g))"
  using assms
  by (induction evs arbitrary: g) (simp_all add: step_keeps step_runs del: golb_step.simps)

section \<open>What start-up builds\<close>

definition configured_backends :: "url_parser \<Rightarrow> backend_config list \<Rightarrow> backend list" where
  "configured_backends parse_url bcs =
     map (\<lambda>bc. configured (projr (parse_url (BackendURL bc))) (BackendWeight bc)) bcs"

lemma install_register:
  "(case alloc \<lparr>URL = u, Weight = w, alive = False, activeConns = 0, ReverseProxy = None\<rparr> s of
      (b, s) \<Rightarrow> AddBackend b (SetupProxy b (s\<lparr>heap := modify b (SetAlive True) (heap s)\<rparr>))) =
   register (configured u w) s"
  by (auto simp: alloc_def SetupProxy_def modify_def accessor_defs register_def configured_def AddBackend_def)

lemma register_backends_Inr:
  "register_backends parse_url bcs s = Inr s' \<longleftrightarrow>
     list_all (\<lambda>bc. url_ok parse_url (BackendURL bc)) bcs \<and>
     s' = fold register (configured_backends parse_url bcs) s"
proof (induction bcs arbitrary: s)
  case (Cons bc bcs)
  show ?case
  proof (cases "url_ok parse_url (BackendURL bc)")
    case True
    then obtain u where "parse_url (BackendURL bc) = Inr u" "Scheme u \<in> {''http'', ''https''}" "Host u \<noteq> []"
      by (auto simp: url_ok_def split: sum.splits)
    moreover from this have "register_backends parse_url (bc # bcs) s =
        register_backends parse_url bcs (register (configured u (BackendWeight bc)) s)"
      by (auto simp: Let_def case_prod_unfold simp flip: install_register)
    ultimately show ?thesis
      using Cons [of "register (configured u (BackendWeight bc)) s"] True by (simp add: configured_backends_def)
  next
    case False
    then show ?thesis by (auto simp: url_ok_def split: sum.splits)
  qed
qed (auto simp: configured_backends_def)

lemma register_keeps [simp]:
  "algo (fold register bs s) = algo s" "cbRegistry (fold register bs s) = cbRegistry s"
  "sticky (fold register bs s) = sticky s" "mets (fold register bs s) = mets s"
  for s :: lb_state
  by (induction bs arbitrary: s) (simp_all add: register_def alloc_def AddBackend_def)

lemma backend_map_distinct:
  assumes "distinct (map BackendURL (PoolBackends (Pool c)))"
  shows "backend_map c = map_of (map (\<lambda>b. (BackendURL b, b)) (PoolBackends (Pool c)))"
proof -
  have "distinct (map BackendURL bs) \<Longrightarrow>
      fold (\<lambda>b m. m(BackendURL b \<mapsto> b)) bs m = m ++ map_of (map (\<lambda>b. (BackendURL b, b)) bs)" for bs m
  proof (induction bs arbitrary: m)
    case (Cons b bs)
    then have "map_of (map (\<lambda>b. (BackendURL b, b)) bs) (BackendURL b) = None"
      by (auto simp: map_of_eq_None_iff image_iff)
    with Cons show ?case by (auto simp: map_add_def fun_eq_iff split: option.split)
  qed simp
  from this [OF assms, of Map.empty] show ?thesis by (simp add: backend_map_def)
qed

lemma registered_view:
  assumes "pool_wf s" and "view s = Map.empty" and "canonical parse_url c"
    and "list_all (\<lambda>bc. url_ok parse_url (BackendURL bc)) (PoolBackends (Pool c))"
  shows "view (fold register (configured_backends parse_url (PoolBackends (Pool c))) s) =
    map_of (map (\<lambda>bc. (BackendURL bc, configured (projr (parse_url (BackendURL bc))) (BackendWeight bc)))
      (PoolBackends (Pool c)))"
proof -
  have "url_of (configured (projr (parse_url (BackendURL bc))) (BackendWeight bc)) = BackendURL bc"
    if "bc \<in> set (PoolBackends (Pool c))" for bc
    using assms(3,4) that
    by (cases "parse_url (BackendURL bc)") (auto simp: canonical_def list_all_iff configured_def url_ok_def)
  then have "map (\<lambda>e. (url_of e, e)) (configured_backends parse_url (PoolBackends (Pool c))) =
      map (\<lambda>bc. (BackendURL bc, configured (projr (parse_url (BackendURL bc))) (BackendWeight bc))) (PoolBackends (Pool c))"
    by (simp add: configured_backends_def)
  then show ?thesis using pool.look_put_all [OF assms(1)] assms(2) by (simp del: map_map)
qed

lemma start_metrics_same_pool:
  assumes "start_metrics sys c s = Inr s'"
  shows "same_pool s s' \<and> heap s' = heap s \<and> algo s' = algo s \<and> cbRegistry s' = cbRegistry s \<and> sticky s' = sticky s"
proof -
  have keep: "same_pool x (fold (\<lambda>b s. s\<lparr>mets := upd b s\<rparr>) refs x) \<and>
      heap (fold (\<lambda>b s. s\<lparr>mets := upd b s\<rparr>) refs x) = heap x \<and>
      algo (fold (\<lambda>b s. s\<lparr>mets := upd b s\<rparr>) refs x) = algo x \<and>
      cbRegistry (fold (\<lambda>b s. s\<lparr>mets := upd b s\<rparr>) refs x) = cbRegistry x \<and>
      sticky (fold (\<lambda>b s. s\<lparr>mets := upd b s\<rparr>) refs x) = sticky x"
    for upd and refs :: "ref list" and x :: lb_state
  proof (induction refs arbitrary: x)
    case (Cons b refs)
    from Cons [of "x\<lparr>mets := upd b x\<rparr>"] show ?case by (simp add: same_pool_def)
  qed (simp add: same_pool_def)
  show ?thesis
  proof (cases "MetricsEnabled (Metrics c)")
    case True
    with assms obtain m where "s' = fold (\<lambda>b s. s\<lparr>mets := SetBackendUp (ref_url s b) True (mets s)\<rparr>)
        (Backends s) (s\<lparr>mets := m\<rparr>)"
      by (auto simp: start_metrics_def split: prod.splits option.splits)
    with keep [where upd = "\<lambda>b s. SetBackendUp (ref_url s b) True (mets s)" and refs = "Backends s" and x = "s\<lparr>mets := m\<rparr>"] show ?thesis
      by (simp add: same_pool_def)
  next
    case False
    with assms show ?thesis by (simp add: start_metrics_def same_pool_def)
  qed
qed

lemma main_startE:
  assumes "main_start sys h t osArgs = Inr g"
  obtains path args a s s' where "extractConfigFlag osArgs = Inr (path, args)"
    and "Load (osFiles sys) (osFloat sys) path args = Inr (currentCfg g)"
    and "cfgPath g = path" and "PoolBackends (Pool (currentCfg g)) \<noteq> []"
    and "check_tls sys (currentCfg g) = Inr ()" and "check_sticky (currentCfg g) = Inr ()"
    and "New (Algorithm (Pool (currentCfg g))) = Inr a"
    and "register_backends (osURL sys) (PoolBackends (Pool (currentCfg g)))
      (NewLoadBalancer (empty_pool h) a (proxy_options (currentCfg g))) = Inr s"
    and "\<not> (MetricsEnabled (Metrics (currentCfg g)) \<and> MetricsPort (Metrics (currentCfg g)) = 0 \<and>
      AdminPort (Admin (currentCfg g)) = 0)"
    and "start_metrics sys (currentCfg g) s = Inr s'" and "served g = s'"
    and "start_limiter t (currentCfg g) = Inr (limits g)"
    and "checker g = start_health (currentCfg g)" and "listening g = servers (currentCfg g)"
    and "managed g = (AdminPort (Admin (currentCfg g)) \<noteq> 0)" and "\<not> shuttingDown g"
    and "tickerInterval g = hcInterval (start_health (currentCfg g))"
    and "tlsMinVersion g = (if TLSEnabled (TLS (currentCfg g))
      then Some (parseTLSVersion (MinVersion (TLS (currentCfg g)))) else None)"
proof -
  obtain path args where arg: "extractConfigFlag osArgs = Inr (path, args)"
    using assms by (auto simp: main_start_def sum_bind_Inr_iff)
  obtain c where c: "Load (osFiles sys) (osFloat sys) path args = Inr c"
    using assms arg by (cases "Load (osFiles sys) (osFloat sys) path args") (auto simp: main_start_def)
  obtain a where a: "New (Algorithm (Pool c)) = Inr a"
    using assms arg c
    by (cases "New (Algorithm (Pool c))") (auto simp: main_start_def sum_bind_Inr_iff split: if_split_asm)
  obtain s s' l where ne: "PoolBackends (Pool c) \<noteq> []"
    and checks: "check_tls sys c = Inr ()" "check_sticky c = Inr ()"
    and reg: "register_backends (osURL sys) (PoolBackends (Pool c))
      (NewLoadBalancer (empty_pool h) a (proxy_options c)) = Inr s"
    and end_point: "\<not> (MetricsEnabled (Metrics c) \<and> MetricsPort (Metrics c) = 0 \<and> AdminPort (Admin c) = 0)"
    and met: "start_metrics sys c s = Inr s'" and lim: "start_limiter t c = Inr l"
    and g: "g = \<lparr>cfgPath = path, currentCfg = c, served = s', checker = start_health c,
       tickerInterval = hcInterval (start_health c), limits = l, listening = servers c,
       tlsMinVersion = (if TLSEnabled (TLS c) then Some (parseTLSVersion (MinVersion (TLS c))) else None),
       managed = (AdminPort (Admin c) \<noteq> 0), shuttingDown = False\<rparr>"
    using assms arg c a by (auto simp: main_start_def sum_bind_Inr_iff split: if_split_asm)
  show thesis
    by (rule that [of path args a s s']) (use arg c a ne checks reg end_point met lim g in simp_all)
qed

lemma start_options:
  "cbRegistry (NewLoadBalancer p a (proxy_options c)) =
     (if CBEnabled (CircuitBreaker c)
      then Some (NewRegistry \<lparr>FailureThreshold = CBFailureThreshold (CircuitBreaker c),
        SuccessThreshold = CBSuccessThreshold (CircuitBreaker c), Timeout = CBTimeout (CircuitBreaker c)\<rparr>)
      else None)"
  "sticky (NewLoadBalancer p a (proxy_options c)) =
     (if StickyEnabled (StickySession c)
      then Some (NewAffinity (StickyCookieName (StickySession c)) (TTL (StickySession c)) [WithSecure (TLSEnabled (TLS c))])
      else None)"
  "algo (NewLoadBalancer p a (proxy_options c)) = a" "backends (NewLoadBalancer p a (proxy_options c)) = backends p"
  "mets (NewLoadBalancer p a (proxy_options c)) = mets p"
  by (simp_all add: NewLoadBalancer_def proxy_options_def)

lemma empty_start:
  "pool_wf (NewLoadBalancer (empty_pool h) a (proxy_options c))"
  "view (NewLoadBalancer (empty_pool h) a (proxy_options c)) = Map.empty"
  by (simp_all add: pool_wf_def BackendURLs_def start_options empty_pool_def view_def fun_eq_iff)

lemma started_pool:
  assumes start: "main_start sys h t osArgs = Inr g" and canon: "canonical (osURL sys) (currentCfg g)"
    and dist: "distinct (map BackendURL (PoolBackends (Pool (currentCfg g))))"
  shows "lb_wf (served g)" and "runs_config (currentCfg g) (served g)"
    and "\<forall>b \<in> ran (view (served g)). alive b \<and> activeConns b = 0"
proof -
  let ?c = "currentCfg g"
  from start obtain a s where reg: "register_backends (osURL sys) (PoolBackends (Pool ?c))
      (NewLoadBalancer (empty_pool h) a (proxy_options ?c)) = Inr s"
    and met: "start_metrics sys ?c s = Inr (served g)"
    by (rule main_startE) blast
  let ?s0 = "NewLoadBalancer (empty_pool h) a (proxy_options ?c)"
  have ok: "list_all (\<lambda>bc. url_ok (osURL sys) (BackendURL bc)) (PoolBackends (Pool ?c))"
    and s: "s = fold register (configured_backends (osURL sys) (PoolBackends (Pool ?c))) ?s0"
    using reg by (simp_all add: register_backends_Inr)
  let ?f = "\<lambda>bc :: backend_config. configured (projr (osURL sys (BackendURL bc))) (BackendWeight bc)"
  have v: "view s = map_of (map (\<lambda>bc. (BackendURL bc, ?f bc)) (PoolBackends (Pool ?c)))"
    unfolding s by (rule registered_view [OF empty_start canon ok])
  then have each: "\<exists>bc. b = ?f bc" if "b \<in> ran (view s)" for b
    using that by (auto simp: ran_def v dest!: map_of_SomeD)
  have "pool_wf s" unfolding s by (rule pool.inv_put_all [OF empty_start(1)])
  then have wf: "lb_wf s" using each by (force simp: lb_wf_view configured_def)
  have "map_option Weight (map_of (map (\<lambda>bc. (BackendURL bc, ?f bc)) bs) u) =
      map_option BackendWeight (map_of (map (\<lambda>b. (BackendURL b, b)) bs) u)" for bs u
    by (induction bs) (simp_all add: configured_def)
  then have runs: "runs_config ?c s" by (simp add: runs_config_def v backend_map_distinct [OF dist])
  have same: "same_pool s (served g)" and heap: "heap (served g) = heap s"
    using start_metrics_same_pool [OF met] by auto
  show "lb_wf (served g)" and "runs_config ?c (served g)"
    using same_pool_keeps [OF same] wf runs by simp_all
  have "view (served g) = view s"
    using same by (intro ext) (simp add: view_def heap same_pool_def)
  then show "\<forall>b \<in> ran (view (served g)). alive b \<and> activeConns b = 0"
    using each by (force simp: configured_def)
qed

lemma start_gauge:
  assumes "start_metrics sys c s = Inr s'" and "mets s = metrics0" and "\<forall>b \<in> set (backends s). alive (heap s b)"
  shows "gauge_ok s'"
proof -
  have gauges: "heap (fold (\<lambda>b s. s\<lparr>mets := SetBackendUp (ref_url s b) True (mets s)\<rparr>) refs x) = heap x \<and>
      backends (fold (\<lambda>b s. s\<lparr>mets := SetBackendUp (ref_url s b) True (mets s)\<rparr>) refs x) = backends x \<and>
      (\<forall>u. enabled (mets x) \<longrightarrow> (up_value u (calls (mets x)) = Some 1 \<or> u \<in> ref_url x ` set refs) \<longrightarrow>
        up_value u (calls (mets (fold (\<lambda>b s. s\<lparr>mets := SetBackendUp (ref_url s b) True (mets s)\<rparr>) refs x))) = Some 1)"
    for refs :: "ref list" and x :: lb_state
  proof (induction refs arbitrary: x)
    case (Cons b refs)
    from Cons [of "x\<lparr>mets := SetBackendUp (ref_url x b) True (mets x)\<rparr>"] show ?case
      by (auto simp: frame_simps)
  qed simp
  show ?thesis
  proof (cases "MetricsEnabled (Metrics c)")
    case True
    with assms obtain m where m: "Init (osRegister sys) metrics0 = (m, None)"
      and s': "s' = fold (\<lambda>b s. s\<lparr>mets := SetBackendUp (ref_url s b) True (mets s)\<rparr>) (backends s) (s\<lparr>mets := m\<rparr>)"
      by (auto simp: start_metrics_def Backends_def split: prod.splits option.splits)
    have "enabled m" using Init_enables [OF m] by (simp add: metrics0_def)
    with gauges [of "backends s" "s\<lparr>mets := m\<rparr>"] assms(3) show ?thesis
      by (auto simp: gauge_ok_def s' IsAlive_def)
  next
    case False
    with assms show ?thesis by (simp add: start_metrics_def gauge_ok_def metrics0_def)
  qed
qed

lemma start_limiter_settings:
  assumes "start_limiter t c = Inr x"
  shows "case x of
       None \<Rightarrow> \<not> RLEnabled (RateLimit c)
     | Some l \<Rightarrow> RLEnabled (RateLimit c) \<and> limRate l = RequestsPerSecond (RateLimit c) \<and>
         limBurst l = Burst (RateLimit c) \<and> perIPOn l = PerIP (RateLimit c) \<and> lim_wf epoch t l"
proof -
  have "limRate l = r \<and> limBurst l = n \<and> perIPOn l = ip" if "NewLimiter t r n ip = Inr l" for r n ip l
    using that by (auto simp: NewLimiter_def split: if_splits)
  with assms NewLimiter_wf show ?thesis
    by (auto simp: start_limiter_def dest: sym split: if_splits sum.splits)
qed

lemma start_health_settings:
  "hcPath (start_health c) = HealthPath (HealthCheck c)"
  "hcInterval (start_health c) =
     (if HealthInterval (HealthCheck c) \<le> 0 then 10000000000 else HealthInterval (HealthCheck c))"
  "client (start_health c) =
     (if HealthTimeout (HealthCheck c) \<le> 0 then 2000000000 else HealthTimeout (HealthCheck c))"
  "unhealthyThreshold (start_health c) = max 1 (UnhealthyThreshold (HealthCheck c))"
  "healthyThreshold (start_health c) = max 1 (HealthyThreshold (HealthCheck c))"
  by (simp_all add: start_health_def NewHealthChecker_def Second_def Let_def max_def)

lemma servers_iff:
  "(port, paths) \<in> set (servers c) \<longleftrightarrow>
     (port = ServerPort (Server c) \<and> paths = [''/'']) \<or>
     (port = AdminPort (Admin c) \<and> port \<noteq> 0 \<and>
        paths = (if MetricsEnabled (Metrics c) \<and> MetricsPort (Metrics c) = 0
                 then [''/'', ''/metrics''] else [''/''])) \<or>
     (port = MetricsPort (Metrics c) \<and> port \<noteq> 0 \<and> MetricsEnabled (Metrics c) \<and> paths = [''/metrics''])"
  by (auto simp: servers_def)

text \<open>A file that sets only the pool, and a system with it, for the instances.\<close>

definition pool_file :: "string \<Rightarrow> (string \<times> int) list \<Rightarrow> files" where
  "pool_file a bs = \<lparr>readFile = (\<lambda>_. Inr ''yaml''), unmarshal = (\<lambda>_. Inr \<lparr>
     fServerPort = 0, fAlgorithm = a, fBackends = bs, fHealthPath = [], fHealthInterval = [],
     fHealthTimeout = [], fUnhealthyThreshold = 0, fHealthyThreshold = 0, fAdminPort = None,
     fRLEnabled = None, fRequestsPerSecond = None, fBurst = None, fPerIP = None,
     fMetricsEnabled = None, fMetricsPort = None, fCBEnabled = None, fCBFailureThreshold = None,
     fCBSuccessThreshold = None, fCBTimeout = [], fTLSEnabled = None, fCertFile = [], fKeyFile = [],
     fMinVersion = [], fStickyEnabled = None, fCookieName = [], fTTL = []\<rparr>)\<rparr>"

definition demo_os :: os where
  "demo_os = \<lparr>osFiles = pool_file ''least_connections'' [(''http://a'', 1), (''http://b'', 1)],
     osFloat = (\<lambda>_. None), osStat = (\<lambda>_. True), osURL = plain_parser, osRegister = (\<lambda>_. Registered)\<rparr>"

lemma Load_pool_file:
  assumes "a \<noteq> []" and "bs \<noteq> []" and "list_all (\<lambda>(u, w). 1 \<le> w) bs" and "path \<noteq> []"
  shows "Load (pool_file a bs) pf path [] = Inr (pool_of a bs)"
proof -
  have "file_backends bs = map (\<lambda>(u, w). \<lparr>BackendURL = u, BackendWeight = w\<rparr>) bs"
    using assms(3) by (auto simp: file_backends_def list_all_iff)
  then show ?thesis
    using assms(1,2,4)
    by (simp add: Load_def load_file_part_def pool_file_def applyFileConfig_def if_text_def if_nonzero_def
        if_duration_def if_min_version_def or_else_def Defaults_def pool_of_def applyCLI_def visited_def
        flag_set_def check_breaker_def Let_def)
qed

lemma demo_start:
  obtains g where "main_start demo_os h 0 [''--config'', ''golb.yaml''] = Inr g"
    and "currentCfg g = before" and "cfgPath g = ''golb.yaml''" and "limits g = None" and "\<not> shuttingDown g"
proof -
  have c: "Load (osFiles demo_os) (osFloat demo_os) ''golb.yaml'' [] = Inr before"
    by (simp add: demo_os_def before_def Load_pool_file)
  have checks: "check_tls demo_os before = Inr ()" "check_sticky before = Inr ()"
    "New (Algorithm (Pool before)) = Inr LeastConnections" "PoolBackends (Pool before) \<noteq> []"
    "AdminPort (Admin before) \<noteq> 0" "start_limiter 0 before = Inr None"
    by (simp_all add: before_def pool_of_def Defaults_def check_tls_def check_sticky_def New_def start_limiter_def)
  have reg: "register_backends (osURL demo_os) (PoolBackends (Pool before)) s =
      Inr (fold register (configured_backends plain_parser (PoolBackends (Pool before))) s)" for s
    unfolding register_backends_Inr
    by (simp add: before_def pool_of_def Defaults_def demo_os_def url_ok_def plain_parser_def http_url_def)
  have "snd (Init (\<lambda>_. Registered) m) = None" for m
    by (simp add: Init_def safeRegisterCounterVec_def safeRegisterHistogramVec_def safeRegisterGaugeVec_def
        safeRegister_def Let_def)
  then have met: "\<exists>s'. start_metrics demo_os before s = Inr s'" for s
    by (simp add: start_metrics_def demo_os_def split: prod.split option.split) (metis option.distinct(1) snd_conv)
  obtain s' where "start_metrics demo_os before (fold register (configured_backends plain_parser
      (PoolBackends (Pool before))) (NewLoadBalancer (empty_pool h) LeastConnections (proxy_options before))) = Inr s'"
    using met by blast
  with that show thesis
    by (simp add: main_start_def extractConfigFlag_def c checks reg)
qed

section \<open>Properties\<close>

text \<open>
  C28: start-up builds what the configuration says. When \<open>main\<close> gets as far as serving, from
  distinct, canonically written backend URLs: the pool holds exactly the configured backends with
  their weights, all alive, idle and with their proxies, and the exported gauges agree with it; the
  configured algorithm runs; breakers have the configured thresholds and timeout, cookies the
  configured name, TTL and security, the limiter the configured rate, burst and mode (in a state that
  cannot panic), and each of these is there exactly if it is enabled; the health checker probes the
  configured path with the configured thresholds, interval and timeout, the documented defaults where
  these are not positive; the main server, the management server and the metrics server listen on
  their ports with their paths, and if metrics are enabled one of them serves them; and TLS starts
  at the configured version.
\<close>

theorem startup_builds_config:
  assumes "main_start sys h t osArgs = Inr g" and "canonical (osURL sys) (currentCfg g)"
    and "distinct (map BackendURL (PoolBackends (Pool (currentCfg g))))"
  defines "c \<equiv> currentCfg g"
  shows "lb_wf (served g) \<and> runs_config c (served g) \<and>
    (\<forall>b \<in> ran (view (served g)). alive b \<and> activeConns b = 0) \<and> gauge_ok (served g) \<and>
    New (Algorithm (Pool c)) = Inr (algo (served g)) \<and>
    cbRegistry (served g) =
      (if CBEnabled (CircuitBreaker c)
       then Some \<lparr>breakers = Map.empty,
         cfg = \<lparr>FailureThreshold = CBFailureThreshold (CircuitBreaker c),
           SuccessThreshold = CBSuccessThreshold (CircuitBreaker c), Timeout = CBTimeout (CircuitBreaker c)\<rparr>\<rparr>
       else None) \<and>
    sticky (served g) =
      (if StickyEnabled (StickySession c)
       then Some \<lparr>cookieName = StickyCookieName (StickySession c), ttl = TTL (StickySession c),
         secure = TLSEnabled (TLS c)\<rparr>
       else None) \<and>
    (case limits g of
       None \<Rightarrow> \<not> RLEnabled (RateLimit c)
     | Some l \<Rightarrow> RLEnabled (RateLimit c) \<and> limRate l = RequestsPerSecond (RateLimit c) \<and>
         limBurst l = Burst (RateLimit c) \<and> perIPOn l = PerIP (RateLimit c) \<and> lim_wf epoch t l) \<and>
    (hcPath (checker g) = HealthPath (HealthCheck c) \<and>
     hcInterval (checker g) =
       (if HealthInterval (HealthCheck c) \<le> 0 then 10000000000 else HealthInterval (HealthCheck c)) \<and>
     tickerInterval g = hcInterval (checker g) \<and>
     client (checker g) = (if HealthTimeout (HealthCheck c) \<le> 0 then 2000000000 else HealthTimeout (HealthCheck c)) \<and>
     unhealthyThreshold (checker g) = max 1 (UnhealthyThreshold (HealthCheck c)) \<and>
     healthyThreshold (checker g) = max 1 (HealthyThreshold (HealthCheck c))) \<and>
    (\<forall>port paths. (port, paths) \<in> set (listening g) \<longleftrightarrow>
       (port = ServerPort (Server c) \<and> paths = [''/'']) \<or>
       (port = AdminPort (Admin c) \<and> port \<noteq> 0 \<and>
          paths = (if MetricsEnabled (Metrics c) \<and> MetricsPort (Metrics c) = 0
                   then [''/'', ''/metrics''] else [''/''])) \<or>
       (port = MetricsPort (Metrics c) \<and> port \<noteq> 0 \<and> MetricsEnabled (Metrics c) \<and> paths = [''/metrics''])) \<and>
    (managed g \<longleftrightarrow> AdminPort (Admin c) \<noteq> 0) \<and>
    (MetricsEnabled (Metrics c) \<longrightarrow>
       list_ex (\<lambda>(port, paths). port \<noteq> 0 \<and> ''/metrics'' \<in> set paths) (listening g)) \<and>
    tlsMinVersion g =
      (if TLSEnabled (TLS c) then Some (if TrimSpace (MinVersion (TLS c)) = ''1.3'' then 0x0304 else 0x0303)
       else None)"
proof -
  note pool = started_pool [OF assms(1-3)]
  from assms(1) obtain a s where a: "New (Algorithm (Pool (currentCfg g))) = Inr a"
    and reg: "register_backends (osURL sys) (PoolBackends (Pool (currentCfg g)))
      (NewLoadBalancer (empty_pool h) a (proxy_options (currentCfg g))) = Inr s"
    and end_point: "\<not> (MetricsEnabled (Metrics (currentCfg g)) \<and> MetricsPort (Metrics (currentCfg g)) = 0 \<and>
      AdminPort (Admin (currentCfg g)) = 0)"
    and met: "start_metrics sys (currentCfg g) s = Inr (served g)"
    and lim: "start_limiter t (currentCfg g) = Inr (limits g)" and srv: "listening g = servers (currentCfg g)"
    and rest: "managed g = (AdminPort (Admin (currentCfg g)) \<noteq> 0)" "checker g = start_health (currentCfg g)"
      "tickerInterval g = hcInterval (start_health (currentCfg g))"
      "tlsMinVersion g = (if TLSEnabled (TLS (currentCfg g))
        then Some (parseTLSVersion (MinVersion (TLS (currentCfg g)))) else None)"
    by (rule main_startE) blast
  have s: "algo s = a" "mets s = metrics0"
    "cbRegistry s = cbRegistry (NewLoadBalancer (empty_pool h) a (proxy_options (currentCfg g)))"
    "sticky s = sticky (NewLoadBalancer (empty_pool h) a (proxy_options (currentCfg g)))"
    using reg by (simp_all add: register_backends_Inr start_options empty_pool_def)
  note same = start_metrics_same_pool [OF met]
  have "\<forall>b \<in> set (backends s). alive (heap s b)"
    using pool(1,3) same by (auto simp: lb_wf_def same_pool_def ran_def dest!: view_mem)
  then have "gauge_ok (served g)" by (rule start_gauge [OF met s(2)])
  moreover have "list_ex (\<lambda>(port, paths). port \<noteq> 0 \<and> ''/metrics'' \<in> set paths) (listening g)"
    if "MetricsEnabled (Metrics (currentCfg g))"
    using that end_point by (auto simp: srv servers_def)
  moreover have "case limits g of
       None \<Rightarrow> \<not> RLEnabled (RateLimit c)
     | Some l \<Rightarrow> RLEnabled (RateLimit c) \<and> limRate l = RequestsPerSecond (RateLimit c) \<and>
         limBurst l = Burst (RateLimit c) \<and> perIPOn l = PerIP (RateLimit c) \<and> lim_wf epoch t l"
    using start_limiter_settings [OF lim] unfolding c_def .
  moreover have "cbRegistry (served g) = cbRegistry s" "sticky (served g) = sticky s" "algo (served g) = a"
    using same s(1) by simp_all
  note this [unfolded s(3,4) start_options NewRegistry_def NewAffinity_def]
  moreover note start_health_settings [of "currentCfg g"] servers_iff [of _ _ "currentCfg g"]
  ultimately show ?thesis
    using pool a rest unfolding c_def srv
    by (simp add: parseTLSVersion_def VersionTLS13_def VersionTLS12_def Let_def)
qed

lemma before_ok: "canonical (osURL demo_os) before" "distinct (map BackendURL (PoolBackends (Pool before)))"
  by (simp_all add: before_def pool_of_def Defaults_def canonical_def demo_os_def plain_parser_def http_url_def)

theorem startup_builds_config_witness:
  "\<exists>g. main_start demo_os (\<lambda>_. http_backend ''unused'' 1) 0 [''--config'', ''golb.yaml''] = Inr g \<and>
     map_option Weight (view (served g) ''http://b'') = Some 1 \<and> sticky (served g) = None \<and>
     algo (served g) = LeastConnections \<and> gauge_ok (served g)"
proof -
  obtain g where g: "main_start demo_os (\<lambda>_. http_backend ''unused'' 1) 0 [''--config'', ''golb.yaml''] = Inr g"
    "currentCfg g = before" by (rule demo_start)
  have "runs_config before (served g)" "gauge_ok (served g)"
    "New (Algorithm (Pool before)) = Inr (algo (served g))"
    "sticky (served g) = None \<longleftrightarrow> \<not> StickyEnabled (StickySession before)"
    using startup_builds_config [OF g(1), of 0] before_ok g(2) by simp_all
  moreover have "map_option BackendWeight (backend_map before ''http://b'') = Some 1"
    by (simp add: before_def pool_of_def Defaults_def backend_map_def)
  moreover have "New (Algorithm (Pool before)) = Inr LeastConnections" "\<not> StickyEnabled (StickySession before)"
    by (simp_all add: before_def pool_of_def Defaults_def New_def)
  ultimately show ?thesis using g(1) by (intro exI [of _ g]) (simp add: runs_config_def)
qed

text \<open>
  C27: the pool runs the current configuration at all times, for configurations whose URLs are written
  the way \<open>url.String\<close> prints them. If the configuration at the start has only such URLs, each once, and
  every file read on a \<open>SIGHUP\<close> has only such URLs, then, whatever requests, probe rounds, sweeps and
  signals follow one after the other in whatever order, the pool has exactly the backends and weights
  of the configuration last accepted, unless somebody changes it through the management API; and the
  pool stays servable even then. Both conditions are needed: the code finds a backend by the printed
  URL but compares configurations by the written one, and of two entries with one URL the pool keeps
  the first and the comparison the last.
\<close>

theorem pool_runs_current_config:
  assumes "main_start sys h t osArgs = Inr g0" and "canonical (osURL sys) (currentCfg g0)"
    and "distinct (map BackendURL (PoolBackends (Pool (currentCfg g0))))"
    and "list_all (event_ok (osFloat sys) (osURL sys) (cfgPath g0)) evs"
    and "g = golb_run (osFloat sys) (osURL sys) evs g0"
  shows "lb_wf (served g) \<and> (list_ex is_manage evs \<or> runs_config (currentCfg g) (served g))"
  using started_pool(1,2) [OF assms(1-3)] run_keeps [of g0] run_runs [of g0] assms(4,5) by blast

definition demo_keys :: "config \<Rightarrow> string list" where
  "demo_keys c = map BackendURL (PoolBackends (Pool c))"

lemma demo_keys: "set (demo_keys c) = dom (backend_map c)"
proof -
  have "dom (fold (\<lambda>b m. m(BackendURL b \<mapsto> b)) bs m) = dom m \<union> BackendURL ` set bs"
    for bs and m :: "string \<rightharpoonup> backend_config"
    by (induction bs arbitrary: m) auto
  then show ?thesis by (simp add: demo_keys_def backend_map_def)
qed

text \<open>A request, a probe round, a rejected and an accepted reload, and another request.\<close>

definition demo_events :: "golb_event list" where
  "demo_events =
     [Request (sample_env [''a'']) 0 1 ''10.0.0.1:5000'' (sample_request ''GET''),
      ProbeRound (\<lambda>_ _. Inr 200) [0, 1],
      Hup (pool_file ''no_such_algorithm'' [(''http://x'', 1)]) demo_keys,
      Hup (pool_file ''least_connections'' [(''http://a'', 5), (''http://c'', 2)]) demo_keys,
      Request (sample_env [''c'']) 0 2 ''10.0.0.1:5001'' (sample_request ''GET'')]"

theorem pool_runs_current_config_witness:
  "\<exists>g0 g. main_start demo_os (\<lambda>_. http_backend ''unused'' 1) 0 [''--config'', ''golb.yaml''] = Inr g0 \<and>
     g = golb_run (\<lambda>_. None) plain_parser demo_events g0 \<and>
     lb_wf (served g) \<and> runs_config (currentCfg g) (served g)"
proof -
  obtain g0 where g0: "main_start demo_os (\<lambda>_. http_backend ''unused'' 1) 0 [''--config'', ''golb.yaml''] = Inr g0"
    "currentCfg g0 = before" "cfgPath g0 = ''golb.yaml''" by (rule demo_start)
  have os: "osFloat demo_os = (\<lambda>_. None)" "osURL demo_os = plain_parser" by (simp_all add: demo_os_def)
  have files: "LoadFile (pool_file ''no_such_algorithm'' [(''http://x'', 1)]) (\<lambda>_. None) ''golb.yaml'' =
      Inr (pool_of ''no_such_algorithm'' [(''http://x'', 1)])"
    "LoadFile (pool_file ''least_connections'' [(''http://a'', 5), (''http://c'', 2)]) (\<lambda>_. None) ''golb.yaml'' =
      Inr (pool_of ''least_connections'' [(''http://a'', 5), (''http://c'', 2)])"
    by (simp_all add: LoadFile_def Load_pool_file)
  have "canonical plain_parser (pool_of ''no_such_algorithm'' [(''http://x'', 1)])"
    "canonical plain_parser (pool_of ''least_connections'' [(''http://a'', 5), (''http://c'', 2)])"
    by (simp_all add: pool_of_def canonical_def Defaults_def plain_parser_def http_url_def)
  then have "list_all (event_ok (osFloat demo_os) (osURL demo_os) (cfgPath g0)) demo_events"
    by (simp add: demo_events_def os g0(3) demo_keys files)
  moreover have "canonical (osURL demo_os) (currentCfg g0)"
    "distinct (map BackendURL (PoolBackends (Pool (currentCfg g0))))"
    using before_ok by (simp_all only: g0(2))
  moreover have "\<not> list_ex is_manage demo_events" by (simp add: demo_events_def)
  ultimately show ?thesis
    using pool_runs_current_config [OF g0(1) _ _ _ refl, unfolded os] g0(1) unfolding os by blast
qed

end
