(* ===== verification/Shutdown.thy ===== *)
theory Shutdown
  imports Golb_Main
begin

text \<open>
  How the program stops: the second half of \<open>cmd/golb/main.go\<close>'s signal goroutine, the goroutines
  that serve, and the end of \<open>main\<close>. Of \<open>net/http.Server\<close> the model has what the program relies
  on: \<open>ListenAndServe\<close> serves until it fails or \<open>Shutdown\<close> is called, and in the second case
  returns \<open>ErrServerClosed\<close> at once; \<open>Shutdown\<close> stops accepting, and returns when no request is
  in flight or its context has expired. When \<open>main\<close> returns the process ends, whatever its other
  goroutines are doing.
\<close>

section \<open>The state\<close>

datatype server_state = Serving | Down | Failing \<comment> \<open>\<open>ListenAndServe\<close> has returned another error\<close>

record http_server =
  srvState :: server_state
  inFlight :: nat

text \<open>Where the signal goroutine is.\<close>

datatype stage =
    AwaitSignal | Cancelling | ShutMetrics | DrainMetrics | ShutAdmin | DrainAdmin | ShutMain | DrainMain
  | Returned

record process =
  stage :: stage
  metricsSrv :: "http_server option"
  adminSrv :: "http_server option"
  mainSrv :: http_server
  ctxAlive :: bool \<comment> \<open>the health checker's context is not cancelled\<close>
  clock :: instant
  deadline :: instant
  cancelledAt :: "instant option" \<comment> \<open>history: when the signal goroutine cancelled the context\<close>
  exitCode :: "int option"

definition shutdown_timeout :: duration where "shutdown_timeout = 30000000000"

definition new_server :: http_server where
  "new_server = \<lparr>srvState = Serving, inFlight = 0\<rparr>"

text \<open>The program once it serves: which servers there are is decided at start-up.\<close>

definition process_start :: "golb \<Rightarrow> instant \<Rightarrow> process" where
  "process_start g t =
     \<lparr>stage = AwaitSignal,
      metricsSrv = (if list_ex (\<lambda>(p, paths). paths = [''/metrics'']) (listening g) then Some new_server else None),
      adminSrv = (if managed g then Some new_server else None),
      mainSrv = new_server, ctxAlive = True, clock = t, deadline = t, cancelledAt = None, exitCode = None\<rparr>"

text \<open>\<open>Shutdown\<close> is called on a server; one whose listener has failed has already returned that error.\<close>

definition shut :: "http_server \<Rightarrow> http_server" where
  "shut v = (if srvState v = Serving then v\<lparr>srvState := Down\<rparr> else v)"

definition idle_or_late :: "process \<Rightarrow> http_server \<Rightarrow> bool" where
  "idle_or_late p v \<longleftrightarrow> inFlight v = 0 \<or> deadline p \<le> clock p"

section \<open>The steps\<close>

text \<open>
  The signal goroutine after its loop: cancel the context, then shut the servers down one after the
  other under one context of 30 seconds. \<open>None\<close>: it waits, or has returned.
\<close>

fun shutdown_step :: "stage \<Rightarrow> process \<Rightarrow> process option" where
  "shutdown_step AwaitSignal p = None"
| "shutdown_step Cancelling p =
     Some (p\<lparr>stage := ShutMetrics, ctxAlive := False, deadline := clock p + shutdown_timeout,
       cancelledAt := Some (clock p)\<rparr>)"
| "shutdown_step ShutMetrics p = Some
     (case metricsSrv p of
        None \<Rightarrow> p\<lparr>stage := ShutAdmin\<rparr>
      | Some v \<Rightarrow> p\<lparr>stage := DrainMetrics, metricsSrv := Some (shut v)\<rparr>)"
| "shutdown_step DrainMetrics p =
     (case metricsSrv p of
        None \<Rightarrow> None
      | Some v \<Rightarrow> if idle_or_late p v then Some (p\<lparr>stage := ShutAdmin\<rparr>) else None)"
| "shutdown_step ShutAdmin p = Some
     (case adminSrv p of
        None \<Rightarrow> p\<lparr>stage := ShutMain\<rparr>
      | Some v \<Rightarrow> p\<lparr>stage := DrainAdmin, adminSrv := Some (shut v)\<rparr>)"
| "shutdown_step DrainAdmin p =
     (case adminSrv p of
        None \<Rightarrow> None
      | Some v \<Rightarrow> if idle_or_late p v then Some (p\<lparr>stage := ShutMain\<rparr>) else None)"
| "shutdown_step ShutMain p = Some (p\<lparr>stage := DrainMain, mainSrv := shut (mainSrv p)\<rparr>)"
| "shutdown_step DrainMain p = (if idle_or_late p (mainSrv p) then Some (p\<lparr>stage := Returned\<rparr>) else None)"
| "shutdown_step Returned p = None"

text \<open>The end of \<open>main\<close>: what it does when the main server's \<open>ListenAndServe\<close> has returned.\<close>

definition main_end :: "process \<Rightarrow> process option" where
  "main_end p =
     (case srvState (mainSrv p) of
        Serving \<Rightarrow> None
      | Down \<Rightarrow> Some (p\<lparr>ctxAlive := False, exitCode := Some 0\<rparr>)
      | Failing \<Rightarrow> Some (p\<lparr>exitCode := Some 1\<rparr>))"

text \<open>What befalls a server: a request comes or ends, or its listener fails.\<close>

fun server_event :: "http_server \<Rightarrow> http_server \<Rightarrow> bool" where
  "server_event v w \<longleftrightarrow>
     (srvState v = Serving \<and> w = v\<lparr>inFlight := Suc (inFlight v)\<rparr>) \<or>
     (inFlight v > 0 \<and> w = v\<lparr>inFlight := inFlight v - 1\<rparr>) \<or>
     (srvState v = Serving \<and> w = v\<lparr>srvState := Failing\<rparr>)"

inductive process_step :: "process \<Rightarrow> process \<Rightarrow> bool" where
  pass: "exitCode p = None \<Longrightarrow> 0 \<le> d \<Longrightarrow> process_step p (p\<lparr>clock := clock p + d\<rparr>)"
| signal: "exitCode p = None \<Longrightarrow> stage p = AwaitSignal \<Longrightarrow> process_step p (p\<lparr>stage := Cancelling\<rparr>)"
| goroutine: "exitCode p = None \<Longrightarrow> shutdown_step (stage p) p = Some q \<Longrightarrow> process_step p q"
| main_end: "exitCode p = None \<Longrightarrow> main_end p = Some q \<Longrightarrow> process_step p q"
| metrics: "exitCode p = None \<Longrightarrow> metricsSrv p = Some v \<Longrightarrow> server_event v w \<Longrightarrow>
    process_step p (p\<lparr>metricsSrv := Some w\<rparr>)"
| admin: "exitCode p = None \<Longrightarrow> adminSrv p = Some v \<Longrightarrow> server_event v w \<Longrightarrow>
    process_step p (p\<lparr>adminSrv := Some w\<rparr>)"
| main_server: "exitCode p = None \<Longrightarrow> server_event (mainSrv p) w \<Longrightarrow> process_step p (p\<lparr>mainSrv := w\<rparr>)"

inductive_cases process_stepE: "process_step p q"

abbreviation process_runs :: "process \<Rightarrow> process \<Rightarrow> bool" where
  "process_runs \<equiv> process_step\<^sup>*\<^sup>*"

section \<open>The order of the shutdown\<close>

definition at_rest :: "process \<Rightarrow> http_server option \<Rightarrow> bool" where
  "at_rest p v \<longleftrightarrow> (\<forall>u. v = Some u \<longrightarrow> srvState u \<noteq> Serving \<and> idle_or_late p u)"

fun stage_no :: "stage \<Rightarrow> nat" where
  "stage_no AwaitSignal = 0"
| "stage_no Cancelling = 1"
| "stage_no ShutMetrics = 2"
| "stage_no DrainMetrics = 3"
| "stage_no ShutAdmin = 4"
| "stage_no DrainAdmin = 5"
| "stage_no ShutMain = 6"
| "stage_no DrainMain = 7"
| "stage_no Returned = 8"

text \<open>What the signal goroutine has done by the time it has reached a stage.\<close>

definition shutdown_inv :: "process \<Rightarrow> bool" where
  "shutdown_inv p \<longleftrightarrow>
     (2 \<le> stage_no (stage p) \<longrightarrow> \<not> ctxAlive p) \<and>
     (cancelledAt p = None \<longleftrightarrow> stage_no (stage p) < 2) \<and>
     (\<forall>c. cancelledAt p = Some c \<longrightarrow> deadline p = c + 30 * 1000000000) \<and>
     (stage p = DrainMetrics \<longrightarrow> (\<exists>v. metricsSrv p = Some v \<and> srvState v \<noteq> Serving)) \<and>
     (4 \<le> stage_no (stage p) \<longrightarrow> at_rest p (metricsSrv p)) \<and>
     (stage p = DrainAdmin \<longrightarrow> (\<exists>v. adminSrv p = Some v \<and> srvState v \<noteq> Serving)) \<and>
     (6 \<le> stage_no (stage p) \<longrightarrow> at_rest p (adminSrv p)) \<and>
     (srvState (mainSrv p) = Down \<longrightarrow> 7 \<le> stage_no (stage p)) \<and>
     (7 \<le> stage_no (stage p) \<longrightarrow> srvState (mainSrv p) \<noteq> Serving) \<and>
     (stage p = Returned \<longrightarrow> idle_or_late p (mainSrv p)) \<and>
     (\<forall>c. exitCode p = Some c \<longrightarrow>
        (c = 0 \<and> srvState (mainSrv p) = Down) \<or> (c = 1 \<and> srvState (mainSrv p) = Failing))"

lemma server_event_mono:
  "server_event v w \<Longrightarrow> (srvState w = Down \<longleftrightarrow> srvState v = Down) \<and>
     (srvState v \<noteq> Serving \<longrightarrow> srvState w \<noteq> Serving \<and> inFlight w \<le> inFlight v)"
  by auto

declare server_event.simps [simp del]

lemma goroutine_inv:
  assumes "shutdown_step (stage p) p = Some q" and "shutdown_inv p" and "exitCode p = None"
  shows "shutdown_inv q"
proof (cases "stage p")
  case Cancelling
  with assms show ?thesis
    by (auto simp: shutdown_inv_def shutdown_timeout_def split: option.splits)
next
  case ShutMetrics
  with assms show ?thesis
    by (cases "metricsSrv p") (auto simp: shutdown_inv_def at_rest_def shut_def split: option.splits)
next
  case DrainMetrics
  with assms show ?thesis
    by (cases "metricsSrv p") (auto simp: shutdown_inv_def at_rest_def idle_or_late_def split: if_splits option.splits)
next
  case ShutAdmin
  with assms show ?thesis
    by (cases "adminSrv p") (auto simp: shutdown_inv_def at_rest_def idle_or_late_def shut_def
          split: option.splits)
next
  case DrainAdmin
  with assms show ?thesis
    by (cases "adminSrv p") (auto simp: shutdown_inv_def at_rest_def idle_or_late_def split: if_splits option.splits)
next
  case ShutMain
  with assms show ?thesis
    by (cases "srvState (mainSrv p)") (auto simp: shutdown_inv_def at_rest_def idle_or_late_def shut_def
        split: option.splits)
next
  case DrainMain
  with assms show ?thesis
    by (auto simp: shutdown_inv_def at_rest_def idle_or_late_def split: if_splits option.splits)
qed (use assms in simp_all)


lemma shutdown_inv_step: "process_step p q \<Longrightarrow> shutdown_inv p \<Longrightarrow> shutdown_inv q"
proof (induction rule: process_step.induct)
  case (pass p d)
  let ?q = "p\<lparr>clock := clock p + d\<rparr>"
  have "at_rest p x \<Longrightarrow> at_rest ?q x" "idle_or_late p v \<Longrightarrow> idle_or_late ?q v" for x v
    using pass(2) by (auto simp: at_rest_def idle_or_late_def)
  then show ?case using pass(3) by (simp add: shutdown_inv_def)
next
  case (signal p)
  then show ?case by (auto simp: shutdown_inv_def)
next
  case (goroutine p q)
  then show ?case by (simp add: goroutine_inv)
next
  case (main_end p q)
  have inv: "shutdown_inv p" by fact
  show ?case
  proof (cases "srvState (mainSrv p)")
    case Serving
    with main_end(2) show ?thesis by (simp add: main_end_def)
  next
    case Down
    let ?q = "p\<lparr>ctxAlive := False, exitCode := Some 0\<rparr>"
    have "at_rest ?q x = at_rest p x" "idle_or_late ?q v = idle_or_late p v" for x v
      by (simp_all add: at_rest_def idle_or_late_def)
    moreover have "q = ?q" using main_end(2) Down by (simp add: main_end_def)
    ultimately show ?thesis using inv Down by (simp add: shutdown_inv_def)
  next
    case Failing
    let ?q = "p\<lparr>exitCode := Some 1\<rparr>"
    have "at_rest ?q x = at_rest p x" "idle_or_late ?q v = idle_or_late p v" for x v
      by (simp_all add: at_rest_def idle_or_late_def)
    moreover have "q = ?q" using main_end(2) Failing by (simp add: main_end_def)
    ultimately show ?thesis using inv Failing by (simp add: shutdown_inv_def)
  qed
next
  case (metrics p v w)
  let ?q = "p\<lparr>metricsSrv := Some w\<rparr>"
  have "at_rest p (metricsSrv p) \<Longrightarrow> at_rest ?q (metricsSrv ?q)"
    using metrics(2) server_event_mono [OF metrics(3)] by (auto simp: at_rest_def idle_or_late_def)
  moreover have "at_rest ?q x = at_rest p x" for x by (simp add: at_rest_def idle_or_late_def)
  ultimately show ?case
    using metrics server_event_mono [OF metrics(3)] by (simp add: shutdown_inv_def idle_or_late_def)
next
  case (admin p v w)
  let ?q = "p\<lparr>adminSrv := Some w\<rparr>"
  have "at_rest p (adminSrv p) \<Longrightarrow> at_rest ?q (adminSrv ?q)"
    using admin(2) server_event_mono [OF admin(3)] by (auto simp: at_rest_def idle_or_late_def)
  moreover have "at_rest ?q x = at_rest p x" for x by (simp add: at_rest_def idle_or_late_def)
  ultimately show ?case
    using admin server_event_mono [OF admin(3)] by (simp add: shutdown_inv_def idle_or_late_def)
next
  case (main_server p w)
  let ?q = "p\<lparr>mainSrv := w\<rparr>"
  have "at_rest ?q x = at_rest p x" for x by (simp add: at_rest_def idle_or_late_def)
  then show ?case
    using main_server server_event_mono [OF main_server(2)] by (auto simp: shutdown_inv_def idle_or_late_def)
qed

lemma shutdown_inv_start: "shutdown_inv (process_start g t)"
  by (simp add: shutdown_inv_def process_start_def new_server_def)

lemma shutdown_inv_runs: "process_runs p q \<Longrightarrow> shutdown_inv p \<Longrightarrow> shutdown_inv q"
  by (induction rule: rtranclp_induct) (auto intro: shutdown_inv_step)


section \<open>Runs\<close>

lemma runs_step: "process_step p q \<Longrightarrow> process_runs q r \<Longrightarrow> process_runs p r"
  by (rule converse_rtranclp_into_rtranclp)

lemma arrivals:
  assumes "exitCode p = None" and "mainSrv p = \<lparr>srvState = Serving, inFlight = k\<rparr>"
  shows "process_runs p (p\<lparr>mainSrv := \<lparr>srvState = Serving, inFlight = k + n\<rparr>\<rparr>)"
proof (induction n)
  case 0
  have "p\<lparr>mainSrv := mainSrv p\<rparr> = p" by simp
  then have same: "p\<lparr>mainSrv := \<lparr>srvState = Serving, inFlight = k + 0\<rparr>\<rparr> = p" using assms(2) by simp
  show ?case unfolding same by (rule rtranclp.rtrancl_refl)
next
  case (Suc n)
  let ?p = "p\<lparr>mainSrv := \<lparr>srvState = Serving, inFlight = k + n\<rparr>\<rparr>"
  have "process_step ?p (?p\<lparr>mainSrv := \<lparr>srvState = Serving, inFlight = k + Suc n\<rparr>\<rparr>)"
    using assms by (intro process_step.main_server) (simp_all add: server_event.simps)
  with Suc show ?case by simp
qed

lemma shutdown_one:
  assumes "exitCode p = None" and "shutdown_step (stage p) p = Some q" and "process_runs q r"
  shows "process_runs p r"
  using process_step.goroutine [OF assms(1,2)] assms(3) by (rule runs_step)

text \<open>The signal goroutine runs through when the first two servers have no request.\<close>

lemma shut_through:
  assumes "exitCode p = None" and "stage p = Cancelling" and "srvState (mainSrv p) = Serving"
    and "\<And>v. metricsSrv p = Some v \<Longrightarrow> inFlight v = 0" and "\<And>v. adminSrv p = Some v \<Longrightarrow> inFlight v = 0"
  shows "\<exists>q. process_runs p q \<and> exitCode q = Some 0 \<and> inFlight (mainSrv q) = inFlight (mainSrv p) \<and>
    clock q = clock p"
proof -
  let ?a = "p\<lparr>stage := ShutMetrics, ctxAlive := False, deadline := clock p + shutdown_timeout,
      cancelledAt := Some (clock p)\<rparr>"
  let ?b = "?a\<lparr>stage := ShutAdmin, metricsSrv := map_option shut (metricsSrv p)\<rparr>"
  let ?c = "?b\<lparr>stage := ShutMain, adminSrv := map_option shut (adminSrv p)\<rparr>"
  let ?d = "?c\<lparr>stage := DrainMain, mainSrv := shut (mainSrv p)\<rparr>"
  let ?e = "?d\<lparr>ctxAlive := False, exitCode := Some 0\<rparr>"
  have e: "process_runs ?d ?e"
    by (intro r_into_rtranclp process_step.main_end) (simp_all add: assms(1,3) main_end_def shut_def)
  have d: "process_runs ?c ?e" by (rule shutdown_one [OF _ _ e]) (simp_all add: assms(1))
  have c: "process_runs ?b ?e"
  proof (cases "adminSrv p")
    case None
    then have "?b\<lparr>stage := ShutMain\<rparr> = ?c" by simp
    with None show ?thesis by (intro shutdown_one [OF _ _ d]) (simp_all add: assms(1))
  next
    case (Some v)
    let ?m = "?b\<lparr>stage := DrainAdmin, adminSrv := Some (shut v)\<rparr>"
    have "process_runs ?m ?e"
      by (rule shutdown_one [OF _ _ d]) (use Some assms(1,5) in \<open>simp_all add: idle_or_late_def shut_def\<close>)
    then show ?thesis by (rule shutdown_one [rotated 2]) (use Some assms(1) in simp_all)
  qed
  have b: "process_runs ?a ?e"
  proof (cases "metricsSrv p")
    case None
    then have "?a\<lparr>stage := ShutAdmin\<rparr> = ?b" by simp
    with None show ?thesis by (intro shutdown_one [OF _ _ c]) (simp_all add: assms(1))
  next
    case (Some v)
    let ?m = "?a\<lparr>stage := DrainMetrics, metricsSrv := Some (shut v)\<rparr>"
    have "process_runs ?m ?e"
      by (rule shutdown_one [OF _ _ c]) (use Some assms(1,4) in \<open>simp_all add: idle_or_late_def shut_def\<close>)
    then show ?thesis by (rule shutdown_one [rotated 2]) (use Some assms(1) in simp_all)
  qed
  have "process_runs p ?e" by (rule shutdown_one [OF _ _ b]) (simp_all add: assms(1,2))
  then show ?thesis by (intro exI [of _ ?e]) (simp add: shut_def)
qed

lemma exits_with_requests:
  "\<exists>p. process_runs (process_start g t) p \<and> exitCode p = Some 0 \<and> inFlight (mainSrv p) = n \<and> clock p = t"
proof -
  let ?s = "process_start g t"
  let ?p = "?s\<lparr>mainSrv := \<lparr>srvState = Serving, inFlight = n\<rparr>\<rparr>"
  have a: "process_runs ?s ?p"
    using arrivals [of ?s 0 n] by (simp add: process_start_def new_server_def)
  have sg: "process_step ?p (?p\<lparr>stage := Cancelling\<rparr>)"
    by (rule process_step.signal) (simp_all add: process_start_def)
  have "\<exists>q. process_runs (?p\<lparr>stage := Cancelling\<rparr>) q \<and> exitCode q = Some 0 \<and>
      inFlight (mainSrv q) = inFlight (mainSrv (?p\<lparr>stage := Cancelling\<rparr>)) \<and> clock q = clock (?p\<lparr>stage := Cancelling\<rparr>)"
    by (rule shut_through) (auto simp: process_start_def new_server_def split: if_splits)
  then obtain q where "process_runs (?p\<lparr>stage := Cancelling\<rparr>) q" "exitCode q = Some 0"
    "inFlight (mainSrv q) = n" "clock q = t" by (auto simp: process_start_def)
  with rtranclp_trans [OF a runs_step [OF sg]] show ?thesis by blast
qed

section \<open>Properties\<close>

text \<open>
  C39: the shutdown runs in order and in time. At every moment: the main server is shut down only
  after the signal goroutine has cancelled the health checker's context and the metrics and management
  servers have stopped and have no request left, or 30 seconds have passed since the cancellation;
  until then, and no longer, the goroutine waits for a server it has shut down and that has requests
  in flight; and the process exits with code 0 only after the main server was shut down, with code 1
  only after it failed.
\<close>

theorem shutdown_order:
  assumes "process_runs (process_start g t) p"
  shows "(srvState (mainSrv p) = Down \<longrightarrow> (\<exists>c. cancelledAt p = Some c \<and> \<not> ctxAlive p \<and>
      (\<forall>v. metricsSrv p = Some v \<or> adminSrv p = Some v \<longrightarrow>
        srvState v \<noteq> Serving \<and> (inFlight v = 0 \<or> c + 30 * 1000000000 \<le> clock p)))) \<and>
    (\<forall>c. cancelledAt p = Some c \<longrightarrow> stage p \<noteq> Returned \<longrightarrow>
      (shutdown_step (stage p) p = None \<longleftrightarrow> clock p < c + 30 * 1000000000 \<and>
        (\<exists>v. inFlight v > 0 \<and> ((stage p = DrainMetrics \<and> metricsSrv p = Some v) \<or>
          (stage p = DrainAdmin \<and> adminSrv p = Some v) \<or> (stage p = DrainMain \<and> mainSrv p = v))))) \<and>
    (cancelledAt p = None \<longleftrightarrow> stage p = AwaitSignal \<or> stage p = Cancelling) \<and>
    (\<forall>c. exitCode p = Some c \<longrightarrow>
      (c = 0 \<and> srvState (mainSrv p) = Down) \<or> (c = 1 \<and> srvState (mainSrv p) = Failing))"
proof -
  have inv: "shutdown_inv p" using assms shutdown_inv_start by (rule shutdown_inv_runs)
  have none: "cancelledAt p = None \<longleftrightarrow> stage p = AwaitSignal \<or> stage p = Cancelling"
    using inv by (cases "stage p") (simp_all add: shutdown_inv_def)
  have "shutdown_step (stage p) p = None \<longleftrightarrow> clock p < c + 30 * 1000000000 \<and>
      (\<exists>v. inFlight v > 0 \<and> ((stage p = DrainMetrics \<and> metricsSrv p = Some v) \<or>
        (stage p = DrainAdmin \<and> adminSrv p = Some v) \<or> (stage p = DrainMain \<and> mainSrv p = v)))"
    if "cancelledAt p = Some c" "stage p \<noteq> Returned" for c
    using that inv by (cases "stage p") (auto simp: shutdown_inv_def idle_or_late_def split: if_splits)
  moreover have "\<exists>c. cancelledAt p = Some c \<and> \<not> ctxAlive p \<and>
      (\<forall>v. metricsSrv p = Some v \<or> adminSrv p = Some v \<longrightarrow>
        srvState v \<noteq> Serving \<and> (inFlight v = 0 \<or> c + 30 * 1000000000 \<le> clock p))"
    if "srvState (mainSrv p) = Down"
    using that inv by (auto simp: shutdown_inv_def at_rest_def idle_or_late_def split: option.splits)
  ultimately show ?thesis using none inv by (auto simp: shutdown_inv_def)
qed

theorem shutdown_order_witness:
  "\<forall>g t. \<exists>p. process_runs (process_start g t) p \<and> exitCode p = Some 0 \<and> \<not> ctxAlive p"
proof (intro allI)
  fix g t
  obtain p where p: "process_runs (process_start g t) p" "exitCode p = Some 0"
    using exits_with_requests [of g t 0] by blast
  with shutdown_order [OF p(1)] show "\<exists>p. process_runs (process_start g t) p \<and> exitCode p = Some 0 \<and> \<not> ctxAlive p"
    by auto
qed

text \<open>
  C40: the graceful shutdown does not wait for the requests it is meant to wait for. Whatever the
  number of requests in flight when the signal comes, the process can exit with code 0 at that very
  moment with all of them still in flight: \<open>ListenAndServe\<close> returns as soon as \<open>Shutdown\<close> is
  called, and \<open>main\<close> returns without waiting for \<open>Shutdown\<close>.
\<close>

theorem shutdown_cuts_requests_off:
  "\<exists>p. process_runs (process_start g t) p \<and> exitCode p = Some 0 \<and> inFlight (mainSrv p) = n \<and> clock p = t"
  by (rule exits_with_requests)

end
