(* ===== verification/Spec2Isabelle.thy ===== *)
theory Spec2Isabelle
  imports Proxy_Endings Response_Writer Gauge Limiter_Steps Shutdown
begin

text \<open>
  GoLB (\<open>github.com/VijayGohel/go-lb\<close>) is an HTTP load balancer written in Go. Clients' requests pass an
  optional rate limiter and reach a load balancer, which chooses a backend from a pool by an algorithm,
  by a sticky-session cookie and by the backends' circuit breakers, sends the request on, and retries it or
  switches to another backend when that fails. A health checker probes the backends in the
  background, a management API adds, removes, enables and disables them, and \<open>SIGHUP\<close> reloads the
  configuration file. This development models every package of the program as executable functions
  and proves what they promise.

  \<^bold>\<open>Parts and theories.\<close> Each theory opens with the correspondence of its package in detail.

  \<^item> \<open>Golb_Prelude\<close>: Go's 64-bit integers with their wrap-around, map lookups with zero values, results as
    sums, the functions of \<open>strings\<close> and \<open>strconv\<close> the program calls, and the theorem collections
    (\<open>go_int\<close>, \<open>heap_simps\<close>, \<open>frame_simps\<close>, \<open>wf_intros\<close>) that carry the proofs.
  \<^item> \<open>Backends\<close> (\<open>internal/backend\<close>): the \<open>Backend\<close> struct, its accessors, and the store in which pointers
    to backends are references. The pool, the health checker, the management API and requests in flight share
    these pointers, and so do their models.
  \<^item> \<open>Metrics\<close> (\<open>internal/metrics\<close>): registration and every recording function; the Prometheus client is a
    parameter and the calls made on it are a list.
  \<^item> \<open>Pools\<close> (\<open>internal/pool\<close>): the slice of backends, as a map from URL text to backend (locale \<open>url_map\<close>).
  \<^item> \<open>Algos\<close> (\<open>internal/algo\<close>): round robin, least connections and smooth weighted round robin; what a
    caller relies on is stated in locales and interpreted on each algorithm.
  \<^item> \<open>Breakers\<close> (\<open>internal/circuitbreaker\<close>): the breaker's state machine and the registry; concurrent requests
    are a step relation on a breaker and the requests it has admitted.
  \<^item> \<open>Sticky\<close> (\<open>internal/sticky\<close>): the affinity cookie with its base64 encoding.
  \<^item> \<open>Proxy\<close> (\<open>internal/proxy\<close>): serving one request, as the three mutually recursive functions \<open>ServeHTTP\<close>,
    \<open>proxy_ServeHTTP\<close> and \<open>error_handler\<close>. \<open>Proxy_Facts\<close> has the frame of each small step and a locale
    that lifts a relation kept by every step to whole requests, \<open>Proxy_Props\<close> and \<open>Proxy_Traces\<close> the
    inductions, \<open>Proxy_Claims\<close> the properties. \<open>Response_Writer\<close> has the wrappers around the client's
    writer, with \<open>Flush\<close> and \<open>Hijack\<close>.
  \<^item> \<open>Proxy_Concurrent\<close>: the same code for many requests at once. A request is a goroutine with a control
    and a stack of frames, \<open>go_step\<close> one access of it to shared state; \<open>schedule\<close> runs a list of events,
    each a step of some goroutine, an arrival, the passing of time, or an effect of the management API, the
    health checker or a reload. \<open>Proxy_Interleaved\<close> has what every interleaving keeps,
    \<open>Proxy_Endings\<close> how requests end in every interleaving.
  \<^item> \<open>Health\<close> (\<open>internal/health\<close>): probes, thresholds and the rounds of the background loop. \<open>Gauge\<close>: the
    updates of liveness flag and up gauge, by the health checker and by \<open>MarkBackendStatus\<close>, in two accesses
    that interleave.
  \<^item> \<open>Go_Parse\<close>: \<open>ParseBool\<close>, \<open>ParseInt\<close> and \<open>ParseDuration\<close> of the standard library, with their overflows.
  \<^item> \<open>Config\<close> and \<open>Config_Props\<close> (\<open>internal/config\<close>): defaults, file, command line and their merge.
  \<^item> \<open>Reload\<close> (\<open>internal/reload\<close>): the difference of two configurations and its application.
  \<^item> \<open>Rate_Limit\<close> (\<open>internal/ratelimit\<close>, \<open>internal/middleware\<close>): token buckets, the limiter with its sweeps, and
    the chain of middlewares, with calls and sweeps as single steps. \<open>Limiter_Steps\<close>: the per-client limiter
    again, in the accesses of its calls and of the sweeping goroutine, which interleave.
  \<^item> \<open>Admin\<close> (\<open>internal/admin\<close>): the management API with its routes.
  \<^item> \<open>Golb_Main\<close> (\<open>cmd/golb\<close>): start-up, the chain of handlers, the signal loop, and the whole program as
    a run over events. \<open>Shutdown\<close>: how it stops, as a step relation on its servers, the signal goroutine and
    the end of \<open>main\<close>.

  \<^bold>\<open>State.\<close> \<open>pool_state\<close> holds the store, the metrics package's variables and the pool's slice; \<open>lb_state\<close>
  extends it with the load balancer's fields, the response being written and the log. Management, reload and
  health checking work on the same record. \<open>golb\<close> holds it together with the health checker, the limiter
  and the current configuration. Definitions keep the names of the code; a method whose name another package
  also has is prefixed with its type.

  \<^bold>\<open>What the lemmas show.\<close>

  \<^item> Serving: exactly one \<open>WriteHeader\<close> of a request reaches the client's writer (\<open>status\<close> is the list of all
    of them), unless the client has left during a wait before a retry, when nothing is written; it comes after at
    most 12 round trips and in a time bounded by them; a backend is marked dead only when it has failed
    all its tries; a chosen backend is asked only if its breaker admits the request, which it does whenever
    some breaker would; logs, counters and cookies tell what happened; the pool's configuration is untouched. \<open>ServeHTTP\<close> ends because each retry and each switch raises a counter
    that is bounded; its termination proof is a lexicographic measure on the two.
  \<^item> Concurrency: a request alone in the concurrent system can end exactly as \<open>ServeHTTP\<close> says (lemma
    \<open>lone_request_runs_ServeHTTP\<close>), which ties the two models of one code together. In every interleaving connection counts and gauges equal the attempts open at the moment,
    panics and removed backends included; pool, breakers and metrics keep their invariants and no nil pointer is
    called; every single request ends within a number of steps that depends on the size of the pool only, none
    waits for another, and each is answered as its own round trips and waits say.
  \<^item> Choice: every algorithm returns a live backend when there is one; round robin is fair, least connections
    minimal, weighted round robin exact over every period.
  \<^item> Breakers and health: invariants of the reachable states, when exactly a breaker trips, refuses,
    probes and recovers, and hysteresis of the health checker, whatever the order in which probes report.
  \<^item> Configuration: precedence of the sources, validity of what loads, and that a file can express every setting.
    Reload: a successful one takes the pool to the new configuration, a failed one changes nothing.
  \<^item> Limiter: a bucket keeps to its rate in every stretch of its requests; in every sequence of calls and
    sweeps that do not overlap clients are isolated from each other and from sweeps, and \<open>Retry-After\<close> is
    exact; when they do overlap, each deleted bucket costs at most one more burst. Management: every request obeys a contract on the map of backends.
  \<^item> The program: start-up builds what the configuration says, and through any run the pool has the
    backends and weights of the configuration accepted last, if configurations write URLs the way they
    are printed and each once at the start. The shutdown keeps its order and its 30 seconds, but the
    process can exit with requests in flight.

  Some properties and lemmas are closed examples of what the code does where it departs from what it
  means to do: breaker outcomes and metrics recorded for every frame of a failed-over request, a
  half-open breaker whose permit is lost in a panic, healthy backends marked dead by clients that go away,
  URLs that reload or the management API cannot name, two updates of a backend that leave its gauge wrong,
  a sweep that deletes a bucket in use.

  \<^bold>\<open>Bounds and fuel.\<close> Go's \<open>int\<close> and \<open>int64\<close> are integers wrapped to 64 bits where the code counts or adds;
  durations and instants are nanoseconds. Two functions take fuel, the length of the string they read: the
  trimming loop \<open>trim_prefixes\<close> (lemma \<open>trim_prefixes_done\<close>) and \<open>duration_parts\<close> (lemma
  \<open>duration_parts_fuel\<close>); each round consumes at least one character, so this is enough. \<open>rr_loop\<close> and
  \<open>ServeHTTP\<close> are functions with termination proofs of their own; all other loops are structural. The steps a goroutine has
  left are bounded by \<open>work\<close>, which falls with every step: 3 attempts of one step per backend and 34 more,
  and one to arrive at the end.

  \<^bold>\<open>Outside the program.\<close> Backends, clock and random source are the record \<open>env\<close>; the file system, YAML,
  \<open>ParseFloat\<close>, \<open>url.Parse\<close>, JSON decoding and the Prometheus registry are parameters; the order in which Go
  iterates over a map and the order in which goroutines report are lists chosen from outside.

  \<^bold>\<open>Not modelled.\<close> Locks: a method that excludes its other callers throughout is one atomic step, so nothing
  is said of a lock that is never given back. \<open>MarkBackendStatus\<close>, which does not, is one step in the
  sequential theories, and two in \<open>Proxy_Concurrent\<close> and \<open>Gauge\<close>. In the concurrent
  model reading the liveness flags and counters of the backends of a snapshot while one is chosen is one step, and so
  are the load of the algorithm and its \<open>Next\<close>; a swap that falls between the two comes after the choice. \<open>golb_run\<close>
  takes whole requests, probe rounds and management requests as events; how the steps of requests
  interleave with management is \<open>Proxy_Concurrent\<close>'s subject. Of \<open>httputil.ReverseProxy\<close> the model has the
  director, the round trip, the error handler and the panic on an aborted body, not informational (1xx)
  responses and protocol upgrades; of \<open>ServeMux\<close> not the redirect of unclean paths. Sockets, TLS and the metrics endpoint; of
  \<open>net/http.Server\<close> the model has what the program relies on. Log output other than a request's lines, and
  package \<open>internal/logger\<close>, which sets the default logger. The limiter's \<open>float64\<close> arithmetic is exact rational
  arithmetic here, without rounding, infinities and NaN, and \<open>Retry-After\<close> an unbounded integer.
\<close>

end
